(* ===== verification/Prelude.thy ===== *)
theory Prelude
  imports Main "HOL-Library.Word" "HOL-Library.Multiset"
begin

text \<open>
  Shared vocabulary of the development: the fixed-width arithmetic of the Rust sources written out
  on natural numbers, the slice and vector operations of the Rust standard library that several
  components use, the error numbers of \<open>libs/errno\<close>, and two interfaces: a generic
  transition system with its invariant rule, and the contract of a table that admits and retires
  mutually compatible entries.
\<close>

section \<open>Collections of facts\<close>

named_theorems vma_simps \<open>rewriting for address-space areas\<close>
named_theorems lock_simps \<open>rewriting for lock tables\<close>
named_theorems rust_simps \<open>unfolding of the modelled standard-library operations\<close>

section \<open>Error numbers used by the modelled components\<close>

datatype errno = EINVAL | EEXIST | EAGAIN | EINTR | EDEADLK | EBUSY | ENOMEM | EFAULT

section \<open>Unsigned arithmetic of width 64\<close>

abbreviation U64_MAX :: nat where
  "U64_MAX \<equiv> 18446744073709551615"

abbreviation U32_MAX :: nat where
  "U32_MAX \<equiv> 4294967295"

definition checked_add :: "nat \<Rightarrow> nat \<Rightarrow> nat option" where
  "checked_add a b = (if a + b \<le> U64_MAX then Some (a + b) else None)"

definition checked_sub :: "nat \<Rightarrow> nat \<Rightarrow> nat option" where
  "checked_sub a b = (if b \<le> a then Some (a - b) else None)"

definition saturating_add :: "nat \<Rightarrow> nat \<Rightarrow> nat" where
  "saturating_add a b = min (a + b) U64_MAX"

definition saturating_sub :: "nat \<Rightarrow> nat \<Rightarrow> nat" where
  "saturating_sub a b = (if b \<le> a then a - b else 0)"

definition saturating_mul :: "nat \<Rightarrow> nat \<Rightarrow> nat" where
  "saturating_mul a b = min (a * b) U64_MAX"

lemma checked_add_Some_iff [simp]:
  "checked_add a b = Some c \<longleftrightarrow> a + b \<le> U64_MAX \<and> c = a + b"
  by (auto simp: checked_add_def)

lemma checked_add_None_iff [simp]: "checked_add a b = None \<longleftrightarrow> U64_MAX < a + b"
  by (auto simp: checked_add_def)

lemma checked_sub_Some_iff [simp]: "checked_sub a b = Some c \<longleftrightarrow> b \<le> a \<and> c = a - b"
  by (auto simp: checked_sub_def)

lemma checked_sub_None_iff [simp]: "checked_sub a b = None \<longleftrightarrow> a < b"
  by (auto simp: checked_sub_def)

lemma saturating_sub_eq [simp]: "saturating_sub a b = a - b"
  by (simp add: saturating_sub_def)

lemma saturating_add_le [simp]: "saturating_add a b \<le> U64_MAX"
  by (simp add: saturating_add_def)

lemma saturating_add_exact: "a + b \<le> U64_MAX \<Longrightarrow> saturating_add a b = a + b"
  by (simp add: saturating_add_def)

section \<open>Slices and vectors\<close>

text \<open>
  \<open>slice::partition_point\<close>: the index of the first element that falsifies the predicate,
  which is what the standard library returns on a slice partitioned by it.
\<close>

definition partition_point :: "('a \<Rightarrow> bool) \<Rightarrow> 'a list \<Rightarrow> nat" where
  "partition_point P xs = length (takeWhile P xs)"

definition insert_at :: "nat \<Rightarrow> 'a \<Rightarrow> 'a list \<Rightarrow> 'a list" where
  "insert_at i x xs = take i xs @ x # drop i xs"

definition remove_at :: "nat \<Rightarrow> 'a list \<Rightarrow> 'a list" where
  "remove_at i xs = take i xs @ drop (Suc i) xs"

text \<open>\<open>Vec::swap_remove\<close>: the last element takes the place of the removed one.\<close>

definition swap_remove :: "nat \<Rightarrow> 'a list \<Rightarrow> 'a list" where
  "swap_remove i xs = butlast (xs[i := last xs])"

text \<open>\<open>Iterator::position\<close>.\<close>

fun position :: "('a \<Rightarrow> bool) \<Rightarrow> 'a list \<Rightarrow> nat option" where
  "position P [] = None"
| "position P (x # xs) = (if P x then Some 0 else map_option Suc (position P xs))"

text \<open>\<open>Iterator::min_by_key\<close>: the first element with the least key.\<close>

fun min_by_key :: "('a \<Rightarrow> 'k::linorder) \<Rightarrow> 'a list \<Rightarrow> 'a option" where
  "min_by_key f [] = None"
| "min_by_key f (x # xs) =
     (case min_by_key f xs of None \<Rightarrow> Some x | Some y \<Rightarrow> Some (if f x \<le> f y then x else y))"

lemma take_partition_point [simp]: "take (partition_point P xs) xs = takeWhile P xs"
  by (simp add: partition_point_def takeWhile_eq_take [symmetric])

lemma drop_partition_point [simp]: "drop (partition_point P xs) xs = dropWhile P xs"
  by (simp add: partition_point_def dropWhile_eq_drop [symmetric])

lemma partition_point_le [simp]: "partition_point P xs \<le> length xs"
  by (simp add: partition_point_def length_takeWhile_le)

lemma insert_at_partition_point:
  "insert_at (partition_point P xs) x xs = takeWhile P xs @ x # dropWhile P xs"
  by (simp add: insert_at_def)

lemma set_takeWhile_dropWhile [simp]: "set (takeWhile P xs) \<union> set (dropWhile P xs) = set xs"
  by (metis set_append takeWhile_dropWhile_id)

lemma nth_partition_point:
  "partition_point P xs < length xs \<Longrightarrow> xs ! partition_point P xs = hd (dropWhile P xs)"
  by (metis drop_partition_point hd_drop_conv_nth)

lemma nth_partition_point_pred:
  "0 < partition_point P xs \<Longrightarrow> xs ! (partition_point P xs - 1) = last (takeWhile P xs)"
  by (metis One_nat_def Suc_pred last_conv_nth length_0_conv lessI nth_take partition_point_def
      take_partition_point less_numeral_extra(3))

lemma partition_point_pos: "0 < partition_point P xs \<longleftrightarrow> takeWhile P xs \<noteq> []"
  by (simp add: partition_point_def)

lemma partition_point_less: "partition_point P xs < length xs \<longleftrightarrow> dropWhile P xs \<noteq> []"
  by (metis drop_eq_Nil drop_partition_point not_less)

text \<open>On a list that is partitioned by the predicate the two halves are filters.\<close>

lemma dropWhile_partitioned:
  "sorted_wrt (\<lambda>a b. P b \<longrightarrow> P a) xs \<Longrightarrow> x \<in> set (dropWhile P xs) \<Longrightarrow> \<not> P x"
  by (induction xs) (auto split: if_splits)

lemma takeWhile_satisfies: "x \<in> set (takeWhile P xs) \<Longrightarrow> P x"
  by (rule set_takeWhileD [THEN conjunct2])

lemma takeWhile_partitioned_set:
  assumes "sorted_wrt (\<lambda>a b. P b \<longrightarrow> P a) xs"
  shows "set (takeWhile P xs) = {x \<in> set xs. P x}" "set (dropWhile P xs) = {x \<in> set xs. \<not> P x}"
proof -
  show "set (takeWhile P xs) = {x \<in> set xs. P x}"
    using dropWhile_partitioned [OF assms] set_takeWhile_dropWhile [of P xs] takeWhile_satisfies [of _ P xs]
    by blast
  show "set (dropWhile P xs) = {x \<in> set xs. \<not> P x}"
    using dropWhile_partitioned [OF assms] set_takeWhile_dropWhile [of P xs] takeWhile_satisfies [of _ P xs]
    by blast
qed

lemma nth_split: "i < length xs \<Longrightarrow> xs = take i xs @ xs ! i # drop (Suc i) xs"
  by (rule id_take_nth_drop)

lemma length_swap_remove [simp]: "length (swap_remove i xs) = length xs - 1"
  by (simp add: swap_remove_def)

lemma swap_remove_last: "swap_remove (length xs) (xs @ [x]) = xs"
  by (simp add: swap_remove_def)

lemma swap_remove_inner: "i < length xs \<Longrightarrow> swap_remove i (xs @ [x]) = xs[i := x]"
  by (simp add: swap_remove_def list_update_append)

lemma swap_remove_update: "i < length xs \<Longrightarrow> swap_remove i (xs[i := x]) = swap_remove i xs"
proof -
  assume "i < length xs"
  then obtain ys y where xs: "xs = ys @ [y]" and i: "i \<le> length ys"
    by (metis append_butlast_last_id length_append_singleton less_Suc_eq_le less_nat_zero_code list.size(3))
  show ?thesis
  proof (cases "i = length ys")
    case True
    then show ?thesis by (simp add: xs swap_remove_last)
  next
    case False
    with i show ?thesis by (simp add: xs list_update_append swap_remove_inner)
  qed
qed

lemma swap_remove_mset:
  assumes "i < length xs"
  shows "mset (swap_remove i xs) = mset xs - {#xs ! i#}"
proof -
  obtain ys y where xs: "xs = ys @ [y]"
    using assms by (metis append_butlast_last_id less_nat_zero_code list.size(3))
  show ?thesis
  proof (cases "i = length ys")
    case True
    then show ?thesis by (simp add: xs swap_remove_last)
  next
    case False
    with assms xs have i: "i < length ys" by simp
    then show ?thesis by (simp add: xs swap_remove_inner nth_append mset_update)
  qed
qed

lemma swap_remove_set_subset: "i < length xs \<Longrightarrow> set (swap_remove i xs) \<subseteq> set xs"
  by (metis swap_remove_mset set_mset_mset in_diffD subsetI)

lemma swap_remove_split:
  assumes "i < length xs"
  shows "mset (swap_remove i xs) = mset (take i xs @ drop (Suc i) xs)"
proof -
  have "mset xs = mset (take i xs @ drop (Suc i) xs) + {#xs ! i#}"
    by (subst id_take_nth_drop [OF assms]) simp
  then show ?thesis by (simp add: swap_remove_mset [OF assms])
qed

lemma swap_remove_perm: "i < length xs \<Longrightarrow> mset xs = mset (xs ! i # swap_remove i xs)"
  by (simp add: swap_remove_mset)

lemma list_update_perm: "i < length xs \<Longrightarrow> mset (xs[i := d]) = mset (d # swap_remove i xs)"
  by (simp add: swap_remove_mset mset_update)

text \<open>Counting and summing over a vector do not depend on its order.\<close>

lemma length_filter_perm: "mset xs = mset ys \<Longrightarrow> length (filter P xs) = length (filter P ys)"
  by (rule mset_eq_length) simp

lemma sum_list_perm:
  assumes "mset xs = mset ys"
  shows "sum_list (map f (filter P xs)) = (sum_list (map f (filter P ys)) :: nat)"
proof -
  have "sum_mset (mset (map f (filter P xs))) = sum_mset (mset (map f (filter P ys)))" using assms by simp
  then show ?thesis by (simp only: sum_mset_sum_list)
qed

lemma position_Some:
  "position P xs = Some i \<longleftrightarrow> i < length xs \<and> P (xs ! i) \<and> (\<forall>j<i. \<not> P (xs ! j))"
proof (induction xs arbitrary: i)
  case Nil
  then show ?case by simp
next
  case (Cons x xs)
  then show ?case
    by (cases i) (force simp: nth_Cons split: nat.splits)+
qed

lemma position_None: "position P xs = None \<longleftrightarrow> (\<forall>x\<in>set xs. \<not> P x)"
  by (induction xs) auto

lemma position_None_iff_filter: "position P xs = None \<longleftrightarrow> filter P xs = []"
  by (simp add: position_None filter_empty_conv)

lemma min_by_key_None [simp]: "min_by_key f xs = None \<longleftrightarrow> xs = []"
  by (cases xs) (auto split: option.splits)

lemma min_by_key_Some: "min_by_key f xs = Some y \<Longrightarrow> y \<in> set xs \<and> (\<forall>x\<in>set xs. f y \<le> f x)"
proof (induction xs arbitrary: y)
  case Nil
  then show ?case by simp
next
  case (Cons x xs)
  then show ?case by (auto split: option.splits if_splits intro: order_trans)
qed

lemma min_by_key_mem: "min_by_key f xs = Some y \<Longrightarrow> y \<in> set xs"
  by (simp add: min_by_key_Some)

text \<open>A symmetric relation between all pairs of a list survives sorting.\<close>

lemma sorted_wrt_insort_key_sym:
  assumes sym: "\<And>a b. R a b \<Longrightarrow> R b a"
  shows "sorted_wrt R (insort_key f x xs) \<longleftrightarrow> (\<forall>y\<in>set xs. R x y) \<and> sorted_wrt R xs"
  by (induction xs) (auto simp: set_insort_key intro: sym)

lemma sorted_wrt_sort_key_sym:
  assumes sym: "\<And>a b. R a b \<Longrightarrow> R b a"
  shows "sorted_wrt R (sort_key f xs) \<longleftrightarrow> sorted_wrt R xs"
  by (induction xs) (auto simp: sorted_wrt_insort_key_sym [of R, OF sym])

section \<open>Interface: transition systems and their invariants\<close>

inductive reachable :: "('s \<Rightarrow> bool) \<Rightarrow> ('s \<Rightarrow> 's \<Rightarrow> bool) \<Rightarrow> 's \<Rightarrow> bool"
  for init :: "'s \<Rightarrow> bool" and step :: "'s \<Rightarrow> 's \<Rightarrow> bool" where
  reach_init: "init s \<Longrightarrow> reachable init step s"
| reach_step: "reachable init step s \<Longrightarrow> step s t \<Longrightarrow> reachable init step t"

locale inductive_invariant =
  fixes init :: "'s \<Rightarrow> bool"
    and step :: "'s \<Rightarrow> 's \<Rightarrow> bool"
    and inv :: "'s \<Rightarrow> bool"
  assumes inv_init: "init s \<Longrightarrow> inv s"
    and inv_step: "inv s \<Longrightarrow> step s t \<Longrightarrow> inv t"
begin

lemma reachable_inv: "reachable init step s \<Longrightarrow> inv s"
  by (induction rule: reachable.induct) (auto intro: inv_init inv_step)

lemma steps_inv: "step\<^sup>*\<^sup>* s t \<Longrightarrow> inv s \<Longrightarrow> inv t"
  by (induction rule: rtranclp_induct) (auto intro: inv_step)

end

text \<open>Systems that count something upwards for each index, such as the generation of a slot.\<close>

locale epoch_system = inductive_invariant +
  fixes epoch :: "'a \<Rightarrow> 'i \<Rightarrow> nat"
  assumes epoch_step: "inv s \<Longrightarrow> step s t \<Longrightarrow> epoch s i \<le> epoch t i"
begin

lemma epoch_steps: "step\<^sup>*\<^sup>* s t \<Longrightarrow> inv s \<Longrightarrow> epoch s i \<le> epoch t i"
proof (induction rule: rtranclp_induct)
  case (step y z)
  have "inv y" using step.hyps(1) step.prems by (rule steps_inv)
  then show ?case using step.IH [OF step.prems] epoch_step [OF _ step.hyps(2)] le_trans by blast
qed simp

end

section \<open>Interface: a table of mutually compatible entries\<close>

text \<open>
  The advisory lock tables and the port registry share one contract: an entry is admitted only when
  it clashes with nothing already present, and retiring an entry never adds one. A command is
  either a request, which the table may refuse, or the retirement of what a key owns.
\<close>

datatype ('r, 'k) table_cmd = Admit 'r | Retire 'k

definition compatible_table :: "('e \<Rightarrow> 'e \<Rightarrow> bool) \<Rightarrow> 'e set \<Rightarrow> bool" where
  "compatible_table clash E \<longleftrightarrow> (\<forall>a\<in>E. \<forall>b\<in>E. \<not> clash a b)"

lemma compatible_table_mono:
  "compatible_table clash E \<Longrightarrow> F \<subseteq> E \<Longrightarrow> compatible_table clash F"
  by (auto simp: compatible_table_def)

fun table_run ::
  "('s \<Rightarrow> 'r \<Rightarrow> 's option) \<Rightarrow> ('s \<Rightarrow> 'k \<Rightarrow> 's) \<Rightarrow> 's \<Rightarrow> ('r, 'k) table_cmd list \<Rightarrow> 's" where
  "table_run admit retire s [] = s"
| "table_run admit retire s (Admit r # cs) =
     table_run admit retire (case admit s r of None \<Rightarrow> s | Some s' \<Rightarrow> s') cs"
| "table_run admit retire s (Retire k # cs) = table_run admit retire (retire s k) cs"

locale admission_table =
  fixes entries :: "'s \<Rightarrow> 'e set"
    and clash :: "'e \<Rightarrow> 'e \<Rightarrow> bool"
    and admit :: "'s \<Rightarrow> 'r \<Rightarrow> 's option"
    and retire :: "'s \<Rightarrow> 'k \<Rightarrow> 's"
    and wf :: "'s \<Rightarrow> bool"
  assumes admit_wf: "wf s \<Longrightarrow> admit s r = Some s' \<Longrightarrow> wf s'"
    and retire_wf: "wf s \<Longrightarrow> wf (retire s k)"
    and admit_compatible:
      "wf s \<Longrightarrow> compatible_table clash (entries s) \<Longrightarrow> admit s r = Some s' \<Longrightarrow>
         compatible_table clash (entries s')"
    and retire_subset: "wf s \<Longrightarrow> entries (retire s k) \<subseteq> entries s"
begin

lemma run_compatible:
  "wf s \<Longrightarrow> compatible_table clash (entries s) \<Longrightarrow>
     wf (table_run admit retire s cs) \<and>
     compatible_table clash (entries (table_run admit retire s cs))"
proof (induction cs arbitrary: s)
  case Nil
  then show ?case by simp
next
  case (Cons c cs)
  show ?case
  proof (cases c)
    case (Admit r)
    with Cons show ?thesis by (cases "admit s r") (auto intro: admit_wf admit_compatible)
  next
    case (Retire k)
    have "wf (retire s k)" "compatible_table clash (entries (retire s k))"
      using Cons.prems compatible_table_mono [OF _ retire_subset] by (auto intro: retire_wf)
    with Cons.IH Retire show ?thesis by simp
  qed
qed

end

end
