(* ===== verification/VmArea.thy ===== *)
theory VmArea
  imports Prelude
begin

unbundle bit_operations_syntax

text \<open>
  One virtual memory area: \<open>libs/mm/src/flags.rs\<close> and \<open>libs/mm/src/area.rs\<close>. Addresses,
  lengths and offsets (\<open>usize\<close> and \<open>u64\<close>, both 64 bits wide on the supported targets) are
  natural numbers; every addition of the source is a checked one and keeps its bound here. An
  \<open>Arc\<close> is represented by the identity of its control block, so that \<open>Arc::ptr_eq\<close> is
  equality. The half-open \<open>Range<usize>\<close> of an area is its two fields \<open>va_start\<close> and
  \<open>va_end\<close>; a range argument is a pair.
\<close>

section \<open>Flags\<close>

type_synonym vm_flags = "32 word"
type_synonym range = "nat \<times> nat"
type_synonym arc_id = nat

definition VM_READ :: vm_flags where "VM_READ = push_bit 0 1"
definition VM_WRITE :: vm_flags where "VM_WRITE = push_bit 1 1"
definition VM_EXEC :: vm_flags where "VM_EXEC = push_bit 2 1"
definition PERM_MASK :: vm_flags where "PERM_MASK = VM_READ OR VM_WRITE OR VM_EXEC"
definition GROWS_DOWN :: vm_flags where "GROWS_DOWN = push_bit 10 1"
definition DONTFORK :: vm_flags where "DONTFORK = push_bit 13 1"

definition permissions :: "vm_flags \<Rightarrow> vm_flags" where
  "permissions f = f AND PERM_MASK"

definition with_permissions :: "vm_flags \<Rightarrow> vm_flags \<Rightarrow> vm_flags" where
  "with_permissions f p = (f AND NOT PERM_MASK) OR (p AND PERM_MASK)"

definition flag_has :: "vm_flags \<Rightarrow> vm_flags \<Rightarrow> bool" where
  "flag_has f flag \<longleftrightarrow> f AND flag = flag \<and> flag \<noteq> 0"

definition flag_with :: "vm_flags \<Rightarrow> vm_flags \<Rightarrow> vm_flags" where
  "flag_with f flag = f OR flag"

definition flag_without :: "vm_flags \<Rightarrow> vm_flags \<Rightarrow> vm_flags" where
  "flag_without f flag = f AND NOT flag"

definition contains_all :: "vm_flags \<Rightarrow> vm_flags \<Rightarrow> bool" where
  "contains_all f flags \<longleftrightarrow> flags \<noteq> 0 \<and> f AND flags = flags"

section \<open>Areas and their backing\<close>

record anon_merge_domain =
  dom_id :: nat
  inherited :: bool

definition can_merge :: "anon_merge_domain \<Rightarrow> anon_merge_domain \<Rightarrow> bool" where
  "can_merge a b \<longleftrightarrow> dom_id a = dom_id b \<or> (\<not> inherited a \<and> \<not> inherited b)"

definition same_snapshot_identity :: "anon_merge_domain \<Rightarrow> anon_merge_domain \<Rightarrow> bool" where
  "same_snapshot_identity a b \<longleftrightarrow> dom_id a = dom_id b"

definition mark_inherited :: "anon_merge_domain \<Rightarrow> anon_merge_domain" where
  "mark_inherited d = d\<lparr>inherited := True\<rparr>"

text \<open>
  \<open>AnonMergeDomain::fresh\<close> draws from a global 64-bit counter and skips zero: the counter is an
  argument and the advanced counter is returned with the domain. Only the value zero makes the loop
  take a second turn.
\<close>

definition fresh :: "nat \<Rightarrow> anon_merge_domain \<times> nat" where
  "fresh next = (let nxt = (\<lambda>n. (n + 1) mod 2 ^ 64) in
     if next \<noteq> 0 then (\<lparr>dom_id = next, inherited = False\<rparr>, nxt next)
     else (\<lparr>dom_id = nxt next, inherited = False\<rparr>, nxt (nxt next)))"

datatype vm_backing =
    Anon anon_merge_domain
  | SharedAnon arc_id nat
  | File arc_id nat
  | Direct nat

record vm_area =
  va_start :: nat
  va_end :: nat
  va_flags :: vm_flags
  va_backing :: vm_backing

definition mark_fork_inherited :: "vm_backing \<Rightarrow> vm_backing" where
  "mark_fork_inherited b = (case b of Anon d \<Rightarrow> Anon (mark_inherited d) | _ \<Rightarrow> b)"

definition u64_try_from :: "nat \<Rightarrow> nat option" where
  "u64_try_from n = (if n \<le> U64_MAX then Some n else None)"

fun can_shift :: "vm_backing \<Rightarrow> nat \<Rightarrow> bool" where
  "can_shift (Anon d) shift = True"
| "can_shift (SharedAnon obj offset) shift =
     (Option.bind (u64_try_from shift) (checked_add offset) \<noteq> None)"
| "can_shift (File f offset) shift =
     (Option.bind (u64_try_from shift) (checked_add offset) \<noteq> None)"
| "can_shift (Direct base) shift = (checked_add base shift \<noteq> None)"

fun checked_shift :: "vm_backing \<Rightarrow> nat \<Rightarrow> vm_backing option" where
  "checked_shift (Anon d) shift = Some (Anon d)"
| "checked_shift (SharedAnon obj offset) shift =
     map_option (SharedAnon obj) (Option.bind (u64_try_from shift) (checked_add offset))"
| "checked_shift (File f offset) shift =
     map_option (File f) (Option.bind (u64_try_from shift) (checked_add offset))"
| "checked_shift (Direct base) shift = map_option Direct (checked_add base shift)"

definition area_len :: "vm_area \<Rightarrow> nat option" where
  "area_len a = checked_sub (va_end a) (va_start a)"

definition is_well_formed :: "vm_area \<Rightarrow> bool" where
  "is_well_formed a = (case area_len a of None \<Rightarrow> False
     | Some len \<Rightarrow> len \<noteq> 0 \<and> can_shift (va_backing a) len)"

definition area_contains :: "vm_area \<Rightarrow> nat \<Rightarrow> bool" where
  "area_contains a addr \<longleftrightarrow> va_start a \<le> addr \<and> addr < va_end a"

definition area_overlap :: "vm_area \<Rightarrow> range \<Rightarrow> bool" where
  "area_overlap a r \<longleftrightarrow> va_start a < snd r \<and> fst r < va_end a"

definition split_at :: "vm_area \<Rightarrow> nat \<Rightarrow> (vm_area \<times> vm_area) option" where
  "split_at a addr =
     (if \<not> is_well_formed a \<or> addr \<le> va_start a \<or> va_end a \<le> addr then None
      else case checked_shift (va_backing a) (addr - va_start a) of
          None \<Rightarrow> None
        | Some b \<Rightarrow> Some (a\<lparr>va_end := addr\<rparr>, a\<lparr>va_start := addr, va_backing := b\<rparr>))"

definition clip_to :: "vm_area \<Rightarrow> range \<Rightarrow> vm_area option" where
  "clip_to a clip =
     (if \<not> is_well_formed a then None
      else let s = max (va_start a) (fst clip); e = min (va_end a) (snd clip) in
        if e \<le> s then None
        else case checked_shift (va_backing a) (s - va_start a) of
            None \<Rightarrow> None
          | Some b \<Rightarrow> Some (a\<lparr>va_start := s, va_end := e, va_backing := b\<rparr>))"

section \<open>What an area says about an address\<close>

text \<open>
  The abstract meaning of an area: for each address it covers, the flags and the place the byte
  comes from. A private anonymous byte is zero fill whatever its merge domain.
\<close>

datatype origin = ZeroFill | SharedByte arc_id nat | FileByte arc_id nat | PhysByte nat

fun backing_byte :: "vm_backing \<Rightarrow> nat \<Rightarrow> origin" where
  "backing_byte (Anon d) k = ZeroFill"
| "backing_byte (SharedAnon obj offset) k = SharedByte obj (offset + k)"
| "backing_byte (File f offset) k = FileByte f (offset + k)"
| "backing_byte (Direct base) k = PhysByte (base + k)"

definition area_byte :: "vm_area \<Rightarrow> nat \<Rightarrow> vm_flags \<times> origin" where
  "area_byte a addr = (va_flags a, backing_byte (va_backing a) (addr - va_start a))"

fun backing_fits :: "vm_backing \<Rightarrow> nat \<Rightarrow> bool" where
  "backing_fits (Anon d) k = True"
| "backing_fits (SharedAnon obj offset) k = (offset + k \<le> U64_MAX)"
| "backing_fits (File f offset) k = (offset + k \<le> U64_MAX)"
| "backing_fits (Direct base) k = (base + k \<le> U64_MAX)"

lemma can_shift_fits [vma_simps]: "can_shift b k \<longleftrightarrow> backing_fits b k"
  by (cases b) (auto simp: u64_try_from_def)

lemma checked_shift_None [simp]: "checked_shift b k = None \<longleftrightarrow> \<not> backing_fits b k"
  by (cases b) (auto simp: u64_try_from_def)

lemma checked_shift_byte: "checked_shift b k = Some b' \<Longrightarrow> backing_byte b' j = backing_byte b (k + j)"
  by (cases b) (auto simp: u64_try_from_def split: if_splits)

lemma checked_shift_fits: "checked_shift b k = Some b' \<Longrightarrow> backing_fits b' j \<longleftrightarrow> backing_fits b (k + j)"
  by (cases b) (auto simp: u64_try_from_def add.assoc split: if_splits)

lemma backing_fits_mono: "backing_fits b k \<Longrightarrow> j \<le> k \<Longrightarrow> backing_fits b j"
  by (cases b) auto

lemma is_well_formed_iff [vma_simps]:
  "is_well_formed a \<longleftrightarrow> va_start a < va_end a \<and> backing_fits (va_backing a) (va_end a - va_start a)"
  by (auto simp: is_well_formed_def area_len_def can_shift_fits split: option.splits)

text \<open>The permission bits are replaced and every other bit is kept.\<close>

lemma with_permissions_permissions [simp]: "with_permissions f (permissions p) = with_permissions f p"
  by (simp add: with_permissions_def permissions_def and.assoc)

lemma permissions_with_permissions [simp]: "permissions (with_permissions f p) = permissions p"
  by (simp add: with_permissions_def permissions_def bit_eq_iff bit_simps) blast

lemma with_permissions_same: "permissions f = permissions p \<Longrightarrow> with_permissions f p = f"
  by (simp add: with_permissions_def permissions_def bit_eq_iff bit_simps) blast

subsection \<open>Splitting and clipping keep the meaning\<close>

lemma split_at_Some:
  assumes "is_well_formed a" and "va_start a < addr" and "addr < va_end a"
  obtains b where "split_at a addr = Some (a\<lparr>va_end := addr\<rparr>, a\<lparr>va_start := addr, va_backing := b\<rparr>)"
    and "checked_shift (va_backing a) (addr - va_start a) = Some b"
proof -
  have "backing_fits (va_backing a) (addr - va_start a)"
    using assms by (auto simp: vma_simps elim: backing_fits_mono)
  then obtain b where "checked_shift (va_backing a) (addr - va_start a) = Some b"
    by (meson checked_shift_None not_None_eq)
  then show ?thesis using assms that by (simp add: split_at_def)
qed

lemma shifted_well_formed:
  assumes "is_well_formed a" and "va_start a \<le> s" and "s < e" and "e \<le> va_end a"
    and "checked_shift (va_backing a) (s - va_start a) = Some b"
  shows "is_well_formed (a\<lparr>va_start := s, va_end := e, va_backing := b\<rparr>)"
  using assms checked_shift_fits [OF assms(5), of "e - s"]
  by (auto simp: vma_simps elim: backing_fits_mono)

lemma shifted_byte:
  assumes "checked_shift (va_backing a) (s - va_start a) = Some b" and "va_start a \<le> s" and "s \<le> x"
  shows "area_byte (a\<lparr>va_start := s, va_end := e, va_backing := b\<rparr>) x = area_byte a x"
  using assms checked_shift_byte [OF assms(1), of "x - s"] by (simp add: area_byte_def)

end
