(* ===== verification/VmaSet.thy ===== *)
theory VmaSet
  imports VmArea
begin

text \<open>
  The sorted set of areas of an address space: \<open>libs/mm/src/set.rs\<close>. The vector is a list; the
  interior-mutable lookup cache \<open>last_find\<close> is threaded through explicitly. A panic of
  \<open>expect\<close> is the value \<open>None\<close> of the surrounding option.
\<close>

section \<open>State and operations\<close>

record vma_set =
  areas :: "vm_area list"
  last_find :: "nat option"

definition vma_new :: vma_set where
  "vma_new = \<lparr>areas = [], last_find = None\<rparr>"

definition vma_len :: "vma_set \<Rightarrow> nat" where
  "vma_len s = length (areas s)"

definition vma_is_empty :: "vma_set \<Rightarrow> bool" where
  "vma_is_empty s \<longleftrightarrow> areas s = []"

definition checked_offset_after :: "nat \<Rightarrow> nat \<Rightarrow> nat option" where
  "checked_offset_after offset len = Option.bind (u64_try_from len) (checked_add offset)"

definition can_merge_areas :: "vm_area \<Rightarrow> vm_area \<Rightarrow> bool" where
  "can_merge_areas l r =
     (if \<not> is_well_formed l \<or> \<not> is_well_formed r \<or> va_end l \<noteq> va_start r \<or> va_flags l \<noteq> va_flags r
      then False
      else let left_len = va_end l - va_start l in
        (case (va_backing l, va_backing r) of
           (Anon ld, Anon rd) \<Rightarrow> can_merge ld rd
         | (SharedAnon lo loff, SharedAnon ro roff) \<Rightarrow>
             lo = ro \<and> checked_offset_after loff left_len = Some roff
         | (File lf loff, File rf roff) \<Rightarrow>
             lf = rf \<and> checked_offset_after loff left_len = Some roff
         | (Direct lb, Direct rb) \<Rightarrow> checked_add lb left_len = Some rb
         | _ \<Rightarrow> False))"

definition next_idx :: "vm_area list \<Rightarrow> nat \<Rightarrow> nat option" where
  "next_idx xs pos = (if pos + 1 < length xs then Some (pos + 1) else None)"

text \<open>\<open>None\<close> is the source's \<open>false\<close>: nothing was merged.\<close>

definition try_merge_pair :: "vm_area list \<Rightarrow> nat \<Rightarrow> vm_area list option" where
  "try_merge_pair xs i =
     (if i + 1 < length xs \<and> can_merge_areas (xs ! i) (xs ! (i + 1))
      then Some ((remove_at (i + 1) xs)[i := (xs ! i)\<lparr>va_end := va_end (xs ! (i + 1))\<rparr>])
      else None)"

lemma try_merge_pair_length: "try_merge_pair xs i = Some ys \<Longrightarrow> Suc (length ys) = length xs"
  by (auto simp: try_merge_pair_def remove_at_def split: if_splits)

function merge_right :: "nat \<Rightarrow> vm_area list \<Rightarrow> vm_area list" where
  "merge_right pos xs =
     (case next_idx xs pos of
        None \<Rightarrow> xs
      | Some _ \<Rightarrow> (case try_merge_pair xs pos of None \<Rightarrow> xs | Some ys \<Rightarrow> merge_right pos ys))"
  by pat_completeness auto
termination
  by (relation "measure (\<lambda>(pos, xs). length xs)") (auto dest: try_merge_pair_length)

definition merge_around :: "vm_area list \<Rightarrow> nat \<Rightarrow> vm_area list" where
  "merge_around xs pos =
     (case (if pos > 0 then try_merge_pair xs (pos - 1) else None) of
        Some ys \<Rightarrow> merge_right (pos - 1) ys
      | None \<Rightarrow> merge_right pos xs)"

function merge_from :: "nat \<Rightarrow> vm_area list \<Rightarrow> vm_area list" where
  "merge_from pos xs =
     (case next_idx xs pos of
        None \<Rightarrow> xs
      | Some _ \<Rightarrow> (case try_merge_pair xs pos of
            None \<Rightarrow> merge_from (pos + 1) xs
          | Some ys \<Rightarrow> merge_from pos ys))"
  by pat_completeness auto
termination
  by (relation "measure (\<lambda>(pos, xs). length xs - pos)")
    (auto simp: next_idx_def dest!: try_merge_pair_length split: if_splits)

declare merge_right.simps [simp del] merge_from.simps [simp del]

definition merge_neighbors :: "vma_set \<Rightarrow> vma_set" where
  "merge_neighbors s = s\<lparr>areas := merge_from 0 (areas s)\<rparr>"

definition overlaps_range :: "vm_area list \<Rightarrow> range \<Rightarrow> bool" where
  "overlaps_range xs r =
     (let idx = partition_point (\<lambda>a. va_start a < fst r) xs in
        if idx > 0 \<and> va_end (xs ! (idx - 1)) > fst r then True
        else idx < length xs \<and> va_start (xs ! idx) < snd r)"

definition vma_insert :: "vma_set \<Rightarrow> vm_area \<Rightarrow> errno + vma_set" where
  "vma_insert s area =
     (if \<not> is_well_formed area then Inl EINVAL
      else if overlaps_range (areas s) (va_start area, va_end area) then Inl EEXIST
      else let pos = partition_point (\<lambda>a. va_start a < va_start area) (areas s) in
        Inr (s\<lparr>areas := merge_around (insert_at pos area (areas s)) pos\<rparr>))"

text \<open>The lookup consults and refreshes the cached index.\<close>

definition find_area_index :: "vma_set \<Rightarrow> nat \<Rightarrow> nat option \<times> vma_set" where
  "find_area_index s addr =
     (let nxt = partition_point (\<lambda>a. va_start a \<le> addr) (areas s);
          found = (if nxt \<ge> 1 \<and> addr < va_end (areas s ! (nxt - 1)) then Some (nxt - 1) else None);
          miss = (found, s\<lparr>last_find := found\<rparr>)
      in case last_find s of
           None \<Rightarrow> miss
         | Some idx \<Rightarrow>
             if idx < length (areas s) \<and> area_contains (areas s ! idx) addr then (Some idx, s)
             else miss)"

definition vma_find :: "vma_set \<Rightarrow> nat \<Rightarrow> vm_area option \<times> vma_set" where
  "vma_find s addr =
     (case find_area_index s addr of (idx, s') \<Rightarrow> (map_option (\<lambda>i. areas s ! i) idx, s'))"

text \<open>The guard that \<open>find_mut\<close> hands out only allows its flags to be set.\<close>

definition area_set_flags :: "vm_area \<Rightarrow> vm_flags \<Rightarrow> vm_area" where
  "area_set_flags a f = a\<lparr>va_flags := f\<rparr>"

definition find_mut_set_flags :: "vma_set \<Rightarrow> nat \<Rightarrow> vm_flags \<Rightarrow> bool \<times> vma_set" where
  "find_mut_set_flags s addr f =
     (case find_area_index s addr of
        (None, s') \<Rightarrow> (False, s')
      | (Some idx, s') \<Rightarrow> (True, s'\<lparr>areas := (areas s')[idx := area_set_flags (areas s' ! idx) f]\<rparr>))"

definition grow_down_to :: "vma_set \<Rightarrow> nat \<Rightarrow> nat \<Rightarrow> ((range \<times> vm_flags) \<times> vma_set) option" where
  "grow_down_to s page max_growth =
     (case checked_add page 1 of
        None \<Rightarrow> None
      | Some threshold \<Rightarrow>
          let idx = partition_point (\<lambda>a. va_start a < threshold) (areas s) in
          if length (areas s) \<le> idx then None
          else let area = areas s ! idx; key = va_start area in
            if \<not> is_well_formed area then None
            else if va_start area \<le> page \<or> \<not> flag_has (va_flags area) GROWS_DOWN then None
            else if \<not> (case va_backing area of Anon _ \<Rightarrow> True | _ \<Rightarrow> False) then None
            else if idx > 0 \<and> page < va_end (areas s ! (idx - 1)) then None
            else if page < saturating_sub (va_end area) max_growth then None
            else Some (((page, key), va_flags area),
                       s\<lparr>areas := (areas s)[idx := area\<lparr>va_start := page\<rparr>]\<rparr>))"

definition iter_overlap :: "vm_area list \<Rightarrow> range \<Rightarrow> vm_area list" where
  "iter_overlap xs r =
     filter (\<lambda>v. fst r < snd r \<and> va_start v < va_end v \<and> fst r < va_end v)
       (take (partition_point (\<lambda>a. va_start a < snd r) xs) xs)"

definition is_range_free :: "vma_set \<Rightarrow> range \<Rightarrow> bool" where
  "is_range_free s r \<longleftrightarrow> fst r < snd r \<and> \<not> overlaps_range (areas s) r"

fun contains_loop :: "nat \<Rightarrow> nat \<Rightarrow> vm_area list \<Rightarrow> bool" where
  "contains_loop cursor range_end [] = False"
| "contains_loop cursor range_end (a # as) =
     (if \<not> is_well_formed a then False
      else if cursor < va_start a then False
      else let cursor' = max cursor (va_end a) in
        if range_end \<le> cursor' then True else contains_loop cursor' range_end as)"

definition contains_range :: "vma_set \<Rightarrow> range \<Rightarrow> bool" where
  "contains_range s r =
     (if snd r \<le> fst r then False else contains_loop (fst r) (snd r) (iter_overlap (areas s) r))"

fun gap_loop :: "range \<Rightarrow> nat \<Rightarrow> nat \<Rightarrow> vm_area list \<Rightarrow> range option" where
  "gap_loop search len cursor [] =
     (if cursor \<le> snd search \<and> len \<le> snd search - cursor
      then map_option (\<lambda>e. (cursor, e)) (checked_add cursor len) else None)"
| "gap_loop search len cursor (a # as) =
     (if \<not> is_well_formed a then None
      else if va_end a \<le> fst search then gap_loop search len cursor as
      else let gap_end = min (va_start a) (snd search) in
        if cursor \<le> gap_end \<and> len \<le> gap_end - cursor
        then map_option (\<lambda>e. (cursor, e)) (checked_add cursor len)
        else let cursor' = max cursor (va_end a) in
          if snd search \<le> cursor' then None else gap_loop search len cursor' as)"

definition find_gap :: "vma_set \<Rightarrow> range \<Rightarrow> nat \<Rightarrow> range option" where
  "find_gap s search len =
     (if len = 0 \<or> snd search \<le> fst search then None
      else gap_loop search len (fst search)
             (take (partition_point (\<lambda>a. va_start a < snd search) (areas s)) (areas s)))"

text \<open>
  \<open>aligned & !(alignment - 1)\<close> for a power of two clears the low bits, which is rounding down to a
  multiple.
\<close>

definition align_up :: "nat \<Rightarrow> nat \<Rightarrow> nat option" where
  "align_up alignment v =
     map_option (\<lambda>w. w - w mod alignment) (checked_add v (alignment - 1))"

fun aligned_gap_loop :: "range \<Rightarrow> nat \<Rightarrow> nat \<Rightarrow> nat \<Rightarrow> vm_area list \<Rightarrow> range option" where
  "aligned_gap_loop search len alignment cursor [] =
     (case align_up alignment cursor of
        None \<Rightarrow> None
      | Some aligned \<Rightarrow> (case checked_add aligned len of
            None \<Rightarrow> None
          | Some e \<Rightarrow> if e \<le> snd search then Some (aligned, e) else None))"
| "aligned_gap_loop search len alignment cursor (a # as) =
     (if \<not> is_well_formed a then None
      else if va_end a \<le> fst search then aligned_gap_loop search len alignment cursor as
      else let gap_end = min (va_start a) (snd search);
               cursor' = max cursor (va_end a);
               continue = (if snd search \<le> cursor' then None
                           else aligned_gap_loop search len alignment cursor' as) in
        if cursor < gap_end then
          (case align_up alignment cursor of
             None \<Rightarrow> None
           | Some aligned \<Rightarrow> (case checked_add aligned len of
                 None \<Rightarrow> None
               | Some e \<Rightarrow> if e \<le> gap_end then Some (aligned, e) else continue))
        else continue)"

definition is_power_of_two :: "nat \<Rightarrow> bool" where
  "is_power_of_two n \<longleftrightarrow> n \<in> set (map (\<lambda>k. 2 ^ k) [0..<64])"

definition find_aligned_gap :: "vma_set \<Rightarrow> range \<Rightarrow> nat \<Rightarrow> nat \<Rightarrow> range option" where
  "find_aligned_gap s search len alignment =
     (if len = 0 \<or> snd search \<le> fst search \<or> alignment = 0 \<or> \<not> is_power_of_two alignment then None
      else aligned_gap_loop search len alignment (fst search)
             (take (partition_point (\<lambda>a. va_start a < snd search) (areas s)) (areas s)))"

text \<open>
  One iteration of the loop of \<open>unmap_range\<close>: what is cut off on the left, the removed middle, and
  what is cut off on the right. The outer option is the panic of \<open>expect\<close>.
\<close>

definition unmap_piece :: "range \<Rightarrow> vm_area \<Rightarrow> (vm_area option \<times> vm_area \<times> vm_area option) option" where
  "unmap_piece r area =
     Option.bind
       (if va_start area < fst r
        then map_option (\<lambda>(l, rest). (va_start rest, Some l)) (split_at area (fst r))
        else Some (va_start area, None))
       (\<lambda>(mid_start, carry_left).
          Option.bind (clip_to area (mid_start, va_end area))
            (\<lambda>area_rest.
               if snd r < va_end area_rest
               then map_option (\<lambda>(mid, right). (carry_left, mid, Some right)) (split_at area_rest (snd r))
               else Some (carry_left, area_rest, None)))"

fun opt_list :: "'a option \<Rightarrow> 'a list" where
  "opt_list None = []"
| "opt_list (Some x) = [x]"

fun unmap_loop :: "range \<Rightarrow> vm_area list \<Rightarrow> (vm_area list \<times> vm_area list) option" where
  "unmap_loop r [] = Some ([], [])"
| "unmap_loop r (a # as) =
     (if \<not> is_well_formed a then unmap_loop r as
      else Option.bind (unmap_piece r a)
        (\<lambda>(l, mid, right). map_option
           (\<lambda>(removed, residuals). (mid # removed, opt_list l @ opt_list right @ residuals))
           (unmap_loop r as)))"

definition reinsert :: "vm_area \<Rightarrow> vm_area list \<Rightarrow> vm_area list" where
  "reinsert r xs = insert_at (partition_point (\<lambda>a. va_start a < va_start r) xs) r xs"

definition unmap_range :: "vma_set \<Rightarrow> range \<Rightarrow> (vm_area list \<times> vma_set) option" where
  "unmap_range s r =
     (if snd r \<le> fst r then Some ([], s)
      else let first = partition_point (\<lambda>a. va_end a \<le> fst r) (areas s);
               last' = partition_point (\<lambda>a. va_start a < snd r) (areas s) in
        if last' \<le> first then Some ([], s)
        else let overlapping = take (last' - first) (drop first (areas s));
                 kept = take first (areas s) @ drop last' (areas s) in
          map_option (\<lambda>(removed, residuals). (removed, s\<lparr>areas := fold reinsert residuals kept\<rparr>))
            (unmap_loop r overlapping))"

text \<open>The result of the insertion is discarded by the source (\<open>let _ = self.insert(p)\<close>).\<close>

fun reinsert_pieces :: "(vm_flags \<Rightarrow> vm_flags) \<Rightarrow> vm_area list \<Rightarrow> vma_set \<Rightarrow> (range \<times> vm_flags) list \<times> vma_set" where
  "reinsert_pieces upd [] s = ([], s)"
| "reinsert_pieces upd (p # ps) s =
     (let p' = p\<lparr>va_flags := upd (va_flags p)\<rparr>;
          s' = (case vma_insert s p' of Inl _ \<Rightarrow> s | Inr t \<Rightarrow> t);
          (out, t) = reinsert_pieces upd ps s'
      in (((va_start p', va_end p'), va_flags p') # out, t))"

definition update_flags_range :: "vma_set \<Rightarrow> range \<Rightarrow> (vm_flags \<Rightarrow> vm_flags) \<Rightarrow> ((range \<times> vm_flags) list \<times> vma_set) option" where
  "update_flags_range s r upd =
     map_option (\<lambda>(pieces, t). case reinsert_pieces upd pieces t of (out, u) \<Rightarrow> (out, merge_neighbors u))
       (unmap_range s r)"

definition protect_range :: "vma_set \<Rightarrow> range \<Rightarrow> vm_flags \<Rightarrow> ((range \<times> vm_flags) list \<times> vma_set) option" where
  "protect_range s r new_flags =
     map_option (\<lambda>(pieces, t).
         case reinsert_pieces (\<lambda>f. with_permissions f (permissions new_flags)) pieces t of
           (out, u) \<Rightarrow> (out, merge_neighbors u))
       (unmap_range s r)"

definition protect_area :: "vm_flags \<Rightarrow> vm_area \<Rightarrow> vm_area" where
  "protect_area permissions' a = a\<lparr>va_flags := with_permissions (va_flags a) permissions'\<rparr>"

definition protect_single_area :: "vma_set \<Rightarrow> range \<Rightarrow> vm_flags \<Rightarrow> (bool \<times> vma_set) option" where
  "protect_single_area s r new_flags =
     (if snd r \<le> fst r then None
      else let nxt = partition_point (\<lambda>a. va_start a \<le> fst r) (areas s) in
        if nxt = 0 then None
        else let idx = nxt - 1; area = areas s ! idx; perms = permissions new_flags in
          if \<not> is_well_formed area \<or> fst r < va_start area \<or> va_end area < snd r then None
          else if permissions (va_flags area) = perms then Some (False, s)
          else if fst r = va_start area \<and> snd r = va_end area then
            Some (True, s\<lparr>areas := merge_around ((areas s)[idx := protect_area perms area]) idx\<rparr>)
          else if fst r = va_start area then
            map_option (\<lambda>(p, right).
                (True, s\<lparr>areas := merge_around
                   (insert_at (idx + 1) right ((areas s)[idx := protect_area perms p])) idx\<rparr>))
              (split_at area (snd r))
          else if snd r = va_end area then
            map_option (\<lambda>(l, p).
                (True, s\<lparr>areas := merge_around
                   (insert_at (idx + 1) (protect_area perms p) ((areas s)[idx := l])) (idx + 1)\<rparr>))
              (split_at area (fst r))
          else
            Option.bind (split_at area (fst r)) (\<lambda>(l, remainder).
              map_option (\<lambda>(p, right).
                (True, s\<lparr>areas := merge_around
                   (insert_at (idx + 2) right
                     (insert_at (idx + 1) (protect_area perms p) ((areas s)[idx := l]))) (idx + 1)\<rparr>))
              (split_at remainder (snd r))))"

definition fork_clone_metadata :: "vma_set \<Rightarrow> vma_set \<times> vma_set" where
  "fork_clone_metadata s =
     (let sealed = map (\<lambda>a. a\<lparr>va_backing := mark_fork_inherited (va_backing a)\<rparr>) (areas s) in
        (s\<lparr>areas := sealed\<rparr>,
         \<lparr>areas = filter (\<lambda>a. \<not> flag_has (va_flags a) DONTFORK) sealed, last_find = None\<rparr>))"

definition take_all :: "vma_set \<Rightarrow> vm_area list \<times> vma_set" where
  "take_all s = (areas s, s\<lparr>areas := [], last_find := None\<rparr>)"

section \<open>The invariant and the meaning of the set\<close>

definition areas_inv :: "vm_area list \<Rightarrow> bool" where
  "areas_inv xs \<longleftrightarrow> (\<forall>a\<in>set xs. is_well_formed a) \<and> sorted_wrt (\<lambda>a b. va_end a \<le> va_start b) xs"

fun view :: "vm_area list \<Rightarrow> nat \<Rightarrow> (vm_flags \<times> origin) option" where
  "view [] x = None"
| "view (a # as) x = (if area_contains a x then Some (area_byte a x) else view as x)"

definition in_range :: "range \<Rightarrow> nat \<Rightarrow> bool" where
  "in_range r x \<longleftrightarrow> fst r \<le> x \<and> x < snd r"

lemma areas_inv_Nil [simp]: "areas_inv []"
  by (simp add: areas_inv_def)

lemma areas_inv_Cons:
  "areas_inv (a # as) \<longleftrightarrow> is_well_formed a \<and> areas_inv as \<and> (\<forall>b\<in>set as. va_end a \<le> va_start b)"
  by (auto simp: areas_inv_def)

lemma areas_inv_append:
  "areas_inv (xs @ ys) \<longleftrightarrow> areas_inv xs \<and> areas_inv ys \<and> (\<forall>a\<in>set xs. \<forall>b\<in>set ys. va_end a \<le> va_start b)"
  by (auto simp: areas_inv_def sorted_wrt_append)

lemma areas_inv_set_flags:
  assumes "areas_inv xs"
  shows "areas_inv (xs[i := area_set_flags (xs ! i) f])"
proof (cases "i < length xs")
  case True
  have wf: "is_well_formed (area_set_flags a f) = is_well_formed a" for a
    by (simp add: is_well_formed_def area_set_flags_def area_len_def split: option.splits)
  have "sorted_wrt (\<lambda>a b. va_end a \<le> va_start b) (xs[i := area_set_flags (xs ! i) f])"
    using assms True
    by (auto simp: areas_inv_def sorted_wrt_iff_nth_less nth_list_update area_set_flags_def)
  moreover have "\<forall>a\<in>set (xs[i := area_set_flags (xs ! i) f]). is_well_formed a"
    using assms True wf set_update_subset_insert [of xs i] nth_mem [OF True] by (fastforce simp: areas_inv_def)
  ultimately show ?thesis by (simp add: areas_inv_def)
qed (simp add: assms list_update_beyond)

lemma areas_inv_wf: "areas_inv xs \<Longrightarrow> a \<in> set xs \<Longrightarrow> is_well_formed a"
  by (simp add: areas_inv_def)

lemma areas_inv_pos: "areas_inv xs \<Longrightarrow> a \<in> set xs \<Longrightarrow> va_start a < va_end a"
  by (auto simp: areas_inv_def is_well_formed_iff)

lemma view_append: "view (xs @ ys) x = (case view xs x of None \<Rightarrow> view ys x | Some v \<Rightarrow> Some v)"
  by (induction xs) auto

lemma view_None: "view xs x = None \<longleftrightarrow> (\<forall>a\<in>set xs. \<not> area_contains a x)"
  by (induction xs) auto

lemma view_before: "(\<And>q. q \<in> set xs \<Longrightarrow> k \<le> va_start q) \<Longrightarrow> x < k \<Longrightarrow> view xs x = None"
  by (fastforce simp: view_None area_contains_def)

lemma view_after: "(\<And>q. q \<in> set xs \<Longrightarrow> va_end q \<le> k) \<Longrightarrow> k \<le> x \<Longrightarrow> view xs x = None"
  by (fastforce simp: view_None area_contains_def)

lemma view_SomeD: "view xs x = Some v \<Longrightarrow> \<exists>a\<in>set xs. area_contains a x \<and> v = area_byte a x"
  by (induction xs) (auto split: if_splits)

lemma areas_inv_unique:
  assumes "areas_inv xs" and "a \<in> set xs" and "b \<in> set xs"
    and "area_contains a x" and "area_contains b x"
  shows "a = b"
  using assms
proof (induction xs)
  case (Cons c cs)
  then show ?case by (fastforce simp: areas_inv_Cons area_contains_def)
qed simp

lemma view_member:
  assumes "areas_inv xs" and "a \<in> set xs" and "area_contains a x"
  shows "view xs x = Some (area_byte a x)"
proof (cases "view xs x")
  case None
  with assms show ?thesis by (simp add: view_None)
next
  case (Some v)
  then obtain b where "b \<in> set xs" "area_contains b x" "v = area_byte b x"
    by (blast dest: view_SomeD)
  with Some assms areas_inv_unique [OF assms(1,2)] show ?thesis by auto
qed

lemma view_cong_set: "areas_inv xs \<Longrightarrow> areas_inv ys \<Longrightarrow> set xs = set ys \<Longrightarrow> view xs = view ys"
  by (rule ext) (metis view_None view_SomeD view_member not_None_eq)

lemma sorted_starts:
  assumes "areas_inv xs"
  shows "sorted_wrt (\<lambda>a b. va_start b < k \<longrightarrow> va_start a < k) xs"
    and "sorted_wrt (\<lambda>a b. va_start b \<le> k \<longrightarrow> va_start a \<le> k) xs"
    and "sorted_wrt (\<lambda>a b. va_end b \<le> k \<longrightarrow> va_end a \<le> k) xs"
proof -
  have "sorted_wrt (\<lambda>a b. va_end a \<le> va_start b) xs" using assms by (simp add: areas_inv_def)
  then show "sorted_wrt (\<lambda>a b. va_start b < k \<longrightarrow> va_start a < k) xs"
    and "sorted_wrt (\<lambda>a b. va_start b \<le> k \<longrightarrow> va_start a \<le> k) xs"
    and "sorted_wrt (\<lambda>a b. va_end b \<le> k \<longrightarrow> va_end a \<le> k) xs"
    using areas_inv_pos [OF assms] by (auto elim!: sorted_wrt_mono_rel [rotated] dest!: areas_inv_pos [OF assms])
qed

lemmas start_less_sets = takeWhile_partitioned_set [OF sorted_starts(1)]
lemmas start_le_sets = takeWhile_partitioned_set [OF sorted_starts(2)]
lemmas end_le_sets = takeWhile_partitioned_set [OF sorted_starts(3)]

section \<open>Merging keeps the invariant and the meaning\<close>

definition merged :: "vm_area \<Rightarrow> vm_area \<Rightarrow> vm_area" where
  "merged l r = l\<lparr>va_end := va_end r\<rparr>"

lemma checked_offset_after_Some [simp]:
  "checked_offset_after offset len = Some k \<longleftrightarrow> len \<le> U64_MAX \<and> offset + len \<le> U64_MAX \<and> k = offset + len"
  by (auto simp: checked_offset_after_def u64_try_from_def)

lemma can_merge_areasD:
  assumes "can_merge_areas l r"
  shows "is_well_formed l" "is_well_formed r" "va_end l = va_start r" "va_flags l = va_flags r"
    and "backing_fits (va_backing l) (va_end r - va_start l)"
    and "backing_byte (va_backing r) k = backing_byte (va_backing l) (va_end l - va_start l + k)"
  using assms
  by (auto simp: can_merge_areas_def is_well_formed_iff Let_def split: if_splits vm_backing.splits)

lemma merged_well_formed: "can_merge_areas l r \<Longrightarrow> is_well_formed (merged l r)"
  using can_merge_areasD [of l r] by (auto simp: is_well_formed_iff merged_def)

lemma merged_view: "can_merge_areas l r \<Longrightarrow> view [merged l r] x = view [l, r] x"
  using can_merge_areasD(1-5) [of l r] can_merge_areasD(6) [of l r "x - va_start r"]
  by (auto simp: is_well_formed_iff merged_def area_contains_def area_byte_def)

lemma try_merge_pairE:
  assumes "try_merge_pair xs i = Some ys"
  obtains us l r vs where "xs = us @ l # r # vs" "ys = us @ merged l r # vs" "can_merge_areas l r"
proof -
  from assms have i: "Suc i < length xs" and m: "can_merge_areas (xs ! i) (xs ! Suc i)"
    and ys: "ys = (remove_at (Suc i) xs)[i := merged (xs ! i) (xs ! Suc i)]"
    by (auto simp: try_merge_pair_def merged_def split: if_splits)
  have "xs = take i xs @ xs ! i # xs ! Suc i # drop (Suc (Suc i)) xs"
    using i by (metis Suc_lessD id_take_nth_drop Cons_nth_drop_Suc)
  moreover have "ys = take i xs @ merged (xs ! i) (xs ! Suc i) # drop (Suc (Suc i)) xs"
    using i by (simp add: ys remove_at_def list_update_append take_Suc_conv_app_nth)
  ultimately show ?thesis using m that by blast
qed

lemma merge_step:
  assumes "areas_inv (us @ l # r # vs)" and "can_merge_areas l r"
  shows "areas_inv (us @ merged l r # vs)" and "view (us @ merged l r # vs) = view (us @ l # r # vs)"
proof -
  show "areas_inv (us @ merged l r # vs)"
    using assms merged_well_formed [OF assms(2)] can_merge_areasD(2,3) [OF assms(2)]
    by (auto simp: areas_inv_append areas_inv_Cons) (auto simp: merged_def is_well_formed_iff)
  show "view (us @ merged l r # vs) = view (us @ l # r # vs)"
    using merged_view [OF assms(2)] view_append [of "[merged l r]" vs] view_append [of "[l, r]" vs]
    by (auto simp: view_append fun_eq_iff split: option.splits)
qed

lemma try_merge_pair_keeps:
  "areas_inv xs \<Longrightarrow> try_merge_pair xs i = Some ys \<Longrightarrow> areas_inv ys \<and> view ys = view xs"
  by (erule try_merge_pairE) (auto simp: merge_step)

lemma merge_right_keeps: "areas_inv xs \<Longrightarrow> areas_inv (merge_right pos xs) \<and> view (merge_right pos xs) = view xs"
proof (induction pos xs rule: merge_right.induct)
  case (1 pos xs)
  then show ?case
    using try_merge_pair_keeps [of xs pos]
    by (auto simp: merge_right.simps [of pos xs] split: option.splits)
qed

lemma merge_from_keeps: "areas_inv xs \<Longrightarrow> areas_inv (merge_from pos xs) \<and> view (merge_from pos xs) = view xs"
proof (induction pos xs rule: merge_from.induct)
  case (1 pos xs)
  then show ?case
    using try_merge_pair_keeps [of xs pos]
    by (auto simp: merge_from.simps [of pos xs] split: option.splits)
qed

lemma merge_around_keeps: "areas_inv xs \<Longrightarrow> areas_inv (merge_around xs pos) \<and> view (merge_around xs pos) = view xs"
  using merge_right_keeps try_merge_pair_keeps [of xs "pos - 1"]
  by (auto simp: merge_around_def split: option.splits if_splits)

section \<open>Insertion and lookup\<close>

lemma sorted_ends_last:
  assumes "areas_inv xs" and "a \<in> set xs"
  shows "va_end a \<le> va_end (last xs)"
proof -
  from assms obtain us vs where xs: "xs = us @ a # vs" by (meson split_list)
  show ?thesis
  proof (cases "vs = []")
    case False
    then have m: "last vs \<in> set vs" by simp
    have vs: "areas_inv vs" "\<forall>b\<in>set vs. va_end a \<le> va_start b"
      using assms(1) by (simp_all add: xs areas_inv_append areas_inv_Cons)
    then have "va_end a \<le> va_start (last vs)" "va_start (last vs) < va_end (last vs)"
      using m areas_inv_pos by blast+
    with False show ?thesis by (simp add: xs)
  qed (simp add: xs)
qed

lemma sorted_starts_hd: "areas_inv xs \<Longrightarrow> a \<in> set xs \<Longrightarrow> va_start (hd xs) \<le> va_start a"
  by (cases xs) (auto simp: areas_inv_Cons is_well_formed_iff)

lemma areas_inv_takeWhile: "areas_inv xs \<Longrightarrow> areas_inv (takeWhile P xs) \<and> areas_inv (dropWhile P xs)"
  by (metis areas_inv_append takeWhile_dropWhile_id)

lemma overlaps_range_iff:
  assumes "areas_inv xs" and "fst r < snd r"
  shows "overlaps_range xs r \<longleftrightarrow> (\<exists>a\<in>set xs. area_overlap a r)"
proof -
  let ?P = "\<lambda>a. va_start a < fst r"
  let ?L = "takeWhile ?P xs" and ?R = "dropWhile ?P xs"
  have inv: "areas_inv ?L" "areas_inv ?R" using areas_inv_takeWhile [OF assms(1)] by auto
  have L: "(\<exists>a\<in>set ?L. area_overlap a r) \<longleftrightarrow> ?L \<noteq> [] \<and> fst r < va_end (last ?L)"
  proof
    assume "\<exists>a\<in>set ?L. area_overlap a r"
    then obtain a where "a \<in> set ?L" "fst r < va_end a" by (auto simp: area_overlap_def)
    with sorted_ends_last [OF inv(1)] show "?L \<noteq> [] \<and> fst r < va_end (last ?L)" by fastforce
  next
    assume l: "?L \<noteq> [] \<and> fst r < va_end (last ?L)"
    then have "va_start (last ?L) < fst r" using takeWhile_satisfies [of "last ?L" ?P xs] by simp
    with l assms(2) have "last ?L \<in> set ?L \<and> area_overlap (last ?L) r" by (simp add: area_overlap_def)
    then show "\<exists>a\<in>set ?L. area_overlap a r" by blast
  qed
  have R: "(\<exists>a\<in>set ?R. area_overlap a r) \<longleftrightarrow> ?R \<noteq> [] \<and> va_start (hd ?R) < snd r"
  proof
    assume "\<exists>a\<in>set ?R. area_overlap a r"
    then obtain a where "a \<in> set ?R" "va_start a < snd r" by (auto simp: area_overlap_def)
    with sorted_starts_hd [OF inv(2)] show "?R \<noteq> [] \<and> va_start (hd ?R) < snd r" by fastforce
  next
    assume h: "?R \<noteq> [] \<and> va_start (hd ?R) < snd r"
    then have m: "hd ?R \<in> set ?R" by simp
    have "\<not> va_start (hd ?R) < fst r" using m start_less_sets(2) [OF assms(1), of "fst r"] by blast
    moreover have "va_start (hd ?R) < va_end (hd ?R)" using areas_inv_pos [OF inv(2) m] .
    ultimately have "area_overlap (hd ?R) r" using h by (simp add: area_overlap_def)
    with m show "\<exists>a\<in>set ?R. area_overlap a r" by blast
  qed
  let ?n = "partition_point ?P xs"
  have "overlaps_range xs r \<longleftrightarrow>
      (0 < ?n \<and> fst r < va_end (xs ! (?n - 1))) \<or> (?n < length xs \<and> va_start (xs ! ?n) < snd r)"
    by (simp add: overlaps_range_def Let_def)
  moreover have "0 < ?n \<and> fst r < va_end (xs ! (?n - 1)) \<longleftrightarrow> ?L \<noteq> [] \<and> fst r < va_end (last ?L)"
    by (metis partition_point_pos nth_partition_point_pred)
  moreover have "?n < length xs \<and> va_start (xs ! ?n) < snd r \<longleftrightarrow> ?R \<noteq> [] \<and> va_start (hd ?R) < snd r"
    by (metis partition_point_less nth_partition_point)
  ultimately have "overlaps_range xs r \<longleftrightarrow> (\<exists>a\<in>set ?L. area_overlap a r) \<or> (\<exists>a\<in>set ?R. area_overlap a r)"
    using L R by simp
  then show ?thesis
    using set_takeWhile_dropWhile [of ?P xs] by blast
qed

lemma reinsert_keeps:
  assumes "areas_inv xs" and "is_well_formed a"
    and "\<And>b. b \<in> set xs \<Longrightarrow> va_end b \<le> va_start a \<or> va_end a \<le> va_start b"
  shows "areas_inv (reinsert a xs)" and "set (reinsert a xs) = insert a (set xs)"
    and "view (reinsert a xs) x = (if area_contains a x then Some (area_byte a x) else view xs x)"
proof -
  let ?P = "\<lambda>b. va_start b < va_start a"
  have eq: "reinsert a xs = takeWhile ?P xs @ a # dropWhile ?P xs"
    by (simp add: reinsert_def insert_at_partition_point)
  have a: "va_start a < va_end a" using assms(2) by (simp add: is_well_formed_iff)
  have xs: "areas_inv (takeWhile ?P xs)" "areas_inv (dropWhile ?P xs)"
    "\<forall>b\<in>set (takeWhile ?P xs). \<forall>c\<in>set (dropWhile ?P xs). va_end b \<le> va_start c"
    using assms(1) areas_inv_append [of "takeWhile ?P xs" "dropWhile ?P xs"] by auto
  have L: "va_end b \<le> va_start a" if "b \<in> set (takeWhile ?P xs)" for b
  proof -
    have "b \<in> set xs" "va_start b < va_start a" using set_takeWhileD [OF that] by auto
    with assms(3) [of b] a show ?thesis by linarith
  qed
  have R: "va_end a \<le> va_start b" if "b \<in> set (dropWhile ?P xs)" for b
  proof -
    have "b \<in> set xs" "\<not> va_start b < va_start a"
      using that start_less_sets(2) [OF assms(1), of "va_start a"] by blast+
    with assms(3) [of b] areas_inv_pos [OF assms(1), of b] show ?thesis by linarith
  qed
  show inv: "areas_inv (reinsert a xs)"
    using xs assms(2) L R by (auto simp: eq areas_inv_append areas_inv_Cons)
  show "set (reinsert a xs) = insert a (set xs)"
    using set_takeWhile_dropWhile [of ?P xs] by (auto simp: eq)
  have "view xs x = (case view (takeWhile ?P xs) x of None \<Rightarrow> view (dropWhile ?P xs) x | Some v \<Rightarrow> Some v)"
    using view_append [of "takeWhile ?P xs" "dropWhile ?P xs"] by simp
  moreover have "view (takeWhile ?P xs) x = None" if "area_contains a x"
    using that L by (fastforce simp: view_None area_contains_def)
  ultimately show "view (reinsert a xs) x = (if area_contains a x then Some (area_byte a x) else view xs x)"
    by (auto simp: eq view_append split: option.splits)
qed

lemma vma_insert_outcome:
  assumes "areas_inv (areas s)"
  shows "vma_insert s a =
     (if \<not> is_well_formed a then Inl EINVAL
      else if \<exists>b\<in>set (areas s). area_overlap b (va_start a, va_end a) then Inl EEXIST
      else Inr (s\<lparr>areas := merge_around (reinsert a (areas s))
                   (partition_point (\<lambda>b. va_start b < va_start a) (areas s))\<rparr>))"
  using overlaps_range_iff [OF assms, of "(va_start a, va_end a)"]
  by (auto simp: vma_insert_def reinsert_def is_well_formed_iff Let_def)

lemma no_overlap_disjoint:
  "is_well_formed a \<Longrightarrow> \<not> area_overlap b (va_start a, va_end a) \<longleftrightarrow> va_end b \<le> va_start a \<or> va_end a \<le> va_start b"
  by (auto simp: area_overlap_def)

lemma vma_insert_keeps:
  assumes "areas_inv (areas s)" and "vma_insert s a = Inr t"
  shows "areas_inv (areas t)"
    and "view (areas t) x = (if area_contains a x then Some (area_byte a x) else view (areas s) x)"
proof -
  have wf: "is_well_formed a" and no: "\<And>b. b \<in> set (areas s) \<Longrightarrow> va_end b \<le> va_start a \<or> va_end a \<le> va_start b"
    and t: "t = s\<lparr>areas := merge_around (reinsert a (areas s))
                   (partition_point (\<lambda>b. va_start b < va_start a) (areas s))\<rparr>"
    using assms(2) by (auto simp: vma_insert_outcome [OF assms(1)] no_overlap_disjoint split: if_splits)
  note r = reinsert_keeps [OF assms(1) wf no]
  show "areas_inv (areas t)"
    and "view (areas t) x = (if area_contains a x then Some (area_byte a x) else view (areas s) x)"
    using merge_around_keeps [OF r(1)] r(3) by (simp_all add: t)
qed

lemma vma_insert_succeeds:
  assumes "areas_inv (areas s)" and "is_well_formed a"
    and "\<And>x. area_contains a x \<Longrightarrow> view (areas s) x = None"
  shows "\<exists>t. vma_insert s a = Inr t"
proof -
  have False if b: "b \<in> set (areas s)" and o: "area_overlap b (va_start a, va_end a)" for b
  proof -
    let ?x = "max (va_start a) (va_start b)"
    have "area_contains a ?x" "area_contains b ?x"
      using o assms(2) areas_inv_pos [OF assms(1) b] by (auto simp: area_overlap_def area_contains_def is_well_formed_iff)
    with assms(3) view_member [OF assms(1) b] show False by force
  qed
  then show ?thesis using assms(2) by (auto simp: vma_insert_outcome [OF assms(1)])
qed

subsection \<open>Lookup\<close>

lemma find_index_correct:
  assumes "areas_inv (areas s)"
  shows "fst (find_area_index s addr) = Some i \<longleftrightarrow> i < length (areas s) \<and> area_contains (areas s ! i) addr"
proof -
  let ?P = "\<lambda>a. va_start a \<le> addr"
  let ?n = "partition_point ?P (areas s)"
  let ?f = "if ?n \<ge> 1 \<and> addr < va_end (areas s ! (?n - 1)) then Some (?n - 1) else None"
  have uniq: "j = i" if "i < length (areas s)" "j < length (areas s)"
    "area_contains (areas s ! i) addr" "area_contains (areas s ! j) addr" for i j
  proof (rule ccontr)
    assume "j \<noteq> i"
    then consider "i < j" | "j < i" by linarith
    then show False
      using that assms sorted_wrt_nth_less [of "\<lambda>a b. va_end a \<le> va_start b" "areas s"]
      by cases (fastforce simp: areas_inv_def area_contains_def)+
  qed
  have hit: "i < length (areas s) \<and> area_contains (areas s ! i) addr" if "?f = Some i" for i
  proof -
    have n: "?n \<ge> 1" and i: "i = ?n - 1" and e: "addr < va_end (areas s ! i)"
      using that by (auto split: if_splits)
    have "areas s ! i \<in> set (takeWhile ?P (areas s))"
      using n nth_partition_point_pred [of ?P "areas s"] last_in_set [of "takeWhile ?P (areas s)"]
        partition_point_pos [of ?P "areas s"] by (simp add: i)
    then have "va_start (areas s ! i) \<le> addr" by (rule takeWhile_satisfies)
    moreover have "i < length (areas s)" using n partition_point_le [of ?P "areas s"] i by linarith
    ultimately show ?thesis using e by (simp add: area_contains_def)
  qed
  have found: "?f \<noteq> None" if "i < length (areas s)" "area_contains (areas s ! i) addr" for i
  proof -
    have mem: "areas s ! i \<in> set (takeWhile ?P (areas s))"
      using that start_le_sets(1) [OF assms] by (auto simp: area_contains_def)
    then have "takeWhile ?P (areas s) \<noteq> []" by auto
    moreover have "va_end (areas s ! i) \<le> va_end (last (takeWhile ?P (areas s)))"
      using sorted_ends_last areas_inv_takeWhile [OF assms] mem by blast
    ultimately show ?thesis
      using nth_partition_point_pred [of ?P "areas s"] that(2) partition_point_pos [of ?P "areas s"]
      by (auto simp: area_contains_def)
  qed
  have miss: "?f = Some i \<longleftrightarrow> i < length (areas s) \<and> area_contains (areas s ! i) addr"
  proof
    assume i: "i < length (areas s) \<and> area_contains (areas s ! i) addr"
    then obtain j where j: "?f = Some j" using found by blast
    with hit uniq i have "j = i" by blast
    with j show "?f = Some i" by simp
  qed (rule hit)
  show ?thesis
  proof (cases "\<exists>c. last_find s = Some c \<and> c < length (areas s) \<and> area_contains (areas s ! c) addr")
    case True
    then obtain c where c: "last_find s = Some c" "c < length (areas s)" "area_contains (areas s ! c) addr"
      by blast
    then have "fst (find_area_index s addr) = Some c" by (simp add: find_area_index_def)
    with c uniq show ?thesis by auto
  next
    case False
    then have "fst (find_area_index s addr) = ?f"
      by (cases "last_find s") (auto simp: find_area_index_def Let_def)
    with miss show ?thesis by simp
  qed
qed

lemma find_index_frame: "areas (snd (find_area_index s addr)) = areas s"
  by (auto simp: find_area_index_def Let_def split: option.splits)

lemma vma_find_Some:
  assumes "areas_inv (areas s)"
  shows "fst (vma_find s addr) = Some a \<longleftrightarrow> a \<in> set (areas s) \<and> area_contains a addr"
proof -
  have "fst (vma_find s addr) = Some a \<longleftrightarrow>
      (\<exists>i. fst (find_area_index s addr) = Some i \<and> areas s ! i = a)"
    by (auto simp: vma_find_def split: prod.splits)
  then show ?thesis using find_index_correct [OF assms] by (auto simp: in_set_conv_nth)
qed

end
