(* ===== verification/VmaRange.thy ===== *)
theory VmaRange
  imports VmaSet
begin

text \<open>
  The range operations of \<open>libs/mm/src/set.rs\<close>: unmapping, protection, growth, gap search and
  fork, proved to act pointwise on the meaning of the set.
\<close>

section \<open>Pieces of an area\<close>

definition piece_of :: "vm_area \<Rightarrow> nat \<Rightarrow> nat \<Rightarrow> vm_area \<Rightarrow> bool" where
  "piece_of a s e p \<longleftrightarrow> is_well_formed p \<and> va_start p = s \<and> va_end p = e \<and>
     (\<forall>x. s \<le> x \<and> x < e \<longrightarrow> area_byte p x = area_byte a x)"

lemma piece_of_trans:
  "piece_of a s e p \<Longrightarrow> piece_of p s' e' q \<Longrightarrow> s \<le> s' \<Longrightarrow> e' \<le> e \<Longrightarrow> piece_of a s' e' q"
  by (auto simp: piece_of_def)

lemma split_at_piece:
  assumes "is_well_formed a" and "va_start a < k" and "k < va_end a"
  shows "\<exists>l r. split_at a k = Some (l, r) \<and> piece_of a (va_start a) k l \<and> piece_of a k (va_end a) r \<and>
     va_flags l = va_flags a \<and> va_flags r = va_flags a"
proof -
  obtain b where b: "split_at a k = Some (a\<lparr>va_end := k\<rparr>, a\<lparr>va_start := k, va_backing := b\<rparr>)"
      "checked_shift (va_backing a) (k - va_start a) = Some b"
    using split_at_Some assms by blast
  have "piece_of a (va_start a) k (a\<lparr>va_end := k\<rparr>)"
    using assms by (auto simp: piece_of_def is_well_formed_iff area_byte_def elim: backing_fits_mono)
  moreover have "piece_of a k (va_end a) (a\<lparr>va_start := k, va_backing := b\<rparr>)"
    using assms b(2) shifted_well_formed [of a k "va_end a" b] shifted_byte [of a k b _ "va_end a"]
    by (auto simp: piece_of_def)
  ultimately show ?thesis using b(1) by auto
qed

lemma clip_to_piece:
  assumes "is_well_formed a" and "max (va_start a) s < min (va_end a) e"
  shows "\<exists>p. clip_to a (s, e) = Some p \<and> piece_of a (max (va_start a) s) (min (va_end a) e) p"
proof -
  let ?s = "max (va_start a) s" and ?e = "min (va_end a) e"
  have "backing_fits (va_backing a) (?s - va_start a)"
    using assms by (auto simp: is_well_formed_iff elim: backing_fits_mono)
  then obtain b where b: "checked_shift (va_backing a) (?s - va_start a) = Some b"
    by (meson checked_shift_None not_None_eq)
  then have "clip_to a (s, e) = Some (a\<lparr>va_start := ?s, va_end := ?e, va_backing := b\<rparr>)"
    using assms by (simp add: clip_to_def Let_def) linarith
  moreover have "piece_of a ?s ?e (a\<lparr>va_start := ?s, va_end := ?e, va_backing := b\<rparr>)"
    using assms b shifted_well_formed [OF assms(1) _ assms(2) _ b] shifted_byte [OF b]
    by (auto simp: piece_of_def)
  ultimately show ?thesis by blast
qed

lemma piece_of_refl: "is_well_formed a \<Longrightarrow> piece_of a (va_start a) (va_end a) a"
  by (simp add: piece_of_def)

text \<open>What one iteration of the unmap loop leaves on each side of the range.\<close>

definition side_piece :: "vm_area \<Rightarrow> nat \<Rightarrow> nat \<Rightarrow> vm_area option \<Rightarrow> bool" where
  "side_piece a s e p \<longleftrightarrow> (case p of None \<Rightarrow> e \<le> s | Some q \<Rightarrow> s < e \<and> piece_of a s e q)"

lemma unmap_piece_spec:
  assumes wf: "is_well_formed a" and ov: "area_overlap a r" and r: "fst r < snd r"
  shows "\<exists>l mid rt. unmap_piece r a = Some (l, mid, rt) \<and>
     side_piece a (va_start a) (fst r) l \<and>
     piece_of a (max (va_start a) (fst r)) (min (va_end a) (snd r)) mid \<and>
     side_piece a (snd r) (va_end a) rt"
proof -
  let ?s = "max (va_start a) (fst r)"
  have pos: "va_start a < va_end a" using wf by (simp add: is_well_formed_iff)
  have bounds: "?s < va_end a" "?s < snd r" using ov pos r by (auto simp: area_overlap_def)
  obtain l where l: "side_piece a (va_start a) (fst r) l" and
    first: "(if va_start a < fst r
        then map_option (\<lambda>(l, rest). (va_start rest, Some l)) (split_at a (fst r))
        else Some (va_start a, None)) = Some (?s, l)"
  proof (cases "va_start a < fst r")
    case True
    then obtain p q where "split_at a (fst r) = Some (p, q)" "piece_of a (va_start a) (fst r) p"
        "piece_of a (fst r) (va_end a) q"
      using split_at_piece [OF wf True] bounds by auto
    with True show ?thesis by (intro that [of "Some p"]) (auto simp: side_piece_def piece_of_def)
  next
    case False
    then show ?thesis by (intro that [of None]) (auto simp: side_piece_def)
  qed
  obtain rest where rest: "clip_to a (?s, va_end a) = Some rest" "piece_of a ?s (va_end a) rest"
    using clip_to_piece [OF wf, of ?s "va_end a"] bounds by auto
  show ?thesis
  proof (cases "snd r < va_end a")
    case True
    then obtain p q where "split_at rest (snd r) = Some (p, q)" "piece_of rest ?s (snd r) p"
        "piece_of rest (snd r) (va_end a) q"
      using split_at_piece [of rest "snd r"] rest(2) bounds by (auto simp: piece_of_def)
    moreover have "piece_of a ?s (snd r) p" "piece_of a (snd r) (va_end a) q"
      using calculation piece_of_trans [OF rest(2)] True bounds by auto
    moreover have "va_end rest = va_end a" using rest(2) by (simp add: piece_of_def)
    ultimately show ?thesis
      using True l rest(1) first by (auto simp: unmap_piece_def side_piece_def)
  next
    case False
    moreover have "va_end rest = va_end a" using rest(2) by (simp add: piece_of_def)
    ultimately show ?thesis
      using l rest first by (auto simp: unmap_piece_def side_piece_def)
  qed
qed

section \<open>Unmapping a range\<close>

definition within :: "vm_area \<Rightarrow> vm_area \<Rightarrow> bool" where
  "within p a \<longleftrightarrow> va_start a \<le> va_start p \<and> va_end p \<le> va_end a"

lemma piece_view:
  "piece_of a s e p \<Longrightarrow> area_contains p x \<longleftrightarrow> s \<le> x \<and> x < e"
  "piece_of a s e p \<Longrightarrow> s \<le> x \<Longrightarrow> x < e \<Longrightarrow> area_byte p x = area_byte a x"
  by (auto simp: piece_of_def area_contains_def)

lemma side_piece_view:
  "side_piece a s e p \<Longrightarrow> view (opt_list p) x = (if s \<le> x \<and> x < e then Some (area_byte a x) else None)"
  by (auto simp: side_piece_def piece_view split: option.splits)

lemma side_piece_mem: "side_piece a s e p \<Longrightarrow> q \<in> set (opt_list p) \<Longrightarrow> is_well_formed q \<and> va_start q = s \<and> va_end q = e"
  by (auto simp: side_piece_def piece_of_def split: option.splits)

lemma areas_inv_opt_list: "side_piece a s e p \<Longrightarrow> areas_inv (opt_list p)"
  by (cases p) (auto simp: side_piece_def piece_of_def areas_inv_def)

lemma unmap_loop_spec:
  assumes "areas_inv ms" and "\<forall>a\<in>set ms. area_overlap a r" and "fst r < snd r"
  shows "\<exists>removed residuals. unmap_loop r ms = Some (removed, residuals) \<and>
     areas_inv removed \<and> areas_inv residuals \<and>
     (\<forall>p\<in>set removed \<union> set residuals. \<exists>a\<in>set ms. within p a) \<and>
     (\<forall>p\<in>set removed. fst r \<le> va_start p \<and> va_end p \<le> snd r) \<and>
     (\<forall>x. view removed x = (if in_range r x then view ms x else None)) \<and>
     (\<forall>x. view residuals x = (if in_range r x then None else view ms x))"
  using assms
proof (induction ms)
  case Nil
  then show ?case by simp
next
  case (Cons a ms)
  have wf: "is_well_formed a" and inv: "areas_inv ms" and later: "\<forall>b\<in>set ms. va_end a \<le> va_start b"
    using Cons.prems(1) by (auto simp: areas_inv_Cons)
  have pos: "va_start a < va_end a" using wf by (simp add: is_well_formed_iff)
  have ov: "area_overlap a r" using Cons.prems(2) by simp
  obtain removed residuals where IH: "unmap_loop r ms = Some (removed, residuals)"
      "areas_inv removed" "areas_inv residuals"
      "\<forall>p\<in>set removed \<union> set residuals. \<exists>a\<in>set ms. within p a"
      "\<forall>p\<in>set removed. fst r \<le> va_start p \<and> va_end p \<le> snd r"
      "\<forall>x. view removed x = (if in_range r x then view ms x else None)"
      "\<forall>x. view residuals x = (if in_range r x then None else view ms x)"
    using Cons.IH [OF inv] Cons.prems(2,3) by auto
  obtain l mid rt where P: "unmap_piece r a = Some (l, mid, rt)"
      "side_piece a (va_start a) (fst r) l"
      "piece_of a (max (va_start a) (fst r)) (min (va_end a) (snd r)) mid"
      "side_piece a (snd r) (va_end a) rt"
    using unmap_piece_spec [OF wf ov Cons.prems(3)] by blast
  let ?rs = "opt_list l @ opt_list rt @ residuals"
  note parts = side_piece_mem [OF P(2)] side_piece_mem [OF P(4)]
  have mid: "is_well_formed mid" "va_start mid = max (va_start a) (fst r)" "va_end mid = min (va_end a) (snd r)"
    using P(3) by (auto simp: piece_of_def)
  have after: "va_end a \<le> va_start p" if "p \<in> set removed \<union> set residuals" for p
    using that IH(4) later by (meson within_def order_trans)
  have "unmap_loop r (a # ms) = Some (mid # removed, ?rs)" using wf P(1) IH(1) by simp
  moreover have "areas_inv (mid # removed)"
    using IH(2) mid after by (auto simp: areas_inv_Cons min.coboundedI1)
  moreover have "areas_inv ?rs"
    using areas_inv_opt_list [OF P(2)] areas_inv_opt_list [OF P(4)] IH(3) parts after ov Cons.prems(3)
    by (auto simp: areas_inv_append area_overlap_def) (metis Un_iff le_less_trans less_imp_le order_trans)
  moreover have "\<forall>p\<in>set (mid # removed) \<union> set ?rs. \<exists>b\<in>set (a # ms). within p b"
    using IH(4) parts mid ov Cons.prems(3) by (auto simp: within_def area_overlap_def)
  moreover have "\<forall>p\<in>set (mid # removed). fst r \<le> va_start p \<and> va_end p \<le> snd r"
    using IH(5) mid by auto
  moreover have "\<forall>x. view (mid # removed) x = (if in_range r x then view (a # ms) x else None)"
    using IH(6) piece_view [OF P(3)] by (auto simp: in_range_def area_contains_def)
  moreover have "\<forall>x. view ?rs x = (if in_range r x then None else view (a # ms) x)"
    using IH(7) side_piece_view [OF P(2)] side_piece_view [OF P(4)] later view_None [of ms] ov
    by (auto simp: view_append in_range_def area_contains_def area_overlap_def split: option.splits)
  ultimately show ?case by blast
qed

lemma fold_reinsert_keeps:
  assumes "areas_inv kept" and "areas_inv rs"
    and "\<And>p b. p \<in> set rs \<Longrightarrow> b \<in> set kept \<Longrightarrow> va_end b \<le> va_start p \<or> va_end p \<le> va_start b"
  shows "areas_inv (fold reinsert rs kept) \<and>
     (\<forall>x. view (fold reinsert rs kept) x = (case view rs x of None \<Rightarrow> view kept x | Some v \<Rightarrow> Some v))"
  using assms
proof (induction rs arbitrary: kept)
  case Nil
  then show ?case by simp
next
  case (Cons p rs)
  have wf: "is_well_formed p" and rs: "areas_inv rs" and later: "\<forall>q\<in>set rs. va_end p \<le> va_start q"
    using Cons.prems(2) by (auto simp: areas_inv_Cons)
  note step = reinsert_keeps [OF Cons.prems(1) wf Cons.prems(3) [OF list.set_intros(1)]]
  have "areas_inv (fold reinsert rs (reinsert p kept)) \<and>
      (\<forall>x. view (fold reinsert rs (reinsert p kept)) x =
         (case view rs x of None \<Rightarrow> view (reinsert p kept) x | Some v \<Rightarrow> Some v))"
    using Cons.prems(3) later by (intro Cons.IH step(1) rs) (auto simp: step(2))
  moreover have "view rs x = None" if "area_contains p x" for x
    using that later by (fastforce simp: view_None area_contains_def)
  ultimately show ?case using step(3) by (auto split: option.splits)
qed

lemma split_around_range:
  fixes xs :: "vm_area list" and r :: range
  defines "first \<equiv> partition_point (\<lambda>a. va_end a \<le> fst r) xs"
    and "last' \<equiv> partition_point (\<lambda>a. va_start a < snd r) xs"
  assumes inv: "areas_inv xs" and r: "fst r < snd r" and fl: "first < last'"
  shows "xs = take first xs @ take (last' - first) (drop first xs) @ drop last' xs"
    and "\<forall>a\<in>set (take (last' - first) (drop first xs)). area_overlap a r"
    and "\<forall>a\<in>set (take first xs). va_end a \<le> fst r"
    and "\<forall>a\<in>set (drop last' xs). snd r \<le> va_start a"
proof -
  have "take last' xs = take first xs @ take (last' - first) (drop first xs)"
    using take_add [of first "last' - first" xs] fl by simp
  then show "xs = take first xs @ take (last' - first) (drop first xs) @ drop last' xs"
    using append_take_drop_id [of last' xs] by simp
  have sets: "a \<in> set (drop first xs) \<and> a \<in> set (take last' xs)"
    if a: "a \<in> set (take (last' - first) (drop first xs))" for a
  proof -
    have "a \<in> set (drop first (take last' xs))" using a by (simp add: drop_take)
    then have "a \<in> set (take last' xs)" by (rule in_set_dropD)
    with in_set_takeD [OF a] show ?thesis by blast
  qed
  have "\<not> va_end a \<le> fst r" if "a \<in> set (drop first xs)" for a
    using that end_le_sets(2) [OF inv, of "fst r"] unfolding first_def drop_partition_point by blast
  moreover have "va_start a < snd r" if "a \<in> set (take last' xs)" for a
    using that start_less_sets(1) [OF inv, of "snd r"] unfolding last'_def take_partition_point by blast
  ultimately show "\<forall>a\<in>set (take (last' - first) (drop first xs)). area_overlap a r"
    using sets unfolding area_overlap_def by (meson not_le)
  show "\<forall>a\<in>set (take first xs). va_end a \<le> fst r"
    using takeWhile_satisfies [of _ "\<lambda>a. va_end a \<le> fst r" xs] by (auto simp: first_def)
  show "\<forall>a\<in>set (drop last' xs). snd r \<le> va_start a"
    using start_less_sets(2) [OF inv, of "snd r"] by (auto simp: last'_def not_less)
qed

lemma nothing_overlaps:
  assumes inv: "areas_inv xs" and r: "fst r < snd r"
    and fl: "partition_point (\<lambda>a. va_start a < snd r) xs \<le> partition_point (\<lambda>a. va_end a \<le> fst r) xs"
    and x: "in_range r x"
  shows "view xs x = None"
proof -
  have "\<not> area_contains a x" if a: "a \<in> set xs" for a
  proof
    assume c: "area_contains a x"
    then have "a \<in> set (takeWhile (\<lambda>a. va_start a < snd r) xs)"
      using a x start_less_sets(1) [OF inv, of "snd r"] by (auto simp: area_contains_def in_range_def)
    then have "a \<in> set (takeWhile (\<lambda>a. va_end a \<le> fst r) xs)"
      using fl by (metis set_take_subset_set_take subsetD take_partition_point)
    then have "va_end a \<le> fst r" by (rule takeWhile_satisfies)
    with c x show False by (simp add: area_contains_def in_range_def)
  qed
  then show ?thesis by (simp add: view_None)
qed

lemma unmap_parts:
  assumes inv: "areas_inv (A @ M @ B)" and r: "fst r < snd r" and ov: "\<forall>a\<in>set M. area_overlap a r"
    and A: "\<forall>a\<in>set A. va_end a \<le> fst r" and B: "\<forall>a\<in>set B. snd r \<le> va_start a"
  shows "\<exists>removed rs. unmap_loop r M = Some (removed, rs) \<and>
     areas_inv removed \<and> areas_inv (fold reinsert rs (A @ B)) \<and>
     (\<forall>p\<in>set removed. fst r \<le> va_start p \<and> va_end p \<le> snd r) \<and>
     (\<forall>x. view removed x = (if in_range r x then view (A @ M @ B) x else None)) \<and>
     (\<forall>x. view (fold reinsert rs (A @ B)) x = (if in_range r x then None else view (A @ M @ B) x))"
proof -
  have M: "areas_inv M" and kept: "areas_inv (A @ B)" using inv by (auto simp: areas_inv_append)
  obtain removed rs where U: "unmap_loop r M = Some (removed, rs)" "areas_inv removed" "areas_inv rs"
      "\<forall>p\<in>set removed \<union> set rs. \<exists>a\<in>set M. within p a"
      "\<forall>p\<in>set removed. fst r \<le> va_start p \<and> va_end p \<le> snd r"
      "\<forall>x. view removed x = (if in_range r x then view M x else None)"
      "\<forall>x. view rs x = (if in_range r x then None else view M x)"
    using unmap_loop_spec [OF M ov r] by blast
  have disj: "va_end b \<le> va_start p \<or> va_end p \<le> va_start b" if p: "p \<in> set rs" and b: "b \<in> set (A @ B)" for p b
  proof -
    obtain a where a: "a \<in> set M" "va_start a \<le> va_start p" "va_end p \<le> va_end a"
      using p U(4) by (auto simp: within_def)
    have "va_end b \<le> va_start a \<or> va_end a \<le> va_start b"
      using b inv a(1) by (auto simp: areas_inv_append)
    with a show ?thesis by linarith
  qed
  note F = fold_reinsert_keeps [OF kept U(3) disj]
  have AB: "view A x = None" "view B x = None" if "in_range r x" for x
    using that A B by (auto simp: view_None in_range_def area_contains_def)
  have AM: "view A x = None" if "view M x \<noteq> None" for x
  proof -
    obtain a where a: "a \<in> set M" "area_contains a x" using \<open>view M x \<noteq> None\<close> by (auto simp: view_None)
    have "\<not> area_contains b x" if "b \<in> set A" for b
    proof -
      have "va_end b \<le> va_start a" using that a(1) inv by (simp add: areas_inv_append)
      with a(2) show ?thesis by (simp add: area_contains_def)
    qed
    then show ?thesis by (simp add: view_None)
  qed
  have "view removed x = (if in_range r x then view (A @ M @ B) x else None)" for x
    using U(6) AB [of x] by (auto simp: view_append split: option.splits)
  moreover have "view (fold reinsert rs (A @ B)) x = (if in_range r x then None else view (A @ M @ B) x)" for x
    using F U(7) AB [of x] AM [of x] by (auto simp: view_append split: option.splits)
  ultimately show ?thesis using F U(1,2,5) by auto
qed

text \<open>The full description of \<open>unmap_range\<close>, from which the properties below follow.\<close>

lemma unmap_range_spec:
  assumes inv: "areas_inv (areas s)"
  shows "\<exists>removed t. unmap_range s r = Some (removed, t) \<and>
     areas_inv (areas t) \<and> areas_inv removed \<and> last_find t = last_find s \<and>
     (\<forall>p\<in>set removed. fst r \<le> va_start p \<and> va_end p \<le> snd r) \<and>
     (\<forall>x. view removed x = (if in_range r x then view (areas s) x else None)) \<and>
     (\<forall>x. view (areas t) x = (if in_range r x then None else view (areas s) x))"
proof (cases "snd r \<le> fst r")
  case True
  then show ?thesis using inv by (auto simp: unmap_range_def in_range_def)
next
  case False
  let ?xs = "areas s"
  let ?f = "partition_point (\<lambda>a. va_end a \<le> fst r) ?xs" and ?l = "partition_point (\<lambda>a. va_start a < snd r) ?xs"
  from False have r: "fst r < snd r" by simp
  show ?thesis
  proof (cases "?l \<le> ?f")
    case True
    then show ?thesis
      using inv False nothing_overlaps [OF inv r True] by (auto simp: unmap_range_def)
  next
    case lf: False
    then have fl: "?f < ?l" by simp
    obtain A M B where d: "A = take ?f ?xs" "M = take (?l - ?f) (drop ?f ?xs)" "B = drop ?l ?xs" by blast
    note sp = split_around_range [OF inv r fl, folded d]
    have eq: "areas s = A @ M @ B" by (rule sp(1))
    then have inv': "areas_inv (A @ M @ B)" using inv by simp
    obtain removed rs where U: "unmap_loop r M = Some (removed, rs)" "areas_inv removed"
        "areas_inv (fold reinsert rs (A @ B))"
        "\<forall>p\<in>set removed. fst r \<le> va_start p \<and> va_end p \<le> snd r"
        "\<forall>x. view removed x = (if in_range r x then view (A @ M @ B) x else None)"
        "\<forall>x. view (fold reinsert rs (A @ B)) x = (if in_range r x then None else view (A @ M @ B) x)"
      using unmap_parts [OF inv' r sp(2-4)] by blast
    have "unmap_range s r = map_option
        (\<lambda>(removed, residuals). (removed, s\<lparr>areas := fold reinsert residuals (A @ B)\<rparr>)) (unmap_loop r M)"
      unfolding unmap_range_def Let_def d using False lf by (simp only: if_False)
    then have "unmap_range s r = Some (removed, s\<lparr>areas := fold reinsert rs (A @ B)\<rparr>)"
      by (simp add: U(1))
    with U(2-6) eq show ?thesis by auto
  qed
qed

end
