(* ===== verification/VmaProtect.thy ===== *)
theory VmaProtect
  imports VmaRange
begin

text \<open>
  Changing flags, growing a stack area and forking, from \<open>libs/mm/src/set.rs\<close>.
\<close>

section \<open>Reinserting the pieces of a range\<close>

definition update_view :: "range \<Rightarrow> (vm_flags \<Rightarrow> vm_flags) \<Rightarrow> (nat \<Rightarrow> (vm_flags \<times> origin) option) \<Rightarrow> nat \<Rightarrow> (vm_flags \<times> origin) option" where
  "update_view r upd v x = (if in_range r x then map_option (apfst upd) (v x) else v x)"

lemma flags_well_formed [simp]: "is_well_formed (p\<lparr>va_flags := f\<rparr>) = is_well_formed p"
  by (simp add: is_well_formed_iff)

lemma flags_contains [simp]: "area_contains (p\<lparr>va_flags := f\<rparr>) x = area_contains p x"
  by (simp add: area_contains_def)

lemma flags_byte [simp]: "area_byte (p\<lparr>va_flags := f\<rparr>) x = (f, snd (area_byte p x))"
  by (simp add: area_byte_def)

lemma fst_area_byte [simp]: "fst (area_byte p x) = va_flags p"
  by (simp add: area_byte_def)

lemma apfst_area_byte [simp]: "apfst f (area_byte p x) = (f (va_flags p), snd (area_byte p x))"
  by (metis apfst_conv fst_area_byte prod.collapse)

lemma reinsert_pieces_spec:
  assumes "areas_inv (areas s)" and "areas_inv ps"
    and "\<And>x. view ps x \<noteq> None \<Longrightarrow> view (areas s) x = None"
  shows "\<exists>t. reinsert_pieces upd ps s =
       (map (\<lambda>p. ((va_start p, va_end p), upd (va_flags p))) ps, t) \<and> areas_inv (areas t) \<and>
     (\<forall>x. view (areas t) x = (case view ps x of None \<Rightarrow> view (areas s) x | Some v \<Rightarrow> Some (apfst upd v)))"
  using assms
proof (induction ps arbitrary: s)
  case Nil
  then show ?case by simp
next
  case (Cons p ps)
  let ?p = "p\<lparr>va_flags := upd (va_flags p)\<rparr>"
  have wf: "is_well_formed ?p" and ps: "areas_inv ps" and later: "\<forall>q\<in>set ps. va_end p \<le> va_start q"
    using Cons.prems(2) by (auto simp: areas_inv_Cons)
  have "view (areas s) x = None" if "area_contains ?p x" for x
    using that Cons.prems(3) [of x] by simp
  then obtain t where t: "vma_insert s ?p = Inr t"
    using vma_insert_succeeds [OF Cons.prems(1) wf] by blast
  note ins = vma_insert_keeps [OF Cons.prems(1) t]
  have disj: "\<not> area_contains p x" if "view ps x \<noteq> None" for x
    using that view_before [of ps "va_end p" x] later by (auto simp: area_contains_def)
  have "view (areas t) x = None" if "view ps x \<noteq> None" for x
    using that disj [OF that] Cons.prems(3) [of x] ins(2) [of x] by (auto split: if_splits)
  then obtain u where u: "reinsert_pieces upd ps t =
       (map (\<lambda>p. ((va_start p, va_end p), upd (va_flags p))) ps, u)" "areas_inv (areas u)"
     "\<forall>x. view (areas u) x = (case view ps x of None \<Rightarrow> view (areas t) x | Some v \<Rightarrow> Some (apfst upd v))"
    using Cons.IH [OF ins(1) ps] by blast
  have "view (areas u) x = (case view (p # ps) x of None \<Rightarrow> view (areas s) x | Some v \<Rightarrow> Some (apfst upd v))" for x
    using u(3) ins(2) [of x] disj [of x]
    by (cases "area_contains p x") (auto split: option.splits)
  with t u show ?case by (simp add: Let_def)
qed

lemma update_pieces_spec:
  assumes "areas_inv (areas s)"
  shows "\<exists>removed t u. unmap_range s r = Some (removed, t) \<and>
     reinsert_pieces upd removed t =
       (map (\<lambda>p. ((va_start p, va_end p), upd (va_flags p))) removed, u) \<and>
     areas_inv removed \<and> (\<forall>x. view removed x = (if in_range r x then view (areas s) x else None)) \<and>
     areas_inv (areas (merge_neighbors u)) \<and>
     view (areas (merge_neighbors u)) = update_view r upd (view (areas s))"
proof -
  obtain removed t where t: "unmap_range s r = Some (removed, t)" "areas_inv (areas t)" "areas_inv removed"
      "\<forall>x. view removed x = (if in_range r x then view (areas s) x else None)"
      "\<forall>x. view (areas t) x = (if in_range r x then None else view (areas s) x)"
    using unmap_range_spec [OF assms, of r] by blast
  obtain u where u: "reinsert_pieces upd removed t =
       (map (\<lambda>p. ((va_start p, va_end p), upd (va_flags p))) removed, u)" "areas_inv (areas u)"
     "\<forall>x. view (areas u) x = (case view removed x of None \<Rightarrow> view (areas t) x | Some v \<Rightarrow> Some (apfst upd v))"
  proof -
    have "view (areas t) x = None" if "view removed x \<noteq> None" for x
      using that t(4,5) by (cases "in_range r x") auto
    then show ?thesis using reinsert_pieces_spec [OF t(2,3), of upd] that by blast
  qed
  have "view (areas u) x = update_view r upd (view (areas s)) x" for x
    using u(3) t(4,5) by (auto simp: update_view_def split: option.splits)
  moreover have "areas_inv (areas (merge_neighbors u)) \<and> view (areas (merge_neighbors u)) = view (areas u)"
    using merge_from_keeps [OF u(2), of 0] by (simp add: merge_neighbors_def)
  ultimately show ?thesis using t(1,3,4) u(1) by auto
qed

lemma protect_range_keeps:
  assumes "areas_inv (areas s)"
  shows "\<exists>out t. protect_range s r nf = Some (out, t) \<and> areas_inv (areas t) \<and>
     view (areas t) = update_view r (\<lambda>f. with_permissions f nf) (view (areas s))"
  using update_pieces_spec [OF assms, of r "\<lambda>f. with_permissions f (permissions nf)"]
  by (auto simp: protect_range_def)

section \<open>The single-area fast path\<close>

lemma replace_area:
  assumes inv: "areas_inv (us @ a # vs)" and ps: "areas_inv ps" "\<forall>p\<in>set ps. within p a"
  shows "areas_inv (us @ ps @ vs)"
    and "view (us @ ps @ vs) x = (if area_contains a x then view ps x else view (us @ a # vs) x)"
proof -
  have order: "va_end b \<le> va_start a" if "b \<in> set us" for b using that inv by (simp add: areas_inv_append)
  have order': "va_end a \<le> va_start b" if "b \<in> set vs" for b
    using that inv by (simp add: areas_inv_append areas_inv_Cons)
  have pw: "va_start a \<le> va_start p" "va_end p \<le> va_end a" if "p \<in> set ps" for p
    using that ps(2) by (auto simp: within_def)
  show "areas_inv (us @ ps @ vs)"
    using inv ps(1) order_trans [OF order pw(1)] order_trans [OF pw(2) order']
    by (auto simp: areas_inv_append areas_inv_Cons)
  have "view us x = None" "view vs x = None" if "area_contains a x"
    using that view_after [OF order, where x = x] view_before [OF order', where x = x] by (auto simp: area_contains_def)
  moreover have "view ps x = None" if "\<not> area_contains a x"
    using that view_before [OF pw(1), where x = x] view_after [OF pw(2), where x = x] by (auto simp: area_contains_def not_le not_less)
  ultimately show "view (us @ ps @ vs) x = (if area_contains a x then view ps x else view (us @ a # vs) x)"
    by (auto simp: view_append split: option.splits)
qed

lemma protect_area_piece:
  "piece_of a s e p \<Longrightarrow> va_flags p = va_flags a \<Longrightarrow> s \<le> x \<Longrightarrow> x < e \<Longrightarrow>
     area_byte (protect_area perms p) x = apfst (\<lambda>f. with_permissions f perms) (area_byte a x)"
  by (simp add: piece_of_def protect_area_def)

lemma protect_area_simps [simp]:
  "is_well_formed (protect_area perms p) = is_well_formed p"
  "va_start (protect_area perms p) = va_start p" "va_end (protect_area perms p) = va_end p"
  "area_contains (protect_area perms p) x = area_contains p x"
  by (simp_all add: protect_area_def)

definition optional_piece :: "vm_area \<Rightarrow> nat \<Rightarrow> nat \<Rightarrow> vm_area list \<Rightarrow> bool" where
  "optional_piece a s e ps \<longleftrightarrow>
     (ps = [] \<and> s = e) \<or> (\<exists>p. ps = [p] \<and> piece_of a s e p \<and> va_flags p = va_flags a)"

lemma optional_piece_view:
  "optional_piece a s e ps \<Longrightarrow> view ps x = (if s \<le> x \<and> x < e then Some (area_byte a x) else None)"
  by (auto simp: optional_piece_def piece_of_def area_contains_def)

lemma protected_pieces:
  assumes a: "is_well_formed a" and r: "va_start a \<le> fst r" "fst r < snd r" "snd r \<le> va_end a"
    and l: "optional_piece a (va_start a) (fst r) ls"
    and m: "piece_of a (fst r) (snd r) m" "va_flags m = va_flags a"
    and e: "optional_piece a (snd r) (va_end a) rs"
  shows "areas_inv (ls @ protect_area perms m # rs)" "\<forall>p\<in>set (ls @ protect_area perms m # rs). within p a"
    and "area_contains a x \<Longrightarrow> view (ls @ protect_area perms m # rs) x =
        update_view r (\<lambda>f. with_permissions f perms) (\<lambda>x. Some (area_byte a x)) x"
proof -
  have m': "is_well_formed m" "va_start m = fst r" "va_end m = snd r" using m(1) by (auto simp: piece_of_def)
  show "areas_inv (ls @ protect_area perms m # rs)"
    using l e r m' by (auto simp: optional_piece_def areas_inv_append areas_inv_Cons piece_of_def)
  show "\<forall>p\<in>set (ls @ protect_area perms m # rs). within p a"
    using l e r m' by (auto simp: optional_piece_def within_def piece_of_def)
  show "view (ls @ protect_area perms m # rs) x =
        update_view r (\<lambda>f. with_permissions f perms) (\<lambda>x. Some (area_byte a x)) x" if "area_contains a x"
    using that optional_piece_view [OF l, of x] optional_piece_view [OF e, of x] m'
      protect_area_piece [OF m, of x perms] r
    by (auto simp: view_append update_view_def in_range_def area_contains_def)
qed

lemma protect_replaced:
  assumes inv: "areas_inv (us @ a # vs)"
    and r: "va_start a \<le> fst r" "fst r < snd r" "snd r \<le> va_end a"
    and l: "optional_piece a (va_start a) (fst r) ls"
    and m: "piece_of a (fst r) (snd r) m" "va_flags m = va_flags a"
    and e: "optional_piece a (snd r) (va_end a) rs"
  shows "areas_inv (merge_around (us @ (ls @ protect_area perms m # rs) @ vs) k)"
    and "view (merge_around (us @ (ls @ protect_area perms m # rs) @ vs) k) =
        update_view r (\<lambda>f. with_permissions f perms) (view (us @ a # vs))"
proof -
  have a: "is_well_formed a" using inv by (simp add: areas_inv_append areas_inv_Cons)
  note P = protected_pieces [OF a r l m e]
  note R = replace_area [OF inv P(1,2)]
  have member: "view (us @ a # vs) x = Some (area_byte a x)" if "area_contains a x" for x
    using view_member [OF inv _ that] by simp
  have "view (us @ (ls @ protect_area perms m # rs) @ vs) x =
      update_view r (\<lambda>f. with_permissions f perms) (view (us @ a # vs)) x" for x
    using R(2) [of perms x] P(3) [of x perms] member [of x] r
    by (auto simp: update_view_def in_range_def area_contains_def)
  then show "areas_inv (merge_around (us @ (ls @ protect_area perms m # rs) @ vs) k)"
    "view (merge_around (us @ (ls @ protect_area perms m # rs) @ vs) k) =
        update_view r (\<lambda>f. with_permissions f perms) (view (us @ a # vs))"
    using merge_around_keeps [OF R(1)] by auto
qed

lemma insert_at_after:
  "length us = i \<Longrightarrow> insert_at (i + 1) c (us @ b # vs) = us @ b # c # vs"
  "length us = i \<Longrightarrow> insert_at (i + 2) d (us @ b # c # vs) = us @ b # c # d # vs"
  by (simp_all add: insert_at_def)

lemma last_start_le_index:
  assumes "areas_inv xs" and "0 < partition_point (\<lambda>a. va_start a \<le> k) xs"
  shows "va_start (xs ! (partition_point (\<lambda>a. va_start a \<le> k) xs - 1)) \<le> k"
proof -
  let ?P = "\<lambda>a. va_start a \<le> k"
  have "last (takeWhile ?P xs) \<in> set (takeWhile ?P xs)"
    using assms(2) by (simp add: partition_point_pos)
  then show ?thesis
    using nth_partition_point_pred [OF assms(2)] takeWhile_satisfies [of _ ?P xs] by simp
qed

lemma protect_single_area_parts:
  assumes inv: "areas_inv (areas s)" and res: "protect_single_area s r nf = Some (changed, t)"
  obtains us a vs where "areas s = us @ a # vs"
    and "partition_point (\<lambda>a. va_start a \<le> fst r) (areas s) = Suc (length us)"
    and "fst r < snd r" "is_well_formed a" "va_start a \<le> fst r" "snd r \<le> va_end a"
proof -
  let ?n = "partition_point (\<lambda>a. va_start a \<le> fst r) (areas s)"
  have r: "fst r < snd r" "0 < ?n" "va_start (areas s ! (?n - 1)) \<le> fst r"
      "snd r \<le> va_end (areas s ! (?n - 1))" "is_well_formed (areas s ! (?n - 1))"
    using res by (auto simp: protect_single_area_def Let_def split: if_splits)
  have i: "?n - 1 < length (areas s)"
    using r(2) partition_point_le [of "\<lambda>a. va_start a \<le> fst r" "areas s"] by linarith
  show ?thesis
    by (rule that [of "take (?n - 1) (areas s)" "areas s ! (?n - 1)" "drop (Suc (?n - 1)) (areas s)"])
      (use i r id_take_nth_drop [OF i] in auto)
qed

lemma protect_single_area_shape:
  assumes inv: "areas_inv (areas s)" and res: "protect_single_area s r nf = Some (changed, t)"
    and xs: "areas s = us @ a # vs" and len: "partition_point (\<lambda>a. va_start a \<le> fst r) (areas s) = Suc (length us)"
    and r: "fst r < snd r"
    and B: "is_well_formed a" "va_start a \<le> fst r" "snd r \<le> va_end a"
    and differ: "permissions (va_flags a) \<noteq> permissions nf"
  shows "\<exists>ls m rs k. optional_piece a (va_start a) (fst r) ls \<and> piece_of a (fst r) (snd r) m \<and>
     va_flags m = va_flags a \<and> optional_piece a (snd r) (va_end a) rs \<and>
     areas t = merge_around (us @ (ls @ protect_area (permissions nf) m # rs) @ vs) k"
proof -
  let ?p = "permissions nf"
  have upd: "(areas s)[length us := b] = us @ b # vs" for b using xs by (metis list_update_length)
  have nth: "areas s ! length us = a" using xs by simp
  note res' = res [unfolded protect_single_area_def Let_def len diff_Suc_1 nth]
  note facts = res' r B differ and simps = upd insert_at_after [OF refl, unfolded add_2_eq_Suc' Suc_eq_plus1 [symmetric]]
  show ?thesis
  proof (cases "fst r = va_start a"; cases "snd r = va_end a")
    assume l: "fst r = va_start a" and e: "snd r = va_end a"
    then have "areas t = merge_around (us @ ([] @ protect_area ?p a # []) @ vs) (length us)"
      using facts by (auto simp: simps)
    with l e B show ?thesis by (metis optional_piece_def piece_of_refl)
  next
    assume l: "fst r = va_start a" and e: "snd r \<noteq> va_end a"
    obtain p q where q: "split_at a (snd r) = Some (p, q)" "piece_of a (fst r) (snd r) p" "va_flags p = va_flags a"
        "optional_piece a (snd r) (va_end a) [q]"
      using split_at_piece [OF B(1), of "snd r"] r B e l by (auto simp: optional_piece_def)
    have "areas t = merge_around (us @ ([] @ protect_area ?p p # [q]) @ vs) (length us)"
      using facts l e q(1) by (auto simp: simps)
    with l q show ?thesis by (metis optional_piece_def)
  next
    assume l: "fst r \<noteq> va_start a" and e: "snd r = va_end a"
    obtain p q where q: "split_at a (fst r) = Some (p, q)" "optional_piece a (va_start a) (fst r) [p]"
        "piece_of a (fst r) (snd r) q" "va_flags q = va_flags a"
      using split_at_piece [OF B(1), of "fst r"] r B e l by (auto simp: optional_piece_def)
    have "areas t = merge_around (us @ ([p] @ protect_area ?p q # []) @ vs) (length us + 1)"
      using facts l e q(1) by (auto simp: simps)
    with e q show ?thesis by (metis optional_piece_def)
  next
    assume l: "fst r \<noteq> va_start a" and e: "snd r \<noteq> va_end a"
    obtain p q where q: "split_at a (fst r) = Some (p, q)" "optional_piece a (va_start a) (fst r) [p]"
        "piece_of a (fst r) (va_end a) q" "va_flags q = va_flags a"
      using split_at_piece [OF B(1), of "fst r"] r B e l by (auto simp: optional_piece_def)
    have qb: "is_well_formed q" "va_start q = fst r" "va_end q = va_end a" using q(3) by (auto simp: piece_of_def)
    obtain m w where w: "split_at q (snd r) = Some (m, w)" "piece_of q (fst r) (snd r) m" "va_flags m = va_flags q"
        "piece_of q (snd r) (va_end a) w" "va_flags w = va_flags q"
      using split_at_piece [OF qb(1), of "snd r"] qb r B e by auto
    have "areas t = merge_around (us @ ([p] @ protect_area ?p m # [w]) @ vs) (length us + 1)"
      using facts l e q(1) w(1) by (auto simp: simps)
    moreover have "piece_of a (fst r) (snd r) m" "optional_piece a (snd r) (va_end a) [w]"
      using piece_of_trans [OF q(3) w(2)] piece_of_trans [OF q(3) w(4)] r B w q
      by (auto simp: optional_piece_def)
    ultimately show ?thesis using q w by metis
  qed
qed

lemma update_view_same:
  assumes "areas_inv xs" and "a \<in> set xs" and "va_start a \<le> fst r" "snd r \<le> va_end a"
    and "upd (va_flags a) = va_flags a"
  shows "update_view r upd (view xs) = view xs"
proof
  fix x
  have "view xs x = Some (area_byte a x)" if "in_range r x"
    using that assms(3,4) by (intro view_member [OF assms(1,2)]) (simp add: area_contains_def in_range_def)
  moreover have "(va_flags a, snd (area_byte a x)) = area_byte a x" by (simp add: area_byte_def)
  ultimately show "update_view r upd (view xs) x = view xs x"
    using assms(5) by (simp add: update_view_def)
qed

lemma protect_single_area_keeps:
  assumes inv: "areas_inv (areas s)" and res: "protect_single_area s r nf = Some (changed, t)"
  shows "areas_inv (areas t) \<and>
     view (areas t) = update_view r (\<lambda>f. with_permissions f nf) (view (areas s))"
proof -
  obtain us a vs where P: "areas s = us @ a # vs"
    "partition_point (\<lambda>a. va_start a \<le> fst r) (areas s) = Suc (length us)" "fst r < snd r"
    "is_well_formed a" "va_start a \<le> fst r" "snd r \<le> va_end a"
    using protect_single_area_parts [OF inv res] by blast
  have inv': "areas_inv (us @ a # vs)" using inv P(1) by simp
  show ?thesis
  proof (cases "permissions (va_flags a) = permissions nf")
    case True
    have "areas s ! length us = a" by (simp add: P(1))
    then have "t = s" using res P(2-6) True by (simp add: protect_single_area_def Let_def)
    then show ?thesis
      using inv update_view_same [OF inv', of a r "\<lambda>f. with_permissions f nf"] P True
      by (simp add: with_permissions_same)
  next
    case False
    then show ?thesis
      using protect_single_area_shape [OF inv res P] protect_replaced [OF inv' P(5,3,6), where perms = "permissions nf"] P(1)
      by fastforce
  qed
qed

lemma protect_single_area_None:
  assumes inv: "areas_inv (areas s)"
  shows "protect_single_area s r nf = None \<longleftrightarrow>
     \<not> (fst r < snd r \<and> (\<exists>a\<in>set (areas s). va_start a \<le> fst r \<and> snd r \<le> va_end a))"
proof
  assume "\<not> (fst r < snd r \<and> (\<exists>a\<in>set (areas s). va_start a \<le> fst r \<and> snd r \<le> va_end a))"
  then show "protect_single_area s r nf = None"
    using protect_single_area_parts [OF inv] by (metis in_set_conv_decomp not_None_eq prod.collapse)
next
  assume none: "protect_single_area s r nf = None"
  show "\<not> (fst r < snd r \<and> (\<exists>a\<in>set (areas s). va_start a \<le> fst r \<and> snd r \<le> va_end a))"
  proof
    assume "fst r < snd r \<and> (\<exists>a\<in>set (areas s). va_start a \<le> fst r \<and> snd r \<le> va_end a)"
    then obtain a where r: "fst r < snd r" and a: "a \<in> set (areas s)" "va_start a \<le> fst r" "snd r \<le> va_end a" by blast
    have c: "area_contains a (fst r)" using r a by (simp add: area_contains_def)
    obtain i where i: "i < length (areas s)" "areas s ! i = a" using a(1) by (meson in_set_conv_nth)
    have "fst (find_area_index (s\<lparr>last_find := None\<rparr>) (fst r)) = Some i"
      using find_index_correct [of "s\<lparr>last_find := None\<rparr>"] inv i c by simp
    then have n: "1 \<le> partition_point (\<lambda>a. va_start a \<le> fst r) (areas s)"
        "areas s ! (partition_point (\<lambda>a. va_start a \<le> fst r) (areas s) - 1) = a"
      using i by (auto simp: find_area_index_def Let_def split: if_splits)
    have wf: "is_well_formed a" using areas_inv_wf [OF inv a(1)] .
    then show False
      using none r a n split_at_piece [OF wf, of "fst r"] split_at_piece [OF wf, of "snd r"]
        split_at_piece [of "snd (the (split_at a (fst r)))" "snd r"]
      by (auto simp: protect_single_area_def Let_def piece_of_def split: if_splits)
  qed
qed

end
