(* ===== verification/VmaSearch.thy ===== *)
theory VmaSearch
  imports VmaProtect
begin

text \<open>
  The queries of \<open>libs/mm/src/set.rs\<close> (gap search, coverage), stack growth and fork.
\<close>

section \<open>Gap search\<close>

definition gap_free :: "vm_area list \<Rightarrow> nat \<Rightarrow> nat \<Rightarrow> bool" where
  "gap_free xs g len \<longleftrightarrow> (\<forall>a\<in>set xs. va_end a \<le> g \<or> g + len \<le> va_start a)"

lemma gap_free_Cons [simp]:
  "gap_free (a # xs) g len \<longleftrightarrow> (va_end a \<le> g \<or> g + len \<le> va_start a) \<and> gap_free xs g len"
  by (simp add: gap_free_def)

lemma gap_free_Nil [simp]: "gap_free [] g len"
  by (simp add: gap_free_def)

lemma gap_free_beyond: "areas_inv (a # xs) \<Longrightarrow> g + len \<le> va_start a \<Longrightarrow> gap_free (a # xs) g len"
  by (fastforce simp: areas_inv_Cons gap_free_def is_well_formed_iff)

lemma gap_loop_sound:
  assumes "areas_inv xs" and "fst search \<le> c" and "gap_loop search len c xs = Some (g, e)"
  shows "e = g + len \<and> c \<le> g \<and> e \<le> snd search \<and> gap_free xs g len"
  using assms
proof (induction xs arbitrary: c)
  case Nil
  then show ?case by (auto split: if_splits)
next
  case (Cons a xs)
  have xs: "areas_inv xs" "is_well_formed a" using Cons.prems(1) by (auto simp: areas_inv_Cons)
  show ?case
  proof (cases "va_end a \<le> fst search")
    case True
    then show ?thesis using Cons.IH [OF xs(1), of c] Cons.prems(2,3) xs(2) by auto
  next
    case skip: False
    show ?thesis
    proof (cases "c \<le> min (va_start a) (snd search) \<and> len \<le> min (va_start a) (snd search) - c")
      case True
      then have "g = c" "e = c + len" using Cons.prems(3) skip xs(2) by (auto simp: Let_def)
      with True gap_free_beyond [OF Cons.prems(1), of c len] show ?thesis by auto
    next
      case False
      then have "gap_loop search len (max c (va_end a)) xs = Some (g, e)"
        using Cons.prems(3) skip xs(2) by (auto simp: Let_def split: if_splits)
      then show ?thesis using Cons.IH [OF xs(1) le_max_iff_disj [THEN iffD2]] Cons.prems(2) by auto
    qed
  qed
qed

text \<open>Every start below the one returned, or every start when nothing is returned, is blocked.\<close>

lemma gap_loop_first:
  assumes "areas_inv xs" and "fst search \<le> c" and "0 < len" and "snd search \<le> U64_MAX"
    and "c \<le> h" and "h + len \<le> snd search"
    and "case gap_loop search len c xs of None \<Rightarrow> True | Some (g, e) \<Rightarrow> h < g"
  shows "\<not> gap_free xs h len"
  using assms
proof (induction xs arbitrary: c)
  case Nil
  then have "c + len \<le> snd search" by linarith
  with Nil have "gap_loop search len c [] = Some (c, c + len)" by auto
  with Nil show ?case by simp
next
  case (Cons a xs)
  have xs: "areas_inv xs" "is_well_formed a" using Cons.prems(1) by (auto simp: areas_inv_Cons)
  show ?case
  proof (cases "va_end a \<le> fst search")
    case True
    then show ?thesis using Cons.IH [OF xs(1), of c] Cons.prems(2-7) xs(2) by auto
  next
    case skip: False
    show ?thesis
    proof (cases "c \<le> min (va_start a) (snd search) \<and> len \<le> min (va_start a) (snd search) - c")
      case True
      then have "c + len \<le> snd search" by auto
      then have "gap_loop search len c (a # xs) = Some (c, c + len)"
        using True skip xs(2) Cons.prems(4) by (auto simp: Let_def)
      then show ?thesis using Cons.prems(5,7) by auto
    next
      case False
      have step: "gap_loop search len c (a # xs) =
          (if snd search \<le> max c (va_end a) then None else gap_loop search len (max c (va_end a)) xs)"
        using False skip xs(2) by (simp only: gap_loop.simps Let_def if_False) simp
      show ?thesis
      proof (cases "va_end a \<le> h")
        case True
        then have "\<not> snd search \<le> max c (va_end a)" using Cons.prems(3,5,6) by auto
        then show ?thesis
          using Cons.IH [OF xs(1), of "max c (va_end a)"] Cons.prems True step by auto
      next
        case below: False
        then have "\<not> h + len \<le> va_start a" using False Cons.prems(5,6) by auto
        then show ?thesis using below by simp
      qed
    qed
  qed
qed

text \<open>Only the areas that start inside the search window matter.\<close>

lemma gap_free_take:
  assumes "areas_inv xs" and "g + len \<le> k"
  shows "gap_free (take (partition_point (\<lambda>a. va_start a < k) xs) xs) g len \<longleftrightarrow> gap_free xs g len"
proof -
  let ?P = "\<lambda>a. va_start a < k"
  have "\<forall>a\<in>set (dropWhile ?P xs). g + len \<le> va_start a"
    using start_less_sets(2) [OF assms(1), of k] assms(2) by auto
  then show ?thesis
    using set_takeWhile_dropWhile [of ?P xs] unfolding gap_free_def take_partition_point by blast
qed

lemma areas_inv_take: "areas_inv xs \<Longrightarrow> areas_inv (take k xs)"
  by (metis append_take_drop_id areas_inv_append)

lemma gap_free_view:
  assumes "areas_inv xs" and "0 < len"
  shows "gap_free xs g len \<longleftrightarrow> (\<forall>x. g \<le> x \<and> x < g + len \<longrightarrow> view xs x = None)"
proof
  assume "gap_free xs g len"
  then show "\<forall>x. g \<le> x \<and> x < g + len \<longrightarrow> view xs x = None"
    by (fastforce simp: view_None gap_free_def area_contains_def)
next
  assume free: "\<forall>x. g \<le> x \<and> x < g + len \<longrightarrow> view xs x = None"
  show "gap_free xs g len"
    unfolding gap_free_def
  proof (rule ballI, rule ccontr)
    fix a assume a: "a \<in> set xs" and n: "\<not> (va_end a \<le> g \<or> g + len \<le> va_start a)"
    let ?x = "max g (va_start a)"
    have "area_contains a ?x" "g \<le> ?x \<and> ?x < g + len"
      using n assms(2) areas_inv_pos [OF assms(1) a] by (auto simp: area_contains_def)
    with free view_member [OF assms(1) a] show False by force
  qed
qed

lemma find_gap_sound:
  assumes "areas_inv (areas s)" and "find_gap s search len = Some (g, e)"
  shows "fst search \<le> g" "e = g + len" "e \<le> snd search" "0 < len" "gap_free (areas s) g len"
proof -
  let ?ys = "take (partition_point (\<lambda>a. va_start a < snd search) (areas s)) (areas s)"
  have l: "gap_loop search len (fst search) ?ys = Some (g, e)" "0 < len"
    using assms(2) by (auto simp: find_gap_def split: if_splits)
  have "e = g + len \<and> fst search \<le> g \<and> e \<le> snd search \<and> gap_free ?ys g len"
    using gap_loop_sound [OF areas_inv_take [OF assms(1)] order_refl l(1)] .
  then show "fst search \<le> g" "e = g + len" "e \<le> snd search" "0 < len" "gap_free (areas s) g len"
    using gap_free_take [OF assms(1), of g len "snd search"] l(2) by blast+
qed

lemma find_gap_first:
  assumes "areas_inv (areas s)" and "0 < len" and "snd search \<le> U64_MAX"
    and "fst search \<le> h" "h + len \<le> snd search"
    and "case find_gap s search len of None \<Rightarrow> True | Some (g, e) \<Rightarrow> h < g"
  shows "\<not> gap_free (areas s) h len"
proof -
  let ?ys = "take (partition_point (\<lambda>a. va_start a < snd search) (areas s)) (areas s)"
  have "find_gap s search len = gap_loop search len (fst search) ?ys"
    using assms(2,4,5) by (simp add: find_gap_def)
  then have "\<not> gap_free ?ys h len"
    using gap_loop_first [OF areas_inv_take [OF assms(1), of "partition_point (\<lambda>a. va_start a < snd search) (areas s)"] order_refl assms(2,3,4,5)] assms(6) by simp
  then show ?thesis using gap_free_take [OF assms(1,5)] by blast
qed

section \<open>Aligned gap search\<close>

lemma align_up_Some:
  assumes "0 < al" and "align_up al c = Some m"
  shows "c \<le> m" "al dvd m" "al dvd h \<Longrightarrow> c \<le> h \<Longrightarrow> m \<le> h"
proof -
  have m: "m = (c + (al - 1)) - (c + (al - 1)) mod al" using assms(2) by (auto simp: align_up_def)
  then have m': "m = (c + (al - 1)) div al * al" by (simp add: minus_mod_eq_div_mult)
  show "al dvd m" by (simp add: m')
  have "(c + (al - 1)) mod al < al" using assms(1) by simp
  then show "c \<le> m" using m by linarith
  show "m \<le> h" if d: "al dvd h" and ch: "c \<le> h"
  proof -
    obtain k where k: "h = al * k" using d by (rule dvdE)
    have "c + (al - 1) < al * (k + 1)" using ch assms(1) k by (simp add: algebra_simps)
    then have "(c + (al - 1)) div al < k + 1"
      using less_mult_imp_div_less [of "c + (al - 1)" "k + 1" al] by (simp add: mult.commute)
    then have "(c + (al - 1)) div al * al \<le> k * al" by (intro mult_le_mono1) simp
    then show ?thesis using k m' by (simp add: mult.commute)
  qed
qed

lemma align_up_None:
  assumes "is_power_of_two al" and "align_up al c = None" and "al dvd h" and "c \<le> h"
  shows "U64_MAX < h"
proof (rule ccontr)
  assume n: "\<not> U64_MAX < h"
  obtain j where j: "al = 2 ^ j" "j < 64" using assms(1) by (auto simp: is_power_of_two_def)
  have "(2::nat) ^ j dvd 2 ^ 64" using j(2) by (intro le_imp_power_dvd) simp
  then have "al dvd 2 ^ 64" using j(1) by simp
  then obtain w where w: "(2::nat) ^ 64 = al * w" by blast
  obtain k where k: "h = al * k" using assms(3) by blast
  have "al * k < al * w" using n k w by simp
  then have "k + 1 \<le> w" by simp
  then have "al * (k + 1) \<le> 2 ^ 64" unfolding w by (rule mult_le_mono2)
  then have "c + (al - 1) \<le> U64_MAX" using assms(4) k j by simp
  with assms(2) show False by (simp add: align_up_def)
qed

lemma aligned_gap_loop_sound:
  assumes "areas_inv xs" and "fst search \<le> c" and "0 < al"
    and "aligned_gap_loop search len al c xs = Some (g, e)"
  shows "e = g + len \<and> c \<le> g \<and> al dvd g \<and> e \<le> snd search \<and> gap_free xs g len"
  using assms
proof (induction xs arbitrary: c)
  case Nil
  then show ?case using align_up_Some [OF assms(3), of c] by (auto split: option.splits if_splits)
next
  case (Cons a xs)
  have xs: "areas_inv xs" "is_well_formed a" using Cons.prems(1) by (auto simp: areas_inv_Cons)
  have rec: ?case if "aligned_gap_loop search len al (max c (va_end a)) xs = Some (g, e)"
    using Cons.IH [OF xs(1) le_max_iff_disj [THEN iffD2], of c "va_end a"] that Cons.prems(2,3) by auto
  show ?case
  proof (cases "va_end a \<le> fst search")
    case True
    then show ?thesis using Cons.IH [OF xs(1), of c] Cons.prems(2-4) xs(2) by auto
  next
    case skip: False
    show ?thesis
    proof (cases "aligned_gap_loop search len al (max c (va_end a)) xs = Some (g, e)")
      case False
      then obtain m where "align_up al c = Some m" "g = m" "e = m + len" "e \<le> min (va_start a) (snd search)"
        using Cons.prems(4) skip xs(2) by (auto simp: Let_def split: if_splits option.splits)
      then show ?thesis
        using align_up_Some [OF Cons.prems(3)] gap_free_beyond [OF Cons.prems(1), of g len] by auto
    qed (rule rec)
  qed
qed

lemma find_aligned_gap_sound:
  assumes "areas_inv (areas s)" and "find_aligned_gap s search len al = Some (g, e)"
  shows "fst search \<le> g" "e = g + len" "e \<le> snd search" "al dvd g" "0 < len" "gap_free (areas s) g len"
proof -
  let ?ys = "take (partition_point (\<lambda>a. va_start a < snd search) (areas s)) (areas s)"
  have l: "aligned_gap_loop search len al (fst search) ?ys = Some (g, e)" "0 < len" "0 < al"
    using assms(2) by (auto simp: find_aligned_gap_def split: if_splits)
  have "e = g + len \<and> fst search \<le> g \<and> al dvd g \<and> e \<le> snd search \<and> gap_free ?ys g len"
    using aligned_gap_loop_sound [OF areas_inv_take [OF assms(1)] order_refl l(3,1)] .
  then show "fst search \<le> g" "e = g + len" "e \<le> snd search" "al dvd g" "0 < len" "gap_free (areas s) g len"
    using gap_free_take [OF assms(1), of g len "snd search"] l(2) by blast+
qed

lemma aligned_gap_loop_first:
  assumes "areas_inv xs" and "fst search \<le> c" and "0 < len" and "snd search \<le> U64_MAX"
    and "is_power_of_two al" and "al dvd h" and "c \<le> h" and "h + len \<le> snd search"
    and "case aligned_gap_loop search len al c xs of None \<Rightarrow> True | Some (g, e) \<Rightarrow> h < g"
  shows "\<not> gap_free xs h len"
  using assms
proof (induction xs arbitrary: c)
  have al: "0 < al" using assms(5) by (auto simp: is_power_of_two_def)
  case Nil
  have "align_up al c \<noteq> None" using align_up_None [OF Nil(5) _ Nil(6,7)] Nil(4,8) by linarith
  then obtain m where m: "align_up al c = Some m" by blast
  have "m \<le> h" using align_up_Some(3) [OF al m Nil(6,7)] .
  then have "checked_add m len = Some (m + len)" using Nil(4,8) by simp
  with Nil m \<open>m \<le> h\<close> show ?case by auto
next
  have al: "0 < al" using assms(5) by (auto simp: is_power_of_two_def)
  case (Cons a xs)
  have xs: "areas_inv xs" "is_well_formed a" using Cons.prems(1) by (auto simp: areas_inv_Cons)
  have "align_up al c \<noteq> None"
    using align_up_None [OF Cons.prems(5) _ Cons.prems(6,7)] Cons.prems(4,8) by linarith
  then obtain m where m: "align_up al c = Some m" by blast
  note m = m align_up_Some(3) [OF al m Cons.prems(6,7)] align_up_Some(1) [OF al m]
  have fits: "checked_add m len = Some (m + len)" using m Cons.prems(4,8) by simp
  show ?case
  proof (cases "va_end a \<le> fst search")
    case True
    then show ?thesis using Cons.IH [OF xs(1), of c] Cons.prems(2-9) xs(2) by auto
  next
    case skip: False
    show ?thesis
    proof (cases "va_end a \<le> h")
      case above: True
      then have nb: "\<not> snd search \<le> max c (va_end a)" using Cons.prems(3,7,8) by auto
      have "case aligned_gap_loop search len al (max c (va_end a)) xs of None \<Rightarrow> True | Some (g, e) \<Rightarrow> h < g"
        using Cons.prems(9) skip xs(2) nb m fits
        by (auto simp: Let_def split: if_splits option.splits)
      then show ?thesis
        using Cons.IH [OF xs(1), of "max c (va_end a)"] Cons.prems above by auto
    next
      case below: False
      have "\<not> h + len \<le> va_start a"
      proof
        assume "h + len \<le> va_start a"
        then have "aligned_gap_loop search len al c (a # xs) = Some (m, m + len)"
          using skip xs(2) m fits Cons.prems(3,7,8) by (auto simp: Let_def checked_add_def)
        then show False using Cons.prems(9) m by simp
      qed
      then show ?thesis using below by simp
    qed
  qed
qed

lemma find_aligned_gap_first:
  assumes "areas_inv (areas s)" and "0 < len" and "snd search \<le> U64_MAX" and "is_power_of_two al"
    and "al dvd h" and "fst search \<le> h" "h + len \<le> snd search"
    and "case find_aligned_gap s search len al of None \<Rightarrow> True | Some (g, e) \<Rightarrow> h < g"
  shows "\<not> gap_free (areas s) h len"
proof -
  let ?ys = "take (partition_point (\<lambda>a. va_start a < snd search) (areas s)) (areas s)"
  have "0 < al" using assms(4) by (auto simp: is_power_of_two_def)
  then have "find_aligned_gap s search len al = aligned_gap_loop search len al (fst search) ?ys"
    using assms(2,4,6,7) by (simp add: find_aligned_gap_def)
  then have "\<not> gap_free ?ys h len"
    using aligned_gap_loop_first [OF areas_inv_take [OF assms(1), of "partition_point (\<lambda>a. va_start a < snd search) (areas s)"] order_refl assms(2,3,4,5,6,7)] assms(8) by simp
  then show ?thesis using gap_free_take [OF assms(1,7)] by blast
qed

section \<open>Coverage queries\<close>

lemma set_iter_overlap:
  assumes "areas_inv xs" and "fst r < snd r"
  shows "set (iter_overlap xs r) = {a \<in> set xs. area_overlap a r}"
  using assms(2) start_less_sets(1) [OF assms(1), of "snd r"] areas_inv_pos [OF assms(1)]
  by (auto simp: iter_overlap_def area_overlap_def)

lemma areas_inv_filter: "areas_inv xs \<Longrightarrow> areas_inv (filter P xs)"
  by (auto simp: areas_inv_def sorted_wrt_filter)

lemma contains_loop_iff:
  assumes "areas_inv xs" and "c < e" and "\<forall>a\<in>set xs. va_start a < e \<and> c < va_end a"
  shows "contains_loop c e xs \<longleftrightarrow> (\<forall>x. c \<le> x \<and> x < e \<longrightarrow> view xs x \<noteq> None)"
  using assms
proof (induction xs arbitrary: c)
  case Nil
  then show ?case by auto
next
  case (Cons a xs)
  have wf: "is_well_formed a" and xs: "areas_inv xs" and later: "\<forall>b\<in>set xs. va_end a \<le> va_start b"
    using Cons.prems(1) by (auto simp: areas_inv_Cons)
  have a: "va_start a < e" "c < va_end a" using Cons.prems(3) by auto
  show ?case
  proof (cases "c < va_start a")
    case True
    then have "view (a # xs) c = None"
      using later a view_before [of xs "va_end a" c] by (simp add: area_contains_def)
    then show ?thesis using True wf Cons.prems(2) by auto
  next
    case s: False
    have cont: "contains_loop c e (a # xs) \<longleftrightarrow> e \<le> va_end a \<or> contains_loop (va_end a) e xs"
      using s wf a by (simp add: Let_def max_def)
    show ?thesis
    proof (cases "e \<le> va_end a")
      case True
      then show ?thesis using cont s by (auto simp: area_contains_def)
    next
      case False
      have "contains_loop (va_end a) e xs \<longleftrightarrow> (\<forall>x. va_end a \<le> x \<and> x < e \<longrightarrow> view xs x \<noteq> None)"
        using Cons.IH [OF xs, of "va_end a"] False later Cons.prems(3) areas_inv_pos [OF xs] by force
      then show ?thesis using cont False s a(2) by (force simp: area_contains_def)
    qed
  qed
qed

lemma view_overlap_only:
  assumes "areas_inv xs" and "in_range r x"
  shows "view (iter_overlap xs r) x = view xs x"
proof -
  have r: "fst r < snd r" using assms(2) by (auto simp: in_range_def)
  have inv: "areas_inv (iter_overlap xs r)"
    unfolding iter_overlap_def by (intro areas_inv_filter areas_inv_take assms(1))
  show ?thesis
  proof (cases "view xs x")
    case None
    moreover from None have "view (iter_overlap xs r) x = None"
      using set_iter_overlap [OF assms(1) r] by (auto simp: view_None)
    ultimately show ?thesis by simp
  next
    case (Some v)
    then obtain a where a: "a \<in> set xs" "area_contains a x" "v = area_byte a x" by (blast dest: view_SomeD)
    then have "a \<in> set (iter_overlap xs r)"
      using set_iter_overlap [OF assms(1) r] assms(2) by (auto simp: area_overlap_def in_range_def area_contains_def)
    then show ?thesis using view_member [OF inv _ a(2)] a(3) Some by simp
  qed
qed

lemma contains_range_iff:
  assumes inv: "areas_inv (areas s)"
  shows "contains_range s r \<longleftrightarrow> fst r < snd r \<and> (\<forall>x. in_range r x \<longrightarrow> view (areas s) x \<noteq> None)"
proof (cases "fst r < snd r")
  case True
  let ?ys = "iter_overlap (areas s) r"
  have ys: "areas_inv ?ys" unfolding iter_overlap_def by (intro areas_inv_filter areas_inv_take inv)
  have "contains_range s r \<longleftrightarrow> (\<forall>x. fst r \<le> x \<and> x < snd r \<longrightarrow> view ?ys x \<noteq> None)"
    using contains_loop_iff [OF ys True] set_iter_overlap [OF inv True] True
    by (auto simp: contains_range_def area_overlap_def)
  then show ?thesis using True view_overlap_only [OF inv] by (auto simp: in_range_def)
qed (simp add: contains_range_def)

lemma is_range_free_iff:
  assumes inv: "areas_inv (areas s)"
  shows "is_range_free s r \<longleftrightarrow> fst r < snd r \<and> (\<forall>x. in_range r x \<longrightarrow> view (areas s) x = None)"
proof (cases "fst r < snd r")
  case True
  have "(\<exists>a\<in>set (areas s). area_overlap a r) \<longleftrightarrow> \<not> gap_free (areas s) (fst r) (snd r - fst r)"
    using True unfolding gap_free_def area_overlap_def by (simp add: not_le) blast
  then show ?thesis
    using True overlaps_range_iff [OF inv True] gap_free_view [OF inv, of "snd r - fst r" "fst r"]
    by (auto simp: is_range_free_def in_range_def)
qed (simp add: is_range_free_def)

section \<open>Growing a stack area\<close>

lemma grow_down_keeps:
  assumes inv: "areas_inv (areas s)" and res: "grow_down_to s page m = Some (((lo, hi), fl), t)"
  shows "areas_inv (areas t)" and "lo = page" and "page < hi" and "flag_has fl GROWS_DOWN"
    and "view (areas t) x = (if page \<le> x \<and> x < hi then Some (fl, ZeroFill) else view (areas s) x)"
proof -
  let ?xs = "areas s"
  let ?P = "\<lambda>a. va_start a < page + 1"
  let ?i = "partition_point ?P ?xs"
  let ?a = "?xs ! ?i"
  have i: "?i < length ?xs" and wf: "is_well_formed ?a" and pg: "page < va_start ?a"
    and anon: "\<exists>d. va_backing ?a = Anon d" and prev: "?i > 0 \<longrightarrow> va_end (?xs ! (?i - 1)) \<le> page"
    and out: "lo = page" "hi = va_start ?a" "fl = va_flags ?a" "flag_has fl GROWS_DOWN"
    and t: "areas t = ?xs[?i := ?a\<lparr>va_start := page\<rparr>]"
    using res by (auto simp: grow_down_to_def Let_def not_less split: if_splits option.splits vm_backing.splits)
  obtain us a vs where u: "us = take ?i ?xs" "a = ?a" "vs = drop (Suc ?i) ?xs" by blast
  have xs: "?xs = us @ a # vs" using id_take_nth_drop [OF i] u by simp
  have len: "length us = ?i" using i u(1) length_take [of ?i ?xs] by (simp del: take_partition_point)
  have t': "areas t = us @ a\<lparr>va_start := page\<rparr> # vs" using t xs len u(2) by (metis list_update_length)
  have inv': "areas_inv (us @ a # vs)" using inv xs by simp
  have us: "va_end b \<le> page" if "b \<in> set us" for b
  proof -
    have "us \<noteq> []" using that by auto
    then have "0 < ?i" by (metis len length_greater_0_conv)
    then have "?xs ! (?i - 1) = last us" using \<open>us \<noteq> []\<close> len xs by (simp add: last_conv_nth nth_append)
    then have "va_end (last us) \<le> page" using prev \<open>0 < ?i\<close> by simp
    moreover have "va_end b \<le> va_end (last us)"
      using sorted_ends_last [of us b] that inv' by (simp add: areas_inv_append)
    ultimately show ?thesis by simp
  qed
  obtain d where d: "va_backing a = Anon d" using anon u(2) by blast
  have pg': "page < va_start a" "va_start a < va_end a" using pg wf u(2) by (auto simp: is_well_formed_iff)
  show "areas_inv (areas t)"
    using inv' us pg' d by (auto simp: t' areas_inv_append areas_inv_Cons is_well_formed_iff)
  show "lo = page" "page < hi" "flag_has fl GROWS_DOWN" using out pg by auto
  have out': "hi = va_start a" "fl = va_flags a" using out u(2) by auto
  have byte: "area_byte (a\<lparr>va_start := page\<rparr>) x = (va_flags a, ZeroFill)" "area_byte a x = (va_flags a, ZeroFill)"
    using d by (simp_all add: area_byte_def)
  show "view (areas t) x = (if page \<le> x \<and> x < hi then Some (fl, ZeroFill) else view (areas s) x)"
  proof (cases "page \<le> x")
    case True
    then have "view us x = None" using view_after [OF us] by blast
    then show ?thesis using True pg' byte by (simp add: t' xs view_append area_contains_def out')
  next
    case False
    then show ?thesis using pg' by (auto simp: t' xs view_append area_contains_def split: option.splits)
  qed
qed

section \<open>Fork\<close>

lemma mark_fork_inherited_byte [simp]: "backing_byte (mark_fork_inherited b) k = backing_byte b k"
  by (cases b) (auto simp: mark_fork_inherited_def)

lemma mark_fork_inherited_fits [simp]: "backing_fits (mark_fork_inherited b) k = backing_fits b k"
  by (cases b) (auto simp: mark_fork_inherited_def)

definition seal_area :: "vm_area \<Rightarrow> vm_area" where
  "seal_area a = a\<lparr>va_backing := mark_fork_inherited (va_backing a)\<rparr>"

lemma seal_area_simps [simp]:
  "va_start (seal_area a) = va_start a" "va_end (seal_area a) = va_end a" "va_flags (seal_area a) = va_flags a"
  "is_well_formed (seal_area a) = is_well_formed a" "area_contains (seal_area a) x = area_contains a x"
  "area_byte (seal_area a) x = area_byte a x"
  by (simp_all add: seal_area_def is_well_formed_iff area_contains_def area_byte_def)

lemma seal_areas_keeps: "areas_inv (map seal_area xs) = areas_inv xs" "view (map seal_area xs) x = view xs x"
  by (induction xs) (auto simp: areas_inv_Cons)

lemma fork_clone_areas:
  "areas (fst (fork_clone_metadata s)) = map seal_area (areas s)"
  "areas (snd (fork_clone_metadata s)) =
     filter (\<lambda>a. \<not> flag_has (va_flags a) DONTFORK) (map seal_area (areas s))"
  by (simp_all add: fork_clone_metadata_def Let_def seal_area_def [abs_def])

lemma filter_flags_view:
  assumes "areas_inv xs"
  shows "view (filter (\<lambda>a. Q (va_flags a)) xs) x =
     (case view xs x of None \<Rightarrow> None | Some (f, b) \<Rightarrow> if Q f then Some (f, b) else None)"
  using assms
proof (induction xs)
  case (Cons a xs)
  have "view xs x = None" if "area_contains a x"
    using that Cons.prems view_before [of xs "va_end a" x] by (auto simp: areas_inv_Cons area_contains_def)
  with Cons show ?case by (auto simp: areas_inv_Cons area_byte_def split: option.splits)
qed simp

text \<open>After a fork an inherited anonymous area is never joined with an area of another origin.\<close>

lemma inherited_merge_same_origin:
  "can_merge_areas l r \<Longrightarrow> va_backing l = Anon d \<Longrightarrow> va_backing r = Anon e \<Longrightarrow>
     inherited d \<or> inherited e \<Longrightarrow> dom_id d = dom_id e"
  by (auto simp: can_merge_areas_def can_merge_def Let_def split: if_splits)

end
