(* ===== verification/VmaProps.thy ===== *)
theory VmaProps
  imports VmaSearch
begin

text \<open>
  The contract of the area set towards the address space (\<open>general/src/mm/vm_space.rs\<close>), its
  interpretation on the model, and the properties of the component.
\<close>

section \<open>Interface: an address space as a partial function\<close>

locale address_space =
  fixes look :: "'s \<Rightarrow> nat \<Rightarrow> 'v option"
    and wf :: "'s \<Rightarrow> bool"
    and area_ok :: "'a \<Rightarrow> bool"
    and area_look :: "'a \<Rightarrow> nat \<Rightarrow> 'v option"
    and map_area :: "'s \<Rightarrow> 'a \<Rightarrow> 's option"
    and unmap :: "'s \<Rightarrow> range \<Rightarrow> 's"
  assumes unmap_wf: "wf s \<Longrightarrow> wf (unmap s r)"
    and unmap_look: "wf s \<Longrightarrow> look (unmap s r) x = (if in_range r x then None else look s x)"
    and map_ok: "wf s \<Longrightarrow> area_ok a \<Longrightarrow> (\<And>x. area_look a x \<noteq> None \<Longrightarrow> look s x = None) \<Longrightarrow>
      map_area s a \<noteq> None"
    and map_wf: "wf s \<Longrightarrow> map_area s a = Some t \<Longrightarrow> wf t"
    and map_look: "wf s \<Longrightarrow> map_area s a = Some t \<Longrightarrow>
      look t x = (case area_look a x of None \<Rightarrow> look s x | Some v \<Rightarrow> Some v)"
begin

text \<open>
  The fixed mapping of the address space: unmap the range of the new area, then insert it. The
  insertion cannot be refused, and the outcome is the old map overridden by the new area.
\<close>

lemma map_fixed:
  assumes "wf s" and "area_ok a" and "\<And>x. area_look a x \<noteq> None \<longleftrightarrow> in_range r x"
  shows "\<exists>t. map_area (unmap s r) a = Some t \<and> wf t \<and>
     (\<forall>x. look t x = (case area_look a x of None \<Rightarrow> look s x | Some v \<Rightarrow> Some v))"
proof -
  have "map_area (unmap s r) a \<noteq> None"
    using assms by (intro map_ok) (auto simp: unmap_wf unmap_look)
  then obtain t where t: "map_area (unmap s r) a = Some t" by blast
  have "look t x = (case area_look a x of None \<Rightarrow> look s x | Some v \<Rightarrow> Some v)" for x
    using map_look [OF unmap_wf [OF assms(1)] t, of x] unmap_look [OF assms(1), of r x] assms(3) [of x]
    by (auto split: option.splits)
  with t map_wf [OF unmap_wf [OF assms(1)] t] show ?thesis by blast
qed

end

definition vma_wf :: "vma_set \<Rightarrow> bool" where
  "vma_wf s \<longleftrightarrow> areas_inv (areas s)"

definition vma_look :: "vma_set \<Rightarrow> nat \<Rightarrow> (vm_flags \<times> origin) option" where
  "vma_look s = view (areas s)"

definition vma_unmap :: "vma_set \<Rightarrow> range \<Rightarrow> vma_set" where
  "vma_unmap s r = (case unmap_range s r of None \<Rightarrow> s | Some (removed, t) \<Rightarrow> t)"

definition vma_map :: "vma_set \<Rightarrow> vm_area \<Rightarrow> vma_set option" where
  "vma_map s a = (case vma_insert s a of Inl _ \<Rightarrow> None | Inr t \<Rightarrow> Some t)"

lemma vma_unmap_keeps:
  assumes "vma_wf s"
  shows "vma_wf (vma_unmap s r)" "vma_look (vma_unmap s r) x = (if in_range r x then None else vma_look s x)"
  using unmap_range_spec [of s r] assms by (auto simp: vma_wf_def vma_look_def vma_unmap_def)

interpretation vma: address_space vma_look vma_wf is_well_formed "\<lambda>a. view [a]" vma_map vma_unmap
proof unfold_locales
  fix s r x
  assume "vma_wf s"
  then show "vma_wf (vma_unmap s r)" "vma_look (vma_unmap s r) x = (if in_range r x then None else vma_look s x)"
    by (rule vma_unmap_keeps)+
next
  fix s a
  assume "vma_wf s" "is_well_formed a" "\<And>x. view [a] x \<noteq> None \<Longrightarrow> vma_look s x = None"
  then have "\<exists>t. vma_insert s a = Inr t"
    by (intro vma_insert_succeeds) (auto simp: vma_wf_def vma_look_def split: if_splits)
  then show "vma_map s a \<noteq> None" by (auto simp: vma_map_def)
next
  fix s a t x
  assume "vma_wf s" "vma_map s a = Some t"
  then have "areas_inv (areas s)" "vma_insert s a = Inr t"
    by (auto simp: vma_wf_def vma_map_def split: sum.splits)
  then show "vma_wf t" "vma_look t x = (case view [a] x of None \<Rightarrow> vma_look s x | Some v \<Rightarrow> Some v)"
    using vma_insert_keeps by (auto simp: vma_wf_def vma_look_def)
qed

section \<open>All state changes of the set\<close>

inductive vma_step :: "vma_set \<Rightarrow> vma_set \<Rightarrow> bool" where
  step_insert: "vma_insert s a = Inr t \<Longrightarrow> vma_step s t"
| step_find: "vma_find s addr = (res, t) \<Longrightarrow> vma_step s t"
| step_set_flags: "find_mut_set_flags s addr f = (ok, t) \<Longrightarrow> vma_step s t"
| step_grow: "grow_down_to s page m = Some (res, t) \<Longrightarrow> vma_step s t"
| step_unmap: "unmap_range s r = Some (removed, t) \<Longrightarrow> vma_step s t"
| step_protect: "protect_range s r nf = Some (out, t) \<Longrightarrow> vma_step s t"
| step_protect_single: "protect_single_area s r nf = Some (changed, t) \<Longrightarrow> vma_step s t"
| step_update: "update_flags_range s r upd = Some (out, t) \<Longrightarrow> vma_step s t"
| step_merge: "t = merge_neighbors s \<Longrightarrow> vma_step s t"
| step_fork_parent: "t = fst (fork_clone_metadata s) \<Longrightarrow> vma_step s t"
| step_fork_child: "t = snd (fork_clone_metadata s) \<Longrightarrow> vma_step s t"
| step_take_all: "t = snd (take_all s) \<Longrightarrow> vma_step s t"

lemma vma_step_wf: "vma_step s t \<Longrightarrow> vma_wf s \<Longrightarrow> vma_wf t"
proof (induction rule: vma_step.induct)
  case (step_find s addr res t)
  then show ?case using find_index_frame [of s addr] by (auto simp: vma_wf_def vma_find_def split: prod.splits)
next
  case (step_set_flags s addr f ok t)
  then show ?case
    using find_index_frame [of s addr] areas_inv_set_flags
    by (auto simp: vma_wf_def find_mut_set_flags_def split: prod.splits option.splits)
next
  case (step_grow s page m res t)
  then show ?case using grow_down_keeps(1) [of s page m] by (cases res) (auto simp: vma_wf_def)
next
  case (step_update s r upd out t)
  then show ?case using update_pieces_spec [of s r upd] by (auto simp: vma_wf_def update_flags_range_def)
next
  case (step_protect s r nf out t)
  then show ?case using protect_range_keeps [of s r nf] by (auto simp: vma_wf_def)
next
  case (step_unmap s r removed t)
  then show ?case using unmap_range_spec [of s r] by (auto simp: vma_wf_def)
next
  case (step_merge t s)
  then show ?case using merge_from_keeps [of "areas s" 0] by (simp add: vma_wf_def merge_neighbors_def)
next
  case (step_fork_child t s)
  then show ?case by (simp add: vma_wf_def fork_clone_areas seal_areas_keeps areas_inv_filter)
next
  case (step_insert s a t)
  then show ?case using vma_insert_keeps(1) [of s a t] by (simp add: vma_wf_def)
next
  case (step_protect_single s r nf changed t)
  then show ?case using protect_single_area_keeps [of s r nf changed t] by (simp add: vma_wf_def)
qed (simp_all add: vma_wf_def fork_clone_areas seal_areas_keeps take_all_def)

interpretation vma_inv: inductive_invariant "\<lambda>s. s = vma_new" vma_step vma_wf
proof unfold_locales
  show "vma_wf s" if "s = vma_new" for s using that by (simp add: vma_wf_def vma_new_def)
qed (rule vma_step_wf)

section \<open>Properties\<close>

text \<open>
  C1. Starting from the empty set, whatever sequence of insertions, lookups, flag changes through a lookup, stack growths, unmaps,
  protections, flag updates, merges, forks and teardowns is applied, the areas stay well formed
  (non-empty, backing without overflow) and sorted without overlap.
\<close>

theorem vma_set_invariant:
  assumes "reachable (\<lambda>s. s = vma_new) vma_step s"
  shows "(\<forall>a\<in>set (areas s). is_well_formed a) \<and>
     sorted_wrt (\<lambda>a b. va_end a \<le> va_start b) (areas s)"
  using vma_inv.reachable_inv [OF assms] by (simp add: vma_wf_def areas_inv_def)

definition sample_area :: "nat \<Rightarrow> nat \<Rightarrow> vm_flags \<Rightarrow> vm_area" where
  "sample_area s e f = \<lparr>va_start = s, va_end = e, va_flags = f, va_backing = File 7 (s + 100)\<rparr>"

definition sample_set :: vma_set where
  "sample_set = \<lparr>areas = [sample_area 10 30 3, sample_area 30 50 1, sample_area 80 90 3], last_find = Some 2\<rparr>"

lemma sample_set_wf: "areas_inv (areas sample_set)"
  by (simp add: sample_set_def sample_area_def areas_inv_def is_well_formed_iff)

theorem vma_set_invariant_witness:
  "\<exists>s. vma_insert vma_new (sample_area 10 30 3) = Inr s \<and> areas s \<noteq> [] \<and>
     (\<forall>a\<in>set (areas s). is_well_formed a) \<and> sorted_wrt (\<lambda>a b. va_end a \<le> va_start b) (areas s)"
proof -
  let ?s = "\<lparr>areas = [sample_area 10 30 3], last_find = None\<rparr>"
  have s: "vma_insert vma_new (sample_area 10 30 3) = Inr ?s"
    by (simp add: vma_insert_def vma_new_def sample_area_def is_well_formed_iff overlaps_range_def
        partition_point_def insert_at_def merge_around_def merge_right.simps next_idx_def Let_def)
  have "reachable (\<lambda>s. s = vma_new) vma_step ?s"
    by (rule reach_step [where s = vma_new]) (auto intro: reach_init step_insert [OF s])
  then show ?thesis using s vma_set_invariant [of ?s] by auto
qed

text \<open>
  C2. Insertion is refused with EINVAL exactly for an ill-formed area and with EEXIST exactly when
  some byte of the area is already mapped; otherwise it succeeds, and every address then reads as
  the new area where the new area covers it and as before elsewhere, whatever merging took place.
\<close>

theorem vma_insert_correct:
  assumes "areas_inv (areas s)"
  shows "case vma_insert s a of
     Inl err \<Rightarrow> (err = EINVAL \<and> \<not> is_well_formed a) \<or>
       (err = EEXIST \<and> is_well_formed a \<and> (\<exists>x. area_contains a x \<and> view (areas s) x \<noteq> None))
   | Inr t \<Rightarrow> is_well_formed a \<and> areas_inv (areas t) \<and>
       (\<forall>x. area_contains a x \<longrightarrow> view (areas s) x = None) \<and>
       (\<forall>x. view (areas t) x = (if area_contains a x then Some (area_byte a x) else view (areas s) x))"
proof (cases "vma_insert s a")
  case (Inl err)
  then have "err = EINVAL \<and> \<not> is_well_formed a \<or> err = EEXIST \<and> is_well_formed a"
    by (auto simp: vma_insert_def Let_def split: if_splits)
  moreover have "\<exists>x. area_contains a x \<and> view (areas s) x \<noteq> None" if wf: "is_well_formed a"
  proof (rule ccontr)
    assume "\<not> ?thesis"
    then have "\<exists>t. vma_insert s a = Inr t" by (intro vma_insert_succeeds assms wf) blast
    with Inl show False by simp
  qed
  ultimately show ?thesis using Inl by auto
next
  case (Inr t)
  then have wf: "is_well_formed a" and no: "\<And>b. b \<in> set (areas s) \<Longrightarrow> va_end b \<le> va_start a \<or> va_end a \<le> va_start b"
    by (auto simp: vma_insert_outcome [OF assms] no_overlap_disjoint split: if_splits)
  have "\<not> area_contains b x" if "b \<in> set (areas s)" "area_contains a x" for b x
    using that no [of b] by (auto simp: area_contains_def)
  then have "view (areas s) x = None" if "area_contains a x" for x
    using that by (simp add: view_None)
  then show ?thesis using Inr wf vma_insert_keeps [OF assms Inr] by simp
qed

theorem vma_insert_correct_witness:
  "case vma_insert sample_set (sample_area 50 80 1) of Inl err \<Rightarrow> False
   | Inr t \<Rightarrow> map (\<lambda>a. (va_start a, va_end a)) (areas t) = [(10, 30), (30, 80), (80, 90)] \<and>
       view (areas t) 60 = Some (1, FileByte 7 160)"
proof -
  have "vma_insert sample_set (sample_area 50 80 1) =
      Inr (sample_set\<lparr>areas := [sample_area 10 30 3, sample_area 30 80 1, sample_area 80 90 3]\<rparr>)"
    by (simp add: vma_insert_def sample_set_def sample_area_def is_well_formed_iff overlaps_range_def
        partition_point_def insert_at_def merge_around_def merge_right.simps next_idx_def Let_def
        try_merge_pair_def can_merge_areas_def remove_at_def)
  then show ?thesis
    using vma_insert_correct [OF sample_set_wf, of "sample_area 50 80 1"]
    by (simp add: sample_area_def area_contains_def area_byte_def)
qed

text \<open>
  C3. \<open>unmap_range\<close> never panics; afterwards no address of the range is mapped and every other
  address reads as before, and the pieces it returns describe exactly the bytes that were removed.
\<close>

theorem unmap_range_correct:
  assumes "areas_inv (areas s)"
  shows "\<exists>removed t. unmap_range s r = Some (removed, t) \<and>
     areas_inv (areas t) \<and> areas_inv removed \<and>
     (\<forall>x. view (areas t) x = (if in_range r x then None else view (areas s) x)) \<and>
     (\<forall>x. view removed x = (if in_range r x then view (areas s) x else None))"
  using unmap_range_spec [OF assms, of r] by blast

lemma unmap_sample: "unmap_range sample_set (20, 85) =
     Some ([sample_area 20 30 3, sample_area 30 50 1, sample_area 80 85 3],
       sample_set\<lparr>areas := [sample_area 10 20 3, sample_area 85 90 3]\<rparr>)"
  by (simp add: unmap_range_def sample_set_def sample_area_def partition_point_def Let_def
      unmap_piece_def split_at_def clip_to_def is_well_formed_iff u64_try_from_def checked_add_def
      reinsert_def insert_at_def)

theorem unmap_range_correct_witness:
  "\<exists>removed t. unmap_range sample_set (20, 85) = Some (removed, t) \<and>
     length removed = 3 \<and> view (areas t) 19 = Some (3, FileByte 7 119) \<and> view (areas t) 20 = None \<and>
     view removed 84 = Some (3, FileByte 7 184)"
  using unmap_range_correct [OF sample_set_wf, of "(20, 85)"] unmap_sample
  by (auto simp: in_range_def sample_set_def sample_area_def area_contains_def area_byte_def)

text \<open>
  C4. \<open>protect_range\<close> never panics, keeps the set valid, and changes nothing but the permission
  bits of the mapped bytes inside the range: every other flag bit, every backing byte and every
  address outside are as before.
\<close>

theorem protect_range_correct:
  assumes "areas_inv (areas s)"
  shows "\<exists>out t. protect_range s r nf = Some (out, t) \<and> areas_inv (areas t) \<and>
     (\<forall>x. view (areas t) x =
        (if in_range r x then map_option (\<lambda>(f, b). (with_permissions f nf, b)) (view (areas s) x)
         else view (areas s) x))"
  using protect_range_keeps [OF assms, of r nf]
  by (auto simp: update_view_def apfst_def map_prod_def)

theorem protect_range_correct_witness:
  "\<exists>out t. protect_range sample_set (20, 40) 1 = Some (out, t) \<and>
     view (areas t) 25 = Some (1, FileByte 7 125) \<and> view (areas t) 19 = Some (3, FileByte 7 119)"
  using protect_range_correct [OF sample_set_wf, of "(20, 40)" 1]
  by (auto simp: in_range_def sample_set_def sample_area_def area_contains_def area_byte_def
      with_permissions_def PERM_MASK_def VM_READ_def VM_WRITE_def VM_EXEC_def)

text \<open>
  C5. The in-place fast path applies exactly when a non-empty range lies inside one area, and then
  leaves the same map as the general \<open>protect_range\<close>, so that the caller's fallback from one to
  the other is transparent.
\<close>

theorem protect_single_area_equiv:
  assumes "areas_inv (areas s)"
  shows "case protect_single_area s r nf of
     None \<Rightarrow> \<not> (fst r < snd r \<and> (\<exists>a\<in>set (areas s). va_start a \<le> fst r \<and> snd r \<le> va_end a))
   | Some (changed, t) \<Rightarrow> areas_inv (areas t) \<and>
       (\<exists>out u. protect_range s r nf = Some (out, u) \<and> view (areas t) = view (areas u))"
proof (cases "protect_single_area s r nf")
  case None
  then show ?thesis using protect_single_area_None [OF assms, of r nf] by simp
next
  case (Some p)
  then obtain changed t where t: "protect_single_area s r nf = Some (changed, t)" by (cases p) auto
  then show ?thesis
    using protect_single_area_keeps [OF assms t] protect_range_keeps [OF assms, of r nf] by auto
qed

theorem protect_single_area_equiv_witness:
  "\<exists>t. protect_single_area sample_set (12, 20) 1 = Some (True, t) \<and>
     (\<exists>out u. protect_range sample_set (12, 20) 1 = Some (out, u) \<and> view (areas t) = view (areas u))"
proof -
  have "\<exists>t. protect_single_area sample_set (12, 20) 1 = Some (True, t)"
    by (simp add: protect_single_area_def sample_set_def sample_area_def partition_point_def Let_def
        is_well_formed_iff split_at_def u64_try_from_def checked_add_def
        permissions_def PERM_MASK_def VM_READ_def VM_WRITE_def VM_EXEC_def)
  then show ?thesis
    using protect_single_area_equiv [OF sample_set_wf, of "(12, 20)" 1] by auto
qed

text \<open>
  C6. Lookup is exact whatever the cached index holds: it returns the area that covers the address,
  or nothing when no area does, and changes at most the cache.
\<close>

theorem vma_find_correct:
  assumes "areas_inv (areas s)"
  shows "(case fst (vma_find s addr) of
       None \<Rightarrow> view (areas s) addr = None
     | Some a \<Rightarrow> a \<in> set (areas s) \<and> area_contains a addr \<and> view (areas s) addr = Some (area_byte a addr)) \<and>
     areas (snd (vma_find s addr)) = areas s"
proof -
  have "areas (snd (vma_find s addr)) = areas s"
    using find_index_frame [of s addr] by (auto simp: vma_find_def split: prod.splits)
  moreover have "case fst (vma_find s addr) of
       None \<Rightarrow> view (areas s) addr = None
     | Some a \<Rightarrow> a \<in> set (areas s) \<and> area_contains a addr \<and> view (areas s) addr = Some (area_byte a addr)"
    using vma_find_Some [OF assms, of addr] view_member [OF assms] view_None [of "areas s" addr]
    by (cases "fst (vma_find s addr)") auto
  ultimately show ?thesis by blast
qed

theorem vma_find_correct_witness:
  "fst (vma_find sample_set 45) = Some (sample_area 30 50 1) \<and> view (areas sample_set) 45 = Some (1, FileByte 7 145)"
proof -
  have "fst (vma_find sample_set 45) = Some (sample_area 30 50 1)"
    by (simp add: vma_find_def find_area_index_def sample_set_def sample_area_def partition_point_def Let_def
        area_contains_def)
  then show ?thesis
    using vma_find_correct [OF sample_set_wf, of 45] by (simp add: sample_area_def area_byte_def)
qed

text \<open>
  C7. \<open>find_gap\<close> is a complete lowest-address first fit: a returned range lies in the window, has
  the requested length and maps nothing, every lower start in the window is blocked by some mapped
  byte, and when nothing is returned every start is.
\<close>

theorem find_gap_first_fit:
  assumes "areas_inv (areas s)" and "0 < len" and "snd search \<le> U64_MAX"
  shows "case find_gap s search len of
     Some (g, e) \<Rightarrow> fst search \<le> g \<and> e = g + len \<and> e \<le> snd search \<and>
       (\<forall>x. g \<le> x \<and> x < e \<longrightarrow> view (areas s) x = None) \<and>
       (\<forall>h. fst search \<le> h \<and> h < g \<longrightarrow> (\<exists>x. h \<le> x \<and> x < h + len \<and> view (areas s) x \<noteq> None))
   | None \<Rightarrow> (\<forall>h. fst search \<le> h \<and> h + len \<le> snd search \<longrightarrow>
       (\<exists>x. h \<le> x \<and> x < h + len \<and> view (areas s) x \<noteq> None))"
proof (cases "find_gap s search len")
  case None
  then show ?thesis
    using find_gap_first [OF assms(1-3)] gap_free_view [OF assms(1,2)] by simp
next
  case (Some p)
  obtain g e where p: "find_gap s search len = Some (g, e)" using Some by (cases p) auto
  note sound = find_gap_sound [OF assms(1) p]
  have "\<exists>x. h \<le> x \<and> x < h + len \<and> view (areas s) x \<noteq> None" if "fst search \<le> h" "h < g" for h
    using find_gap_first [OF assms(1-3) that(1)] gap_free_view [OF assms(1,2), of h] that p sound(2,3) by auto
  then show ?thesis using p sound gap_free_view [OF assms(1,2), of g] by simp
qed

theorem find_gap_first_fit_witness:
  "find_gap sample_set (0, 200) 30 = Some (50, 80) \<and> view (areas sample_set) 50 = None \<and>
     view (areas sample_set) 79 = None"
proof -
  have "find_gap sample_set (0, 200) 30 = Some (50, 80)"
    by (simp add: find_gap_def sample_set_def sample_area_def partition_point_def is_well_formed_iff
        Let_def checked_add_def)
  then show ?thesis using find_gap_first_fit [OF sample_set_wf, of 30 "(0, 200)"] by simp
qed

text \<open>
  \<open>find_aligned_gap\<close> is the same first fit among the multiples of a power-of-two alignment; in
  particular the early returns on address overflow never hide a usable position.
\<close>

lemma find_aligned_gap_first_fit:
  assumes "areas_inv (areas s)" and "0 < len" and "snd search \<le> U64_MAX" and "is_power_of_two al"
  shows "case find_aligned_gap s search len al of
     Some (g, e) \<Rightarrow> fst search \<le> g \<and> al dvd g \<and> e = g + len \<and> e \<le> snd search \<and>
       (\<forall>x. g \<le> x \<and> x < e \<longrightarrow> view (areas s) x = None) \<and>
       (\<forall>h. fst search \<le> h \<and> h < g \<and> al dvd h \<longrightarrow>
          (\<exists>x. h \<le> x \<and> x < h + len \<and> view (areas s) x \<noteq> None))
   | None \<Rightarrow> (\<forall>h. fst search \<le> h \<and> h + len \<le> snd search \<and> al dvd h \<longrightarrow>
       (\<exists>x. h \<le> x \<and> x < h + len \<and> view (areas s) x \<noteq> None))"
proof (cases "find_aligned_gap s search len al")
  case None
  then show ?thesis
    using find_aligned_gap_first [OF assms(1-4)] gap_free_view [OF assms(1,2)] by simp
next
  case (Some p)
  obtain g e where p: "find_aligned_gap s search len al = Some (g, e)" using Some by (cases p) auto
  note sound = find_aligned_gap_sound [OF assms(1) p]
  have "\<exists>x. h \<le> x \<and> x < h + len \<and> view (areas s) x \<noteq> None"
    if "fst search \<le> h" "h < g" "al dvd h" for h
    using find_aligned_gap_first [OF assms(1-4) that(3,1)] gap_free_view [OF assms(1,2), of h] that p sound(2,3)
    by auto
  then show ?thesis using p sound gap_free_view [OF assms(1,2), of g] by simp
qed

text \<open>
  The fixed mapping of the address space (unmap the range of the new area, then insert it)
  always succeeds for a well-formed area, and yields the old map overridden by the new area.
\<close>

lemma map_fixed_overrides:
  assumes "areas_inv (areas s)" and "is_well_formed a"
  shows "\<exists>removed t u. unmap_range s (va_start a, va_end a) = Some (removed, t) \<and>
     vma_insert t a = Inr u \<and> areas_inv (areas u) \<and>
     (\<forall>x. view (areas u) x = (if area_contains a x then Some (area_byte a x) else view (areas s) x))"
proof -
  have "\<exists>t. vma_map (vma_unmap s (va_start a, va_end a)) a = Some t \<and> vma_wf t \<and>
      (\<forall>x. vma_look t x = (case view [a] x of None \<Rightarrow> vma_look s x | Some v \<Rightarrow> Some v))"
    using assms by (intro vma.map_fixed) (auto simp: vma_wf_def in_range_def area_contains_def)
  then show ?thesis
    using unmap_range_spec [OF assms(1), of "(va_start a, va_end a)"]
    by (auto simp: vma_map_def vma_unmap_def vma_wf_def vma_look_def split: sum.splits)
qed

text \<open>
  Growing a stack area down to a page makes exactly the bytes from the page up to the old start
  zero-fill memory with the flags of the stack area, leaves every other address alone, and the
  following lookup of the page finds the grown area, as the page-fault path expects.
\<close>

lemma grow_down_then_find:
  assumes "areas_inv (areas s)" and "grow_down_to s page m = Some (((lo, hi), fl), t)"
  shows "areas_inv (areas t) \<and> lo = page \<and> page < hi \<and>
     (\<forall>x. view (areas t) x = (if page \<le> x \<and> x < hi then Some (fl, ZeroFill) else view (areas s) x)) \<and>
     (\<exists>a. fst (vma_find t page) = Some a \<and> va_flags a = fl \<and> area_contains a page)"
proof -
  note g = grow_down_keeps [OF assms]
  have v: "view (areas t) page = Some (fl, ZeroFill)" using g(3,5) by simp
  then obtain a where a: "a \<in> set (areas t)" "area_contains a page" "(fl, ZeroFill) = area_byte a page"
    by (blast dest: view_SomeD)
  then have "fst (vma_find t page) = Some a" using vma_find_Some [OF g(1)] by blast
  moreover have "va_flags a = fl" using a(3) by (metis fst_area_byte fst_conv)
  ultimately show ?thesis using g a(2) by blast
qed

text \<open>
  C11. Fork: the parent keeps its map, the child gets the same map without the areas marked
  DONTFORK, both stay valid, and an area inherited by either side is never merged with an anonymous
  area of a different origin.
\<close>

theorem fork_clone_correct:
  assumes "areas_inv (areas s)" and "fork_clone_metadata s = (parent, child)"
  shows "areas_inv (areas parent) \<and> areas_inv (areas child) \<and> view (areas parent) = view (areas s) \<and>
     (\<forall>x. view (areas child) x =
        (case view (areas s) x of None \<Rightarrow> None
         | Some (f, b) \<Rightarrow> if flag_has f DONTFORK then None else Some (f, b))) \<and>
     (\<forall>a\<in>set (areas parent) \<union> set (areas child). \<forall>d e b. va_backing a = Anon d \<longrightarrow>
        va_backing b = Anon e \<longrightarrow> can_merge_areas a b \<or> can_merge_areas b a \<longrightarrow> dom_id d = dom_id e)"
proof -
  have A: "areas parent = map seal_area (areas s)"
      "areas child = filter (\<lambda>a. \<not> flag_has (va_flags a) DONTFORK) (map seal_area (areas s))"
    using fork_clone_areas [of s] assms(2) by auto
  have inh: "inherited d" if "a \<in> set (areas parent) \<union> set (areas child)" "va_backing a = Anon d" for a d
    using that by (auto simp: A seal_area_def mark_fork_inherited_def mark_inherited_def split: vm_backing.splits)
  have "dom_id d = dom_id e"
    if m: "a \<in> set (areas parent) \<union> set (areas child)" and d: "va_backing a = Anon d"
      and e: "va_backing b = Anon e" and c: "can_merge_areas a b \<or> can_merge_areas b a" for a b d e
    using c inh [OF m d] inherited_merge_same_origin [OF _ d e] inherited_merge_same_origin [OF _ e d] by auto
  moreover have "view (areas child) x =
        (case view (areas s) x of None \<Rightarrow> None
         | Some (f, b) \<Rightarrow> if flag_has f DONTFORK then None else Some (f, b))" for x
    using filter_flags_view [of "map seal_area (areas s)" "\<lambda>f. \<not> flag_has f DONTFORK" x] assms(1)
    by (auto simp: A seal_areas_keeps split: option.splits)
  moreover have "areas_inv (areas parent)" "areas_inv (areas child)" "view (areas parent) = view (areas s)"
    using assms(1) by (simp_all add: A seal_areas_keeps areas_inv_filter fun_eq_iff)
  ultimately show ?thesis by blast
qed

definition stack_set :: vma_set where
  "stack_set = \<lparr>areas = [sample_area 10 30 3,
     \<lparr>va_start = 80, va_end = 90, va_flags = 1027, va_backing = Anon \<lparr>dom_id = 1, inherited = False\<rparr>\<rparr>],
     last_find = None\<rparr>"

theorem fork_clone_correct_witness:
  "view (areas (snd (fork_clone_metadata stack_set))) 85 = Some (1027, ZeroFill)"
proof -
  have inv: "areas_inv (areas stack_set)"
    by (simp add: stack_set_def sample_area_def areas_inv_def is_well_formed_iff)
  show ?thesis
    using fork_clone_correct [OF inv prod.collapse [symmetric]]
    by (simp add: stack_set_def sample_area_def area_contains_def area_byte_def flag_has_def DONTFORK_def)
qed

end
