(* ===== verification/RecordLock.thy ===== *)
theory RecordLock
  imports Prelude "HOL-Library.Product_Lexorder"
begin

text \<open>
  POSIX and open-file-description byte-range locks: \<open>libs/vfs/src/record_lock.rs\<close>. Offsets
  (\<open>u64\<close>) are natural numbers, the \<open>i128\<close> arithmetic of the range parser is on integers with
  its narrowing casts written out. The two global tables under spinlocks are the fields of one
  \<open>lock_world\<close>; every critical section of the blocking loop is one step. A wait queue is the list
  of the tasks it holds.
\<close>

section \<open>Data\<close>

record lock_key =
  fs_id :: nat
  ino :: nat

text \<open>What the lock manager reads of an open file and its inode.\<close>

record file_view =
  fv_fs_id :: nat
  fv_ino :: nat
  fv_pos :: nat
  fv_size :: nat

definition from_file :: "file_view \<Rightarrow> lock_key" where
  "from_file f = \<lparr>fs_id = fv_fs_id f, ino = fv_ino f\<rparr>"

datatype lock_type = Read | Write | Unlock

record lock_request =
  rq_type :: lock_type
  rq_start :: nat
  rq_end :: "nat option"

definition request_new :: "lock_type \<Rightarrow> nat \<Rightarrow> nat \<Rightarrow> lock_request" where
  "request_new ty st len =
     \<lparr>rq_type = ty, rq_start = st, rq_end = (if len = 0 then None else Some (saturating_add st len))\<rparr>"

record lock_conflict =
  cf_type :: lock_type
  cf_start :: nat
  cf_end :: "nat option"
  cf_pid :: int

datatype owner_kind = Process | Ofd

datatype record_owner = RecordOwner (ow_kind: owner_kind) (ow_id: nat)

text \<open>The derived orders of the source: declaration order, then lexicographic.\<close>

fun owner_kind_rank :: "owner_kind \<Rightarrow> nat" where
  "owner_kind_rank Process = 0"
| "owner_kind_rank Ofd = 1"

lemma owner_kind_rank_inj: "owner_kind_rank a = owner_kind_rank b \<longleftrightarrow> a = b"
  by (cases a; cases b) auto

instantiation owner_kind :: linorder
begin
definition less_eq_owner_kind :: "owner_kind \<Rightarrow> owner_kind \<Rightarrow> bool" where
  "less_eq_owner_kind a b \<longleftrightarrow> owner_kind_rank a \<le> owner_kind_rank b"
definition less_owner_kind :: "owner_kind \<Rightarrow> owner_kind \<Rightarrow> bool" where
  "less_owner_kind a b \<longleftrightarrow> owner_kind_rank a < owner_kind_rank b"
instance
  by standard (auto simp: less_eq_owner_kind_def less_owner_kind_def owner_kind_rank_inj [symmetric])
end

instantiation record_owner :: linorder
begin
definition less_eq_record_owner :: "record_owner \<Rightarrow> record_owner \<Rightarrow> bool" where
  "less_eq_record_owner a b \<longleftrightarrow> (ow_kind a, ow_id a) \<le> (ow_kind b, ow_id b)"
definition less_record_owner :: "record_owner \<Rightarrow> record_owner \<Rightarrow> bool" where
  "less_record_owner a b \<longleftrightarrow> (ow_kind a, ow_id a) < (ow_kind b, ow_id b)"
instance
  by standard (auto simp: less_eq_record_owner_def less_record_owner_def record_owner.expand)
end

text \<open>\<open>pid as u32 as u64\<close> and back through \<open>id as u32 as i32\<close>.\<close>

definition process :: "int \<Rightarrow> record_owner" where
  "process pid = RecordOwner Process (unat (word_of_int pid :: 32 word))"

definition ofd :: "nat \<Rightarrow> record_owner" where
  "ofd ptr = RecordOwner Ofd ptr"

definition pid_or_neg_one :: "record_owner \<Rightarrow> int" where
  "pid_or_neg_one ow = (case ow_kind ow of Process \<Rightarrow> sint (of_nat (ow_id ow) :: 32 word) | Ofd \<Rightarrow> -1)"

record record_lock =
  lk_start :: nat
  lk_end :: "nat option"
  lk_type :: lock_type
  lk_owner :: record_owner

section \<open>Ranges\<close>

fun ranges_overlap :: "nat \<Rightarrow> nat option \<Rightarrow> nat \<Rightarrow> nat option \<Rightarrow> bool" where
  "ranges_overlap a_start (Some ae) b_start (Some be) = (a_start < be \<and> b_start < ae)"
| "ranges_overlap a_start (Some ae) b_start None = (b_start < ae)"
| "ranges_overlap a_start None b_start (Some be) = (a_start < be)"
| "ranges_overlap a_start None b_start None = True"

definition lock_overlaps :: "record_lock \<Rightarrow> lock_request \<Rightarrow> bool" where
  "lock_overlaps l req = ranges_overlap (lk_start l) (lk_end l) (rq_start req) (rq_end req)"

definition lock_conflicts :: "record_lock \<Rightarrow> record_owner \<Rightarrow> lock_request \<Rightarrow> bool" where
  "lock_conflicts l owner req \<longleftrightarrow>
     lk_owner l \<noteq> owner \<and> lk_type l \<noteq> Unlock \<and> rq_type req \<noteq> Unlock \<and>
     (lk_type l = Write \<or> rq_type req = Write) \<and> lock_overlaps l req"

definition conflict_view :: "record_lock \<Rightarrow> lock_conflict" where
  "conflict_view l = \<lparr>cf_type = lk_type l, cf_start = lk_start l, cf_end = lk_end l,
     cf_pid = pid_or_neg_one (lk_owner l)\<rparr>"

fun end_le :: "nat option \<Rightarrow> nat option \<Rightarrow> bool" where
  "end_le a None = True"
| "end_le None (Some b) = False"
| "end_le (Some a) (Some b) = (a \<le> b)"

fun max_end :: "nat option \<Rightarrow> nat option \<Rightarrow> nat option" where
  "max_end None b = None"
| "max_end a None = None"
| "max_end (Some a) (Some b) = Some (max a b)"

definition touches_or_overlaps :: "nat option \<Rightarrow> nat \<Rightarrow> bool" where
  "touches_or_overlaps e next_start = (case e of None \<Rightarrow> True | Some x \<Rightarrow> next_start \<le> x)"

definition left_piece :: "record_lock \<Rightarrow> lock_request \<Rightarrow> record_lock option" where
  "left_piece l req = (if rq_start req \<le> lk_start l then None else Some (l\<lparr>lk_end := Some (rq_start req)\<rparr>))"

definition right_piece :: "record_lock \<Rightarrow> lock_request \<Rightarrow> record_lock option" where
  "right_piece l req = (case rq_end req of
     None \<Rightarrow> None
   | Some right_start \<Rightarrow> if end_le (lk_end l) (Some right_start) then None
       else Some (l\<lparr>lk_start := right_start\<rparr>))"

fun lock_type_order :: "lock_type \<Rightarrow> nat" where
  "lock_type_order Read = 0"
| "lock_type_order Write = 1"
| "lock_type_order Unlock = 2"

definition lock_nonempty :: "record_lock \<Rightarrow> bool" where
  "lock_nonempty l = (case lk_end l of None \<Rightarrow> True | Some e \<Rightarrow> lk_start l < e)"

text \<open>The accumulation loop of \<open>normalize\<close>: the first argument is the last lock pushed so far.\<close>

fun coalesce :: "record_lock \<Rightarrow> record_lock list \<Rightarrow> record_lock list" where
  "coalesce last' [] = [last']"
| "coalesce last' (l # ls) =
     (if lk_owner last' = lk_owner l \<and> lk_type last' = lk_type l \<and> touches_or_overlaps (lk_end last') (lk_start l)
      then coalesce (last'\<lparr>lk_end := max_end (lk_end last') (lk_end l)\<rparr>) ls
      else last' # coalesce l ls)"

definition normalize :: "record_lock list \<Rightarrow> record_lock list" where
  "normalize locks =
     (let sorted' = sort_key (\<lambda>l. (lk_owner l, lock_type_order (lk_type l), lk_start l)) (filter lock_nonempty locks);
          out = (case sorted' of [] \<Rightarrow> [] | l # ls \<Rightarrow> coalesce l ls)
      in sort_key lk_start out)"

section \<open>The lock list of one inode\<close>

text \<open>\<open>waiters\<close> is the identity of the shared wait queue (\<open>Arc<WaitQueue>\<close>).\<close>

record record_lock_state =
  locks :: "record_lock list"
  waiters :: nat

definition state_new :: "nat \<Rightarrow> record_lock_state" where
  "state_new q = \<lparr>locks = [], waiters = q\<rparr>"

definition first_conflict_owner :: "record_lock list \<Rightarrow> record_owner \<Rightarrow> lock_request \<Rightarrow> record_owner option" where
  "first_conflict_owner ls owner req =
     map_option lk_owner (min_by_key lk_start (filter (\<lambda>l. lock_conflicts l owner req) ls))"

definition first_conflict :: "record_lock list \<Rightarrow> record_owner \<Rightarrow> lock_request \<Rightarrow> lock_conflict option" where
  "first_conflict ls owner req =
     map_option conflict_view (min_by_key lk_start (filter (\<lambda>l. lock_conflicts l owner req) ls))"

definition opt_to_list :: "'a option \<Rightarrow> 'a list" where
  "opt_to_list x = (case x of None \<Rightarrow> [] | Some y \<Rightarrow> [y])"

fun cut_locks :: "record_owner \<Rightarrow> lock_request \<Rightarrow> record_lock list \<Rightarrow> record_lock list" where
  "cut_locks owner req [] = []"
| "cut_locks owner req (l # ls) =
     (if lk_owner l \<noteq> owner \<or> \<not> lock_overlaps l req then l # cut_locks owner req ls
      else opt_to_list (left_piece l req) @ opt_to_list (right_piece l req) @ cut_locks owner req ls)"

definition apply_request :: "record_lock list \<Rightarrow> record_owner \<Rightarrow> lock_request \<Rightarrow> record_lock list" where
  "apply_request ls owner req =
     normalize (cut_locks owner req ls @
       (if rq_type req \<noteq> Unlock
        then [\<lparr>lk_start = rq_start req, lk_end = rq_end req, lk_type = rq_type req, lk_owner = owner\<rparr>]
        else []))"

definition release_owner :: "record_lock list \<Rightarrow> record_owner \<Rightarrow> record_lock list \<times> bool" where
  "release_owner ls owner =
     (let kept = filter (\<lambda>l. lk_owner l \<noteq> owner) ls in (kept, length ls \<noteq> length kept))"

section \<open>The global tables\<close>

record pending_lock =
  pd_key :: lock_key
  pd_req :: lock_request

text \<open>
  \<open>queues\<close> gives the tasks of every wait queue ever created, \<open>next_queue\<close> the identity the next
  one gets; a queue dropped from the table may still be held by a task that cloned its \<open>Arc\<close>.
\<close>

record lock_world =
  table :: "lock_key \<Rightarrow> record_lock_state option"
  queues :: "nat \<Rightarrow> nat list"
  next_queue :: nat
  pending :: "(record_owner \<times> pending_lock) list"

definition pending_insert :: "record_owner \<Rightarrow> pending_lock \<Rightarrow> (record_owner \<times> pending_lock) list \<Rightarrow> (record_owner \<times> pending_lock) list" where
  "pending_insert owner p ps = (owner, p) # filter (\<lambda>(o', _). o' \<noteq> owner) ps"

definition pending_remove :: "record_owner \<Rightarrow> (record_owner \<times> pending_lock) list \<Rightarrow> (record_owner \<times> pending_lock) list" where
  "pending_remove owner ps = filter (\<lambda>(o', _). o' \<noteq> owner) ps"

definition getlk_inner :: "lock_world \<Rightarrow> file_view \<Rightarrow> record_owner \<Rightarrow> lock_request \<Rightarrow> lock_conflict option" where
  "getlk_inner w f owner req =
     (if rq_type req = Unlock then None
      else case table w (from_file f) of
          None \<Rightarrow> None
        | Some st \<Rightarrow> first_conflict (locks st) owner req)"

definition getlk :: "lock_world \<Rightarrow> file_view \<Rightarrow> int \<Rightarrow> lock_request \<Rightarrow> lock_conflict option" where
  "getlk w f owner_pid req = getlk_inner w f (process owner_pid) req"

definition getlk_ofd :: "lock_world \<Rightarrow> file_view \<Rightarrow> nat \<Rightarrow> lock_request \<Rightarrow> lock_conflict option" where
  "getlk_ofd w f ofd_ptr req = getlk_inner w f (ofd ofd_ptr) req"

definition cleanup_empty_state :: "lock_world \<Rightarrow> lock_key \<Rightarrow> lock_world" where
  "cleanup_empty_state w key =
     (case table w key of
        None \<Rightarrow> w
      | Some st \<Rightarrow> if locks st = [] \<and> queues w (waiters st) = [] then w\<lparr>table := (table w)(key := None)\<rparr> else w)"

text \<open>
  The deadlock walk. The stack holds owners still to visit; an owner already seen or not waiting for
  anything adds nothing. Termination: a visited waiting owner leaves the set of unseen waiters.
\<close>

function deadlock_walk ::
  "(lock_key \<Rightarrow> record_lock_state option) \<Rightarrow> (record_owner \<times> pending_lock) list \<Rightarrow> record_owner \<Rightarrow>
   record_owner list \<Rightarrow> record_owner set \<Rightarrow> bool" where
  "deadlock_walk t ps waiter [] seen = False"
| "deadlock_walk t ps waiter (ow # stack) seen =
     (if ow = waiter then True
      else if ow \<in> seen then deadlock_walk t ps waiter stack seen
      else case map_of ps ow of
          None \<Rightarrow> deadlock_walk t ps waiter stack (insert ow seen)
        | Some waiting \<Rightarrow>
            (case Option.bind (t (pd_key waiting)) (\<lambda>st. first_conflict_owner (locks st) ow (pd_req waiting)) of
               None \<Rightarrow> deadlock_walk t ps waiter stack (insert ow seen)
             | Some next_owner \<Rightarrow> deadlock_walk t ps waiter (next_owner # stack) (insert ow seen)))"
  by pat_completeness auto
termination
proof (relation "measures [\<lambda>(t, ps, waiter, stack, seen). card (fst ` set ps - seen),
    \<lambda>(t, ps, waiter, stack, seen). length stack]", goal_cases)
  case (4 t ps waiter ow stack seen x2)
  then show ?case
    by (auto simp: card_gt_0_iff dest!: map_of_SomeD
        intro!: disjI1 psubset_card_mono split: prod.splits) force+
next
  case (5 t ps waiter ow stack seen x2 x2a)
  then have "ow \<in> fst ` set ps" by (metis map_of_eq_None_iff option.distinct(1))
  then have "fst ` set ps - insert ow seen \<subset> fst ` set ps - seen" using 5 by blast
  then show ?case by (simp add: psubset_card_mono)
next
  case (3 t ps waiter ow stack seen)
  then have "ow \<notin> fst ` set ps" by (simp add: map_of_eq_None_iff)
  then have "fst ` set ps - insert ow seen = fst ` set ps - seen" by blast
  then show ?case by simp
qed auto

definition would_deadlock :: "lock_world \<Rightarrow> record_owner \<Rightarrow> lock_key \<Rightarrow> lock_request \<Rightarrow> bool" where
  "would_deadlock w waiter key req =
     (case Option.bind (table w key) (\<lambda>st. first_conflict_owner (locks st) waiter req) of
        None \<Rightarrow> False
      | Some first_owner \<Rightarrow> deadlock_walk (table w) (pending w) waiter [first_owner] {})"

section \<open>Wait queues\<close>

text \<open>
  \<open>prepare_to_wait\<close> enqueues a task once, \<open>finish_wait\<close> takes it out, \<open>wake_all\<close> takes every
  entry.
\<close>

definition prepare_to_wait :: "lock_world \<Rightarrow> nat \<Rightarrow> nat \<Rightarrow> lock_world" where
  "prepare_to_wait w q task =
     (if task \<in> set (queues w q) then w else w\<lparr>queues := (queues w)(q := queues w q @ [task])\<rparr>)"

definition finish_wait :: "lock_world \<Rightarrow> nat \<Rightarrow> nat \<Rightarrow> lock_world" where
  "finish_wait w q task = w\<lparr>queues := (queues w)(q := filter (\<lambda>t. t \<noteq> task) (queues w q))\<rparr>"

definition wake_all :: "lock_world \<Rightarrow> nat \<Rightarrow> lock_world" where
  "wake_all w q = w\<lparr>queues := (queues w)(q := [])\<rparr>"

section \<open>The blocking loop\<close>

text \<open>
  Where a task stands inside \<open>setlk_inner\<close>: at the top of the loop, after the first critical
  section with its wait entry, inside \<open>schedule_once\<close>, before \<open>finish_wait\<close>, before the removal of
  its pending entry, before \<open>wake_all\<close>, or back at its caller. An \<open>errno option\<close> is the error to
  return after the cleanup, \<open>None\<close> for another turn of the loop.
\<close>

datatype lock_pc =
    Idle
  | Locking lock_key record_owner lock_request bool
  | Enqueued lock_key record_owner lock_request nat
  | Asleep lock_key record_owner lock_request nat
  | Leaving lock_key record_owner lock_request nat "errno option"
  | Unpending lock_key record_owner lock_request "errno option"
  | Waking nat
  | Failed errno

definition entry_or_new :: "lock_world \<Rightarrow> lock_key \<Rightarrow> lock_world \<times> record_lock_state" where
  "entry_or_new w key =
     (case table w key of
        Some st \<Rightarrow> (w, st)
      | None \<Rightarrow> (let st = state_new (next_queue w)
                 in (w\<lparr>table := (table w)(key \<mapsto> st), next_queue := Suc (next_queue w)\<rparr>, st)))"

definition set_locks :: "lock_world \<Rightarrow> lock_key \<Rightarrow> record_lock_state \<Rightarrow> record_lock list \<Rightarrow> lock_world" where
  "set_locks w key st ls = w\<lparr>table := (table w)(key \<mapsto> st\<lparr>locks := ls\<rparr>)\<rparr>"

definition wake_pc :: "lock_world \<Rightarrow> nat \<Rightarrow> lock_pc" where
  "wake_pc w q = (if queues w q \<noteq> [] then Waking q else Idle)"

text \<open>The first critical section.\<close>

definition setlk_enter ::
  "lock_world \<Rightarrow> nat \<Rightarrow> lock_key \<Rightarrow> record_owner \<Rightarrow> lock_request \<Rightarrow> bool \<Rightarrow> lock_world \<times> lock_pc" where
  "setlk_enter w task key owner req wait =
     (let (w1, st) = entry_or_new w key in
      if first_conflict (locks st) owner req = None then
        (let w2 = set_locks w1 key st (apply_request (locks st) owner req)
         in (cleanup_empty_state w2 key, wake_pc w2 (waiters st)))
      else if \<not> wait then (w1, Failed EAGAIN)
      else (prepare_to_wait (w1\<lparr>pending := pending_insert owner \<lparr>pd_key = key, pd_req = req\<rparr> (pending w1)\<rparr>)
              (waiters st) task,
            Enqueued key owner req (waiters st)))"

text \<open>The recheck; \<open>interrupted\<close> is the answer of the signal test made after it.\<close>

definition setlk_recheck ::
  "lock_world \<Rightarrow> lock_key \<Rightarrow> record_owner \<Rightarrow> lock_request \<Rightarrow> nat \<Rightarrow> bool \<Rightarrow> lock_pc" where
  "setlk_recheck w key owner req q interrupted =
     (let retry = (case table w key of None \<Rightarrow> True | Some st \<Rightarrow> first_conflict (locks st) owner req = None);
          deadlock = (\<not> retry \<and> would_deadlock w owner key req)
      in if retry then Leaving key owner req q None
         else if deadlock then Leaving key owner req q (Some EDEADLK)
         else if interrupted then Leaving key owner req q (Some EINTR)
         else Asleep key owner req q)"

definition setlk_unpend :: "lock_world \<Rightarrow> record_owner \<Rightarrow> lock_world" where
  "setlk_unpend w owner = w\<lparr>pending := pending_remove owner (pending w)\<rparr>"

definition after_leave :: "lock_key \<Rightarrow> record_owner \<Rightarrow> lock_request \<Rightarrow> errno option \<Rightarrow> lock_pc" where
  "after_leave key owner req e = (case e of None \<Rightarrow> Locking key owner req True | Some x \<Rightarrow> Failed x)"

definition setlk :: "file_view \<Rightarrow> int \<Rightarrow> lock_request \<Rightarrow> bool \<Rightarrow> lock_pc" where
  "setlk f owner_pid req wait = Locking (from_file f) (process owner_pid) req wait"

definition setlk_ofd :: "file_view \<Rightarrow> nat \<Rightarrow> lock_request \<Rightarrow> bool \<Rightarrow> lock_pc" where
  "setlk_ofd f ofd_ptr req wait = Locking (from_file f) (ofd ofd_ptr) req wait"

definition release_process_locks_for_file ::
  "lock_world \<Rightarrow> file_view \<Rightarrow> int \<Rightarrow> nat \<Rightarrow> bool \<Rightarrow> lock_world \<times> lock_pc" where
  "release_process_locks_for_file w f owner_pid file_ptr last_reference =
     (let key = from_file f in
      case table w key of
        None \<Rightarrow> (w, Idle)
      | Some st \<Rightarrow>
          (let (ls1, released1) = release_owner (locks st) (process owner_pid);
               (ls2, released2) = (if last_reference then release_owner ls1 (ofd file_ptr) else (ls1, False));
               w1 = set_locks w key st ls2
           in if \<not> (released1 \<or> released2) then (w1, Idle)
              else (cleanup_empty_state w1 key, wake_pc w1 (waiters st))))"

section \<open>User-visible ranges\<close>

definition len_from_range :: "nat \<Rightarrow> nat option \<Rightarrow> nat" where
  "len_from_range st e = (case e of None \<Rightarrow> 0 | Some x \<Rightarrow> saturating_sub x st)"

definition as_u64 :: "int \<Rightarrow> nat" where
  "as_u64 x = nat (x mod 2 ^ 64)"

definition i128_checked_add :: "int \<Rightarrow> int \<Rightarrow> int option" where
  "i128_checked_add a b = (if - (2 ^ 127) \<le> a + b \<and> a + b < 2 ^ 127 then Some (a + b) else None)"

definition whence_base :: "file_view \<Rightarrow> int \<Rightarrow> int option" where
  "whence_base f whence =
     (if whence = 0 then Some 0 else if whence = 1 then Some (int (fv_pos f))
      else if whence = 2 then Some (int (fv_size f)) else None)"

definition order_range :: "int \<Rightarrow> int option \<Rightarrow> (nat \<times> nat option) option" where
  "order_range raw_start raw_end =
     (case raw_end of
        Some e \<Rightarrow> if e < 0 then None
                  else if e < raw_start then Some (as_u64 e, Some (as_u64 raw_start))
                  else Some (as_u64 raw_start, Some (as_u64 e))
      | None \<Rightarrow> Some (as_u64 raw_start, None))"

definition request_from_parts ::
  "file_view \<Rightarrow> lock_type \<Rightarrow> int \<Rightarrow> int \<Rightarrow> int \<Rightarrow> errno + lock_request" where
  "request_from_parts f ty whence start len =
     (case whence_base f whence of None \<Rightarrow> Inl EINVAL | Some base \<Rightarrow>
      (case i128_checked_add base start of None \<Rightarrow> Inl EINVAL | Some raw_start \<Rightarrow>
       if raw_start < 0 then Inl EINVAL else
       (case (if len = 0 then Some None else map_option Some (i128_checked_add raw_start len)) of
          None \<Rightarrow> Inl EINVAL
        | Some raw_end \<Rightarrow>
          (case order_range raw_start raw_end of
             None \<Rightarrow> Inl EINVAL
           | Some (s, e) \<Rightarrow> Inr \<lparr>rq_type = ty, rq_start = s, rq_end = map_option (\<lambda>x. max x s) e\<rparr>))))"

definition clipped_conflict :: "lock_conflict \<Rightarrow> lock_request \<Rightarrow> lock_conflict" where
  "clipped_conflict c req =
     c\<lparr>cf_start := max (cf_start c) (rq_start req),
       cf_end := (case (cf_end c, rq_end req) of
          (None, None) \<Rightarrow> None
        | (Some a, None) \<Rightarrow> Some a
        | (None, Some b) \<Rightarrow> Some b
        | (Some a, Some b) \<Rightarrow> Some (min a b))\<rparr>"

end
