(* ===== verification/RecordLockRange.thy ===== *)
theory RecordLockRange
  imports RecordLock
begin

text \<open>
  What a lock list means, byte by byte, and that \<open>normalize\<close>, \<open>apply\<close> and \<open>release_owner\<close> compute
  the expected meaning: an owner holds a type at a byte exactly when some lock of the list says so.
\<close>

section \<open>Coverage\<close>

definition in_span :: "nat \<Rightarrow> nat option \<Rightarrow> nat \<Rightarrow> bool" where
  "in_span s e x \<longleftrightarrow> s \<le> x \<and> (case e of None \<Rightarrow> True | Some y \<Rightarrow> x < y)"

definition covers :: "record_lock \<Rightarrow> nat \<Rightarrow> bool" where
  "covers l x = in_span (lk_start l) (lk_end l) x"

definition in_request :: "lock_request \<Rightarrow> nat \<Rightarrow> bool" where
  "in_request req x = in_span (rq_start req) (rq_end req) x"

definition held :: "record_lock list \<Rightarrow> record_owner \<Rightarrow> lock_type \<Rightarrow> nat \<Rightarrow> bool" where
  "held ls ow ty x \<longleftrightarrow> (\<exists>l\<in>set ls. lk_owner l = ow \<and> lk_type l = ty \<and> covers l x)"

lemma held_Nil [simp]: "\<not> held [] ow ty x"
  by (simp add: held_def)

lemma held_Cons [simp]:
  "held (l # ls) ow ty x \<longleftrightarrow> (lk_owner l = ow \<and> lk_type l = ty \<and> covers l x) \<or> held ls ow ty x"
  by (auto simp: held_def)

lemma held_append [simp]: "held (xs @ ys) ow ty x \<longleftrightarrow> held xs ow ty x \<or> held ys ow ty x"
  by (auto simp: held_def)

lemma held_set_eq: "set xs = set ys \<Longrightarrow> held xs = held ys"
  by (simp add: held_def fun_eq_iff)

lemma overlap_common_byte:
  "in_span s e x \<Longrightarrow> in_span s' e' x \<Longrightarrow> ranges_overlap s e s' e'"
  by (cases e; cases e') (auto simp: in_span_def)

lemma covers_nonempty: "covers l x \<Longrightarrow> lock_nonempty l"
  by (auto simp: covers_def in_span_def lock_nonempty_def split: option.splits)

section \<open>Normalisation\<close>

lemma span_join:
  "s \<le> s' \<Longrightarrow> touches_or_overlaps e s' \<Longrightarrow>
     in_span s (max_end e e') x \<longleftrightarrow> in_span s e x \<or> in_span s' e' x"
  by (cases e; cases e') (auto simp: in_span_def touches_or_overlaps_def)

definition lock_sort_key :: "record_lock \<Rightarrow> record_owner \<times> nat \<times> nat" where
  "lock_sort_key l = (lk_owner l, lock_type_order (lk_type l), lk_start l)"

lemma lock_type_order_inj: "lock_type_order a = lock_type_order b \<longleftrightarrow> a = b"
  by (cases a; cases b) auto

lemma lock_sort_key_le_iff:
  "lock_sort_key a \<le> lock_sort_key b \<longleftrightarrow>
     lk_owner a < lk_owner b \<or> lk_owner a = lk_owner b \<and>
       (lock_type_order (lk_type a) < lock_type_order (lk_type b) \<or>
        lk_type a = lk_type b \<and> lk_start a \<le> lk_start b)"
  by (auto simp: lock_sort_key_def less_eq_prod_def less_prod_def lock_type_order_inj)

lemma lock_key_sandwich:
  assumes "lk_owner p = lk_owner l \<and> lk_type p = lk_type l"
    and "lock_sort_key p \<le> lock_sort_key m" "lock_sort_key m \<le> lock_sort_key l"
  shows "lk_owner p = lk_owner m \<and> lk_type p = lk_type m \<and> lk_start m \<le> lk_start l"
proof -
  have o: "lk_owner p = lk_owner m"
    using assms unfolding lock_sort_key_le_iff by (metis order.asym)
  have "lk_type p = lk_type m"
    using assms o unfolding lock_sort_key_le_iff by (metis order.asym order.irrefl)
  with o assms show ?thesis unfolding lock_sort_key_le_iff by (metis order.irrefl)
qed

lemma held_coalesce:
  "sorted (map lock_sort_key (p # ls)) \<Longrightarrow> held (coalesce p ls) ow ty x = held (p # ls) ow ty x"
proof (induction ls arbitrary: p)
  case Nil
  then show ?case by simp
next
  case (Cons l ls)
  show ?case
  proof (cases "lk_owner p = lk_owner l \<and> lk_type p = lk_type l \<and> touches_or_overlaps (lk_end p) (lk_start l)")
    case True
    let ?p = "p\<lparr>lk_end := max_end (lk_end p) (lk_end l)\<rparr>"
    have key: "lock_sort_key ?p = lock_sort_key p" by (simp add: lock_sort_key_def)
    have "lk_start p \<le> lk_start l"
      using Cons.prems True by (auto simp: lock_sort_key_le_iff)
    then have join: "covers ?p y \<longleftrightarrow> covers p y \<or> covers l y" for y
      using True by (simp add: covers_def span_join)
    have "sorted (map lock_sort_key (?p # ls))" using Cons.prems key by simp
    from Cons.IH [OF this] True join show ?thesis by auto
  next
    case False
    with Cons show ?thesis by auto
  qed
qed

lemma held_normalize: "held (normalize ls) ow ty x = held ls ow ty x"
proof -
  let ?s = "sort_key lock_sort_key (filter lock_nonempty ls)"
  have n: "normalize ls = sort_key lk_start (case ?s of [] \<Rightarrow> [] | l # r \<Rightarrow> coalesce l r)"
    by (simp add: normalize_def Let_def lock_sort_key_def [abs_def])
  have "held (normalize ls) ow ty x = held (case ?s of [] \<Rightarrow> [] | l # r \<Rightarrow> coalesce l r) ow ty x"
    unfolding n by (rule fun_cong [OF fun_cong [OF fun_cong [OF held_set_eq]]]) simp
  also have "\<dots> = held ?s ow ty x"
  proof (cases ?s)
    case (Cons l r)
    then have "sorted (map lock_sort_key (l # r))" by (metis sorted_sort_key)
    from held_coalesce [OF this] Cons show ?thesis by simp
  qed simp
  also have "\<dots> = held ls ow ty x" by (auto simp: held_def dest: covers_nonempty)
  finally show ?thesis .
qed

text \<open>Locks of one owner and type are listed with a gap between any two of them.\<close>

definition lock_gap :: "record_lock \<Rightarrow> record_lock \<Rightarrow> bool" where
  "lock_gap a b \<longleftrightarrow> lk_owner a = lk_owner b \<and> lk_type a = lk_type b \<longrightarrow>
     (\<exists>e. lk_end a = Some e \<and> e < lk_start b)"

lemma max_end_nonempty:
  "lock_nonempty p \<Longrightarrow> lock_nonempty (p\<lparr>lk_end := max_end (lk_end p) e\<rparr>)"
  by (cases e; cases "lk_end p") (auto simp: lock_nonempty_def)

lemma coalesce_nonempty:
  "lock_nonempty p \<Longrightarrow> \<forall>l\<in>set ls. lock_nonempty l \<Longrightarrow> \<forall>l\<in>set (coalesce p ls). lock_nonempty l"
proof (induction ls arbitrary: p)
  case Nil
  then show ?case by simp
next
  case (Cons m ls)
  have "lock_nonempty (p\<lparr>lk_end := max_end (lk_end p) (lk_end m)\<rparr>)"
    using Cons.prems max_end_nonempty by blast
  moreover have "lock_nonempty m" "\<forall>l\<in>set ls. lock_nonempty l" using Cons.prems by auto
  ultimately show ?case
    using Cons.IH [of m] Cons.IH [of "p\<lparr>lk_end := max_end (lk_end p) (lk_end m)\<rparr>"] Cons.prems(1)
    by (auto simp del: split_paired_All)
qed

lemma coalesce_key_ge:
  "sorted (map lock_sort_key (p # ls)) \<Longrightarrow> l \<in> set (coalesce p ls) \<Longrightarrow> lock_sort_key p \<le> lock_sort_key l"
proof (induction ls arbitrary: p)
  case Nil
  then show ?case by simp
next
  case (Cons m ls)
  let ?p = "p\<lparr>lk_end := max_end (lk_end p) (lk_end m)\<rparr>"
  have key: "lock_sort_key ?p = lock_sort_key p" by (simp add: lock_sort_key_def)
  have "sorted (map lock_sort_key (?p # ls))" "sorted (map lock_sort_key (m # ls))"
    "lock_sort_key p \<le> lock_sort_key m" using Cons.prems key by auto
  with Cons.IH [of ?p] Cons.IH [of m] Cons.prems key show ?case
    by (auto split: if_splits)
qed

lemma coalesce_gaps:
  "sorted (map lock_sort_key (p # ls)) \<Longrightarrow> sorted_wrt lock_gap (coalesce p ls)"
proof (induction ls arbitrary: p)
  case Nil
  then show ?case by simp
next
  case (Cons m ls)
  let ?p = "p\<lparr>lk_end := max_end (lk_end p) (lk_end m)\<rparr>"
  have key: "lock_sort_key ?p = lock_sort_key p" by (simp add: lock_sort_key_def)
  have srt: "sorted (map lock_sort_key (?p # ls))" "sorted (map lock_sort_key (m # ls))"
    "lock_sort_key p \<le> lock_sort_key m" using Cons.prems key by auto
  show ?case
  proof (cases "lk_owner p = lk_owner m \<and> lk_type p = lk_type m \<and> touches_or_overlaps (lk_end p) (lk_start m)")
    case True
    with Cons.IH [OF srt(1)] show ?thesis by simp
  next
    case False
    have "lock_gap p l" if "l \<in> set (coalesce m ls)" for l
    proof -
      have ml: "lock_sort_key m \<le> lock_sort_key l" using coalesce_key_ge [OF srt(2) that] .
      show ?thesis
      proof (unfold lock_gap_def, intro impI)
        assume same: "lk_owner p = lk_owner l \<and> lk_type p = lk_type l"
        then have "lk_owner p = lk_owner m \<and> lk_type p = lk_type m \<and> lk_start m \<le> lk_start l"
          using srt(3) ml by (intro lock_key_sandwich)
        moreover from this False have "\<not> touches_or_overlaps (lk_end p) (lk_start m)" by blast
        ultimately show "\<exists>e. lk_end p = Some e \<and> e < lk_start l"
          by (cases "lk_end p") (simp_all add: touches_or_overlaps_def)
      qed
    qed
    moreover have "coalesce p (m # ls) = p # coalesce m ls" using False by (simp only: coalesce.simps if_False)
    ultimately show ?thesis using Cons.IH [OF srt(2)] by simp
  qed
qed

text \<open>The shape \<open>normalize\<close> establishes.\<close>

definition separated :: "record_lock \<Rightarrow> record_lock \<Rightarrow> bool" where
  "separated a b \<longleftrightarrow> (lk_owner a = lk_owner b \<and> lk_type a = lk_type b \<longrightarrow>
     (\<exists>e. lk_end a = Some e \<and> e < lk_start b) \<or> (\<exists>e. lk_end b = Some e \<and> e < lk_start a))"

lemma separated_sym: "separated a b \<Longrightarrow> separated b a"
  unfolding separated_def by metis

definition normal_form :: "record_lock list \<Rightarrow> bool" where
  "normal_form ls \<longleftrightarrow> sorted (map lk_start ls) \<and> (\<forall>l\<in>set ls. lock_nonempty l) \<and> sorted_wrt separated ls"

lemma normalize_normal_form: "normal_form (normalize ls)"
proof -
  let ?s = "sort_key lock_sort_key (filter lock_nonempty ls)"
  let ?c = "case ?s of [] \<Rightarrow> [] | l # r \<Rightarrow> coalesce l r"
  have n: "normalize ls = sort_key lk_start ?c"
    by (simp add: normalize_def Let_def lock_sort_key_def [abs_def])
  have ne: "\<forall>l\<in>set ?s. lock_nonempty l" by simp
  have c: "(\<forall>l\<in>set ?c. lock_nonempty l) \<and> sorted_wrt lock_gap ?c"
  proof (cases ?s)
    case (Cons l r)
    then have "sorted (map lock_sort_key (l # r))" by (metis sorted_sort_key)
    with ne show ?thesis
      unfolding Cons using coalesce_nonempty [of l r] coalesce_gaps [of l r] by simp
  qed simp
  have w: "sorted_wrt separated ?c"
    by (rule sorted_wrt_mono_rel [OF _ conjunct2 [OF c]]) (auto simp: lock_gap_def separated_def)
  have "sorted_wrt separated (normalize ls)"
    unfolding n using w by (simp add: sorted_wrt_sort_key_sym [of separated, OF separated_sym])
  moreover have "sorted (map lk_start (normalize ls))" unfolding n by simp
  moreover have "\<forall>l\<in>set (normalize ls). lock_nonempty l" using c unfolding n by simp
  ultimately show ?thesis unfolding normal_form_def by blast
qed

section \<open>Applying a request\<close>

lemma pieces_cover:
  assumes "lock_overlaps l req"
  shows "held (opt_to_list (left_piece l req) @ opt_to_list (right_piece l req)) ow ty x \<longleftrightarrow>
     lk_owner l = ow \<and> lk_type l = ty \<and> covers l x \<and> \<not> in_request req x"
  using assms
  by (cases "lk_end l"; cases "rq_end req")
    (auto simp: lock_overlaps_def left_piece_def right_piece_def opt_to_list_def covers_def
      in_request_def in_span_def)

lemma held_cut_locks:
  "held (cut_locks owner req ls) ow ty x \<longleftrightarrow> held ls ow ty x \<and> \<not> (ow = owner \<and> in_request req x)"
proof (induction ls)
  case Nil
  then show ?case by simp
next
  case (Cons l ls)
  show ?case
  proof (cases "lk_owner l \<noteq> owner \<or> \<not> lock_overlaps l req")
    case True
    have "covers l x \<Longrightarrow> \<not> lock_overlaps l req \<Longrightarrow> \<not> in_request req x"
      unfolding covers_def in_request_def lock_overlaps_def using overlap_common_byte by blast
    with True Cons show ?thesis by auto
  next
    case False
    with Cons pieces_cover [of l req ow ty x] show ?thesis by auto
  qed
qed

lemma held_apply_request:
  "held (apply_request ls owner req) ow ty x \<longleftrightarrow>
     (if ow = owner \<and> in_request req x then ty = rq_type req \<and> ty \<noteq> Unlock else held ls ow ty x)"
  by (auto simp: apply_request_def held_normalize held_cut_locks covers_def in_request_def)

lemma held_release_owner:
  "held (fst (release_owner ls owner)) ow ty x \<longleftrightarrow> ow \<noteq> owner \<and> held ls ow ty x"
  by (auto simp: release_owner_def held_def Let_def)

lemma release_owner_snd: "snd (release_owner ls owner) \<longleftrightarrow> (\<exists>l\<in>set ls. lk_owner l = owner)"
proof -
  have "length (filter (\<lambda>l. lk_owner l \<noteq> owner) ls) = length ls \<longleftrightarrow> (\<forall>l\<in>set ls. lk_owner l \<noteq> owner)"
    by (metis (mono_tags, lifting) filter_id_conv length_filter_less nat_neq_iff)
  then show ?thesis by (auto simp: release_owner_def Let_def)
qed

section \<open>Conflicts\<close>

lemma first_conflict_None_iff:
  "first_conflict ls owner req = None \<longleftrightarrow> (\<forall>l\<in>set ls. \<not> lock_conflicts l owner req)"
  by (simp add: first_conflict_def filter_empty_conv)

lemma first_conflict_owner_None_iff:
  "first_conflict_owner ls owner req = None \<longleftrightarrow> first_conflict ls owner req = None"
  by (simp add: first_conflict_owner_def first_conflict_def)

text \<open>Two holdings clash when two owners hold one byte and one of them writes.\<close>

definition holdings :: "record_lock list \<Rightarrow> (record_owner \<times> lock_type \<times> nat) set" where
  "holdings ls = {(ow, ty, x). held ls ow ty x}"

fun holding_clash :: "record_owner \<times> lock_type \<times> nat \<Rightarrow> record_owner \<times> lock_type \<times> nat \<Rightarrow> bool" where
  "holding_clash (a, ta, x) (b, tb, y) \<longleftrightarrow>
     a \<noteq> b \<and> x = y \<and> ta \<noteq> Unlock \<and> tb \<noteq> Unlock \<and> (ta = Write \<or> tb = Write)"

definition exclusive_locks :: "record_lock list \<Rightarrow> bool" where
  "exclusive_locks ls \<longleftrightarrow> compatible_table holding_clash (holdings ls)"

definition lock_admit :: "record_lock list \<Rightarrow> record_owner \<times> lock_request \<Rightarrow> record_lock list option" where
  "lock_admit ls r =
     (if first_conflict ls (fst r) (snd r) = None then Some (apply_request ls (fst r) (snd r)) else None)"

definition lock_retire :: "record_lock list \<Rightarrow> record_owner \<Rightarrow> record_lock list" where
  "lock_retire ls owner = fst (release_owner ls owner)"

text \<open>An owner never holds two types at one byte, and never the type \<open>Unlock\<close>.\<close>

definition single_type :: "record_lock list \<Rightarrow> bool" where
  "single_type ls \<longleftrightarrow> (\<forall>ow x. \<not> held ls ow Unlock x \<and> \<not> (held ls ow Read x \<and> held ls ow Write x))"

lemma no_conflict_no_clash:
  assumes "first_conflict ls owner req = None" "held ls ow ty x" "in_request req x"
  shows "\<not> holding_clash (ow, ty, x) (owner, rq_type req, x)"
proof -
  obtain l where l: "l \<in> set ls" "lk_owner l = ow" "lk_type l = ty" "covers l x"
    using assms(2) by (auto simp: held_def)
  have "lock_overlaps l req"
    unfolding lock_overlaps_def using l(4) assms(3)
    by (intro overlap_common_byte) (simp_all add: covers_def in_request_def)
  with assms(1) l show ?thesis by (auto simp: first_conflict_None_iff lock_conflicts_def)
qed

interpretation rl: admission_table holdings holding_clash lock_admit lock_retire single_type
proof (unfold_locales, goal_cases)
  case (1 s r s')
  then show ?case
    by (cases "rq_type (snd r)")
      (auto simp: lock_admit_def single_type_def held_apply_request split: if_splits)
next
  case (2 s k)
  then show ?case by (auto simp: lock_retire_def single_type_def held_release_owner)
next
  case (3 s r s')
  let ?ow = "fst r" and ?q = "snd r"
  from 3(3) have ok: "first_conflict s ?ow ?q = None" and s': "s' = apply_request s ?ow ?q"
    by (auto simp: lock_admit_def split: if_splits)
  have sym: "\<And>a b. holding_clash a b \<Longrightarrow> holding_clash b a" by auto
  have "\<not> holding_clash (a, ta, x) (b, tb, x)" if h: "held s' a ta x" "held s' b tb x" for a ta b tb x
  proof (cases "in_request ?q x")
    case True
    have free: "\<not> holding_clash (o', t', x) (?ow, rq_type ?q, x)" if "held s o' t' x" for o' t'
      using no_conflict_no_clash [OF ok that True] .
    have old: "\<not> holding_clash (a, ta, x) (b, tb, x)" if "held s a ta x" "held s b tb x"
      using 3(2) that unfolding compatible_table_def holdings_def by blast
    show ?thesis
    proof (cases "a = ?ow")
      case a: True
      then have "ta = rq_type ?q" using h(1) True unfolding s' held_apply_request by simp
      moreover have "b = ?ow \<or> held s b tb x" using h(2) unfolding s' held_apply_request by presburger
      ultimately show ?thesis using a free [of b tb] by auto
    next
      case a: False
      then have "held s a ta x" using h(1) unfolding s' held_apply_request by simp
      moreover have "b = ?ow \<and> tb = rq_type ?q \<or> held s b tb x"
        using h(2) True unfolding s' held_apply_request by presburger
      ultimately show ?thesis using free [of a ta] old by blast
    qed
  next
    case False
    then have "(a, ta, x) \<in> holdings s" "(b, tb, x) \<in> holdings s"
      using h unfolding s' by (auto simp: held_apply_request holdings_def)
    with 3(2) show ?thesis unfolding compatible_table_def by blast
  qed
  then show ?case unfolding compatible_table_def holdings_def by auto
next
  case (4 s k)
  then show ?case by (auto simp: lock_retire_def holdings_def held_release_owner)
qed

end
