(* ===== verification/RecordLockSystem.thy ===== *)
theory RecordLockSystem
  imports RecordLockRange
begin

text \<open>
  Record locks under concurrency: any number of tasks run \<open>setlk\<close> and \<open>close\<close> on shared tables, one
  critical section at a time. Invariants of the tables and wait queues, and the deadlock walk.
\<close>

section \<open>The transition system\<close>

type_synonym lock_sys = "lock_world \<times> (nat \<Rightarrow> lock_pc)"

inductive lock_step :: "lock_sys \<Rightarrow> lock_sys \<Rightarrow> bool" where
  call: "pc t = Idle \<or> (\<exists>e. pc t = Failed e) \<Longrightarrow> lock_step (w, pc) (w, pc(t := Locking key owner req wait))"
| enter: "pc t = Locking key owner req wait \<Longrightarrow> setlk_enter w t key owner req wait = (w', p') \<Longrightarrow>
    lock_step (w, pc) (w', pc(t := p'))"
| recheck: "pc t = Enqueued key owner req q \<Longrightarrow>
    lock_step (w, pc) (w, pc(t := setlk_recheck w key owner req q interrupted))"
| resume: "pc t = Asleep key owner req q \<Longrightarrow>
    lock_step (w, pc) (w, pc(t := Leaving key owner req q None))"
| leave: "pc t = Leaving key owner req q e \<Longrightarrow>
    lock_step (w, pc) (finish_wait w q t, pc(t := Unpending key owner req e))"
| unpend: "pc t = Unpending key owner req e \<Longrightarrow>
    lock_step (w, pc) (setlk_unpend w owner, pc(t := after_leave key owner req e))"
| wake: "pc t = Waking q \<Longrightarrow> lock_step (w, pc) (wake_all w q, pc(t := Idle))"
| close: "pc t = Idle \<or> (\<exists>e. pc t = Failed e) \<Longrightarrow>
    release_process_locks_for_file w f owner_pid file_ptr last_reference = (w', p') \<Longrightarrow>
    lock_step (w, pc) (w', pc(t := p'))"

inductive_cases lock_stepE: "lock_step (w, pc) s'"

definition lock_init :: "lock_sys \<Rightarrow> bool" where
  "lock_init s \<longleftrightarrow> s = (\<lparr>table = (\<lambda>_. None), queues = (\<lambda>_. []), next_queue = 0, pending = []\<rparr>, (\<lambda>_. Idle))"

section \<open>What the critical sections do to the tables\<close>

text \<open>
  Every change of a lock list is a grant or a release on one key; \<open>table_locks\<close> reads a missing
  entry as the empty list.
\<close>

definition table_locks :: "lock_world \<Rightarrow> lock_key \<Rightarrow> record_lock list" where
  "table_locks w key = (case table w key of None \<Rightarrow> [] | Some st \<Rightarrow> locks st)"

lemma table_locks_Some [simp]: "table w key = Some st \<Longrightarrow> table_locks w key = locks st"
  by (simp add: table_locks_def)

lemma table_locks_cleanup [simp]: "table_locks (cleanup_empty_state w key) k = table_locks w k"
  by (auto simp: table_locks_def cleanup_empty_state_def split: option.splits)

lemma table_locks_set_locks [simp]:
  "table_locks (set_locks w key st ls) k = (if k = key then ls else table_locks w k)"
  by (auto simp: table_locks_def set_locks_def)

lemma entry_or_new_locks:
  "entry_or_new w key = (w1, st) \<Longrightarrow>
     locks st = table_locks w key \<and> table_locks w1 k = table_locks w k \<and> queues w1 = queues w \<and>
     table w1 key = Some st"
  by (cases "table w key"; cases "k = key") (auto simp: entry_or_new_def table_locks_def state_new_def Let_def)

lemma table_locks_prepare [simp]: "table_locks (prepare_to_wait w q t) k = table_locks w k"
  by (simp add: prepare_to_wait_def table_locks_def)

lemma table_locks_pending [simp]: "table_locks (w\<lparr>pending := ps\<rparr>) k = table_locks w k"
  by (simp add: table_locks_def)

lemma table_locks_finish [simp]: "table_locks (finish_wait w q t) k = table_locks w k"
  by (simp add: finish_wait_def table_locks_def)

lemma table_locks_wake [simp]: "table_locks (wake_all w q) k = table_locks w k"
  by (simp add: wake_all_def table_locks_def)

lemma table_locks_unpend [simp]: "table_locks (setlk_unpend w ow) k = table_locks w k"
  by (simp add: setlk_unpend_def)

lemma setlk_enter_locks:
  assumes "setlk_enter w t key owner req wait = (w', p')"
  shows "table_locks w' k =
    (if k = key \<and> first_conflict (table_locks w key) owner req = None
     then apply_request (table_locks w key) owner req else table_locks w k)"
proof -
  obtain w1 st where e: "entry_or_new w key = (w1, st)" by fastforce
  note en = entry_or_new_locks [OF e]
  show ?thesis using assms en by (auto simp: setlk_enter_def e Let_def split: if_splits)
qed

lemma release_locks:
  assumes "release_process_locks_for_file w f owner_pid ptr last_ref = (w', p')"
  shows "table_locks w' k =
    (if k = from_file f then
       (let ls = lock_retire (table_locks w k) (process owner_pid)
        in if last_ref then lock_retire ls (ofd ptr) else ls)
     else table_locks w k)"
proof (cases "table w (from_file f)")
  case None
  then have "table_locks w (from_file f) = []" by (simp add: table_locks_def)
  with assms None show ?thesis
    by (simp add: release_process_locks_for_file_def Let_def lock_retire_def release_owner_def)
next
  case (Some st)
  have "table_locks w' k = table_locks (set_locks w (from_file f) st
      (let ls = lock_retire (locks st) (process owner_pid)
        in if last_ref then lock_retire ls (ofd ptr) else ls)) k"
    using assms Some
    by (cases last_ref) (auto simp: release_process_locks_for_file_def Let_def lock_retire_def
        split_beta split: if_splits)
  with Some show ?thesis by (simp add: Let_def)
qed

section \<open>Mutual exclusion\<close>

definition tables_ok :: "lock_sys \<Rightarrow> bool" where
  "tables_ok s \<longleftrightarrow> (\<forall>k. single_type (table_locks (fst s) k) \<and> exclusive_locks (table_locks (fst s) k))"

lemma retire_ok:
  "single_type ls \<and> exclusive_locks ls \<Longrightarrow> single_type (lock_retire ls ow) \<and> exclusive_locks (lock_retire ls ow)"
  using rl.run_compatible [of ls "[Retire ow]"] unfolding exclusive_locks_def by simp

lemma admit_ok:
  "single_type ls \<and> exclusive_locks ls \<Longrightarrow> first_conflict ls ow req = None \<Longrightarrow>
     single_type (apply_request ls ow req) \<and> exclusive_locks (apply_request ls ow req)"
  using rl.run_compatible [of ls "[Admit (ow, req)]"] unfolding exclusive_locks_def
  by (simp add: lock_admit_def)

lemma tables_ok_step: "lock_step s s' \<Longrightarrow> tables_ok s \<Longrightarrow> tables_ok s'"
proof (induction rule: lock_step.induct)
  case (enter pc t key owner req wait w w' p')
  have *: "single_type (table_locks w k) \<and> exclusive_locks (table_locks w k)" for k
    using enter.prems by (simp add: tables_ok_def)
  show ?case unfolding tables_ok_def
    using * admit_ok [OF * [of key], of owner req] by (simp add: setlk_enter_locks [OF enter(2)])
next
  case (close pc t w f owner_pid file_ptr last_reference w' p')
  have *: "single_type (table_locks w k) \<and> exclusive_locks (table_locks w k)" for k
    using close.prems by (simp add: tables_ok_def)
  show ?case unfolding tables_ok_def
    using * retire_ok by (simp add: release_locks [OF close(2)] Let_def)
qed (simp_all add: tables_ok_def)

section \<open>Wake-ups\<close>

text \<open>
  Queue identities are fresh and not shared between keys; a queue that still holds a task waiting
  for a key is the queue of that key's table entry.
\<close>

definition queues_ok :: "lock_sys \<Rightarrow> bool" where
  "queues_ok s \<longleftrightarrow> (case s of (w, pc) \<Rightarrow>
     (\<forall>k st. table w k = Some st \<longrightarrow> waiters st < next_queue w) \<and>
     (\<forall>q. next_queue w \<le> q \<longrightarrow> queues w q = []) \<and>
     (\<forall>k k' st st'. table w k = Some st \<longrightarrow> table w k' = Some st' \<longrightarrow> waiters st = waiters st' \<longrightarrow> k = k'))"

fun waits_for :: "lock_pc \<Rightarrow> (lock_key \<times> record_owner \<times> lock_request \<times> nat) option" where
  "waits_for (Enqueued k ow req q) = Some (k, ow, req, q)"
| "waits_for (Asleep k ow req q) = Some (k, ow, req, q)"
| "waits_for _ = None"

text \<open>A task in its queue is on the queue of its key, and blocked or about to be woken.\<close>

definition waiter_ok :: "lock_world \<Rightarrow> (nat \<Rightarrow> lock_pc) \<Rightarrow> nat \<Rightarrow> bool" where
  "waiter_ok w pc t \<longleftrightarrow> (case waits_for (pc t) of None \<Rightarrow> True
     | Some (k, ow, req, q) \<Rightarrow> q < next_queue w \<and> (t \<in> set (queues w q) \<longrightarrow>
         (\<exists>st. table w k = Some st \<and> waiters st = q \<and>
            (first_conflict (locks st) ow req \<noteq> None \<or> (\<exists>t'. pc t' = Waking q)))))"

definition wakeups_ok :: "lock_sys \<Rightarrow> bool" where
  "wakeups_ok s \<longleftrightarrow> queues_ok s \<and> (\<forall>t. waiter_ok (fst s) (snd s) t)"

lemma waiter_okD:
  "waiter_ok w pc t \<Longrightarrow> waits_for (pc t) = Some (k, ow, req, q) \<Longrightarrow>
     q < next_queue w \<and> (t \<in> set (queues w q) \<longrightarrow>
       (\<exists>st. table w k = Some st \<and> waiters st = q \<and>
          (first_conflict (locks st) ow req \<noteq> None \<or> (\<exists>t'. pc t' = Waking q))))"
  by (simp add: waiter_ok_def)

lemma waiter_okI:
  "(\<And>k ow req q. waits_for (pc t) = Some (k, ow, req, q) \<Longrightarrow> q < next_queue w \<and> (t \<in> set (queues w q) \<longrightarrow>
       (\<exists>st. table w k = Some st \<and> waiters st = q \<and>
          (first_conflict (locks st) ow req \<noteq> None \<or> (\<exists>t'. pc t' = Waking q))))) \<Longrightarrow> waiter_ok w pc t"
  by (auto simp: waiter_ok_def split: option.splits)

lemma waiter_ok_mono:
  assumes ok: "waiter_ok w pc t" and wf: "waits_for (pc' t) = waits_for (pc t)"
    and "\<And>s q. pc s = Waking q \<Longrightarrow> pc' s = Waking q"
    and "table w' = table w" "next_queue w' = next_queue w"
    and "\<And>q. t \<in> set (queues w' q) \<Longrightarrow> t \<in> set (queues w q)"
  shows "waiter_ok w' pc' t"
proof (rule waiter_okI)
  fix k ow req q assume "waits_for (pc' t) = Some (k, ow, req, q)"
  with wf have "waits_for (pc t) = Some (k, ow, req, q)" by simp
  from waiter_okD [OF ok this] assms(3-6)
  show "q < next_queue w' \<and> (t \<in> set (queues w' q) \<longrightarrow>
       (\<exists>st. table w' k = Some st \<and> waiters st = q \<and>
          (first_conflict (locks st) ow req \<noteq> None \<or> (\<exists>t'. pc' t' = Waking q))))"
    by (metis (no_types, lifting))
qed

text \<open>A task that is not about to wake anybody may move without affecting the others.\<close>

lemma waiter_ok_move:
  assumes "waiter_ok w pc t'" and "t' \<noteq> t" and "\<forall>q. pc t \<noteq> Waking q"
  shows "waiter_ok w (pc(t := p)) t'"
  using assms(2,3) by (intro waiter_ok_mono [OF assms(1)]) auto

lemma wakeups_ok_move:
  assumes "wakeups_ok (w, pc)" and "\<forall>q. pc t \<noteq> Waking q" and "waits_for p = None"
  shows "wakeups_ok (w, pc(t := p))"
proof -
  have "waiter_ok w (pc(t := p)) t'" for t'
    using assms waiter_ok_move [of w pc t' t p]
    by (cases "t' = t") (auto simp: wakeups_ok_def waiter_ok_def)
  with assms(1) show ?thesis by (simp add: wakeups_ok_def queues_ok_def)
qed

text \<open>Taking tasks out of queues keeps the invariant.\<close>

lemma wakeups_ok_shrink:
  assumes "wakeups_ok (w, pc)" and "\<forall>x. set (Q x) \<subseteq> set (queues w x)"
  shows "wakeups_ok (w\<lparr>queues := Q\<rparr>, pc)"
proof -
  have "waiter_ok (w\<lparr>queues := Q\<rparr>) pc t" for t
    by (rule waiter_ok_mono [of w pc]) (use assms in \<open>auto simp: wakeups_ok_def\<close>)
  moreover have "queues_ok (w\<lparr>queues := Q\<rparr>, pc)"
    using assms by (auto simp: wakeups_ok_def queues_ok_def) (metis empty_iff list.set(1) subset_empty set_empty)
  ultimately show ?thesis by (simp add: wakeups_ok_def)
qed

lemma wakeups_ok_pending [simp]: "wakeups_ok (w\<lparr>pending := ps\<rparr>, pc) = wakeups_ok (w, pc)"
proof -
  have "waiter_ok (w\<lparr>pending := ps\<rparr>) pc t = waiter_ok w pc t" for t
    by (cases "waits_for (pc t)") (auto simp: waiter_ok_def)
  then show ?thesis by (simp add: wakeups_ok_def queues_ok_def)
qed

lemma wakeups_ok_entry:
  assumes "wakeups_ok (w, pc)" and "entry_or_new w key = (w1, st)"
  shows "wakeups_ok (w1, pc)"
proof (cases "table w key")
  case (Some st')
  with assms show ?thesis by (simp add: entry_or_new_def)
next
  case None
  have w1: "w1 = w\<lparr>table := (table w)(key \<mapsto> st), next_queue := Suc (next_queue w)\<rparr>"
    and st: "st = state_new (next_queue w)"
    using None assms(2) by (auto simp: entry_or_new_def Let_def)
  have "waiter_ok w1 pc t" for t
  proof (rule waiter_okI)
    fix k ow req q assume wf: "waits_for (pc t) = Some (k, ow, req, q)"
    have "waiter_ok w pc t" using assms(1) by (simp add: wakeups_ok_def)
    from waiter_okD [OF this wf] None
    show "q < next_queue w1 \<and> (t \<in> set (queues w1 q) \<longrightarrow>
       (\<exists>st. table w1 k = Some st \<and> waiters st = q \<and>
          (first_conflict (locks st) ow req \<noteq> None \<or> (\<exists>t'. pc t' = Waking q))))"
      unfolding w1 by (cases "k = key") auto
  qed
  moreover have "queues_ok (w1, pc)"
  proof -
    have "\<forall>k st. table w k = Some st \<longrightarrow> waiters st < next_queue w"
      using assms(1) by (simp add: wakeups_ok_def queues_ok_def)
    then have "table w k = Some st' \<Longrightarrow> waiters st' \<noteq> next_queue w" "table w k = Some st' \<Longrightarrow> waiters st' < Suc (next_queue w)"
      for k st' by (metis less_irrefl, metis less_SucI)
    with assms(1) show ?thesis
      unfolding w1 st wakeups_ok_def queues_ok_def state_new_def
      by (auto split: if_splits) (metis less_irrefl)
  qed
  ultimately show ?thesis by (simp add: wakeups_ok_def)
qed

text \<open>
  The common tail of a grant and of a release: new locks for the key, then clean-up of an empty entry
  and the obligation to wake a queue that is not empty.
\<close>

lemma wakeups_ok_relock:
  assumes ok: "wakeups_ok (w, pc)" and st: "table w key = Some st"
    and nw: "\<forall>q. pc t \<noteq> Waking q"
  shows "wakeups_ok (cleanup_empty_state (set_locks w key st ls) key,
           pc(t := wake_pc (set_locks w key st ls) (waiters st)))"
proof -
  let ?w = "set_locks w key st ls"
  let ?v = "cleanup_empty_state ?w key"
  let ?pc = "pc(t := wake_pc ?w (waiters st))"
  have v: "queues ?v = queues w" "next_queue ?v = next_queue w"
    "\<And>k. k \<noteq> key \<Longrightarrow> table ?v k = table w k"
    "queues w (waiters st) \<noteq> [] \<Longrightarrow> table ?v key = Some (st\<lparr>locks := ls\<rparr>)"
    "table ?v key = None \<or> table ?v key = Some (st\<lparr>locks := ls\<rparr>)"
    by (auto simp: cleanup_empty_state_def set_locks_def split: option.splits)
  have "waiter_ok ?v ?pc t'" for t'
  proof (rule waiter_okI)
    fix k ow req q assume wf: "waits_for (?pc t') = Some (k, ow, req, q)"
    have ne: "t' \<noteq> t" using wf by (auto simp: wake_pc_def split: if_splits)
    have "waiter_ok w ?pc t'"
      using ok nw ne waiter_ok_move by (simp add: wakeups_ok_def)
    note old = waiter_okD [OF this wf]
    show "q < next_queue ?v \<and> (t' \<in> set (queues ?v q) \<longrightarrow>
       (\<exists>st. table ?v k = Some st \<and> waiters st = q \<and>
          (first_conflict (locks st) ow req \<noteq> None \<or> (\<exists>t'. ?pc t' = Waking q))))"
    proof (intro conjI impI)
      show "q < next_queue ?v" using old v(2) by simp
      assume inq: "t' \<in> set (queues ?v q)"
      show "\<exists>st. table ?v k = Some st \<and> waiters st = q \<and>
          (first_conflict (locks st) ow req \<noteq> None \<or> (\<exists>t'. ?pc t' = Waking q))"
      proof (cases "k = key")
        case False
        with old inq v(1,3) show ?thesis by simp
      next
        case True
        with old inq v(1) st have q: "waiters st = q" by auto
        then have nonempty: "queues w (waiters st) \<noteq> []" using inq v(1) by auto
        then have "?pc t = Waking q" using q by (simp add: wake_pc_def set_locks_def)
        with v(4) [OF nonempty] q True show ?thesis by auto
      qed
    qed
  qed
  moreover have "queues_ok (?v, ?pc)"
    using ok st v by (auto simp: cleanup_empty_state_def set_locks_def wakeups_ok_def queues_ok_def split: if_splits)
  ultimately show ?thesis by (simp add: wakeups_ok_def)
qed

lemma wakeups_ok_enqueue:
  assumes ok: "wakeups_ok (w, pc)" and st: "table w key = Some st" and pc: "pc t = Locking key owner req wait"
    and c: "first_conflict (locks st) owner req \<noteq> None"
  shows "wakeups_ok (prepare_to_wait w (waiters st) t, pc(t := Enqueued key owner req (waiters st)))"
proof -
  let ?v = "prepare_to_wait w (waiters st) t"
  let ?pc = "pc(t := Enqueued key owner req (waiters st))"
  have v: "table ?v = table w" "next_queue ?v = next_queue w"
    "\<And>t' q. t' \<noteq> t \<Longrightarrow> t' \<in> set (queues ?v q) \<longleftrightarrow> t' \<in> set (queues w q)"
    by (auto simp: prepare_to_wait_def split: if_splits)
  have lt: "waiters st < next_queue w" using ok st by (simp add: wakeups_ok_def queues_ok_def)
  have "waiter_ok ?v ?pc t'" for t'
  proof (cases "t' = t")
    case True
    with lt st c v(1,2) show ?thesis by (simp add: waiter_ok_def)
  next
    case False
    have "waiter_ok w ?pc t'" using ok pc False by (intro waiter_ok_move) (simp_all add: wakeups_ok_def)
    then show ?thesis by (rule waiter_ok_mono) (use v False in auto)
  qed
  moreover have "queues_ok (?v, ?pc)"
    using ok lt by (auto simp: wakeups_ok_def queues_ok_def prepare_to_wait_def)
  ultimately show ?thesis by (simp add: wakeups_ok_def)
qed

lemma wakeups_ok_enter:
  assumes ok: "wakeups_ok (w, pc)" and pc: "pc t = Locking key owner req wait"
    and e: "setlk_enter w t key owner req wait = (w', p')"
  shows "wakeups_ok (w', pc(t := p'))"
proof -
  obtain w1 st where en: "entry_or_new w key = (w1, st)" by fastforce
  have ok1: "wakeups_ok (w1, pc)" using wakeups_ok_entry [OF ok en] .
  have st: "table w1 key = Some st" using entry_or_new_locks [OF en] by blast
  show ?thesis
  proof (cases "first_conflict (locks st) owner req = None")
    case True
    then show ?thesis
      using e wakeups_ok_relock [OF ok1 st, of t] pc by (auto simp: setlk_enter_def en Let_def)
  next
    case False
    show ?thesis
    proof (cases wait)
      case True
      have "wakeups_ok (w1\<lparr>pending := ps\<rparr>, pc)" for ps using ok1 by simp
      moreover have "table (w1\<lparr>pending := ps\<rparr>) key = Some st" for ps using st by simp
      ultimately show ?thesis
        using e True False wakeups_ok_enqueue [where key = key and t = t and owner = owner and req = req and wait = wait and pc = pc and st = st] pc by (auto simp: setlk_enter_def en Let_def)
    next
      case nowait: False
      with e False have "w' = w1" "p' = Failed EAGAIN" by (auto simp: setlk_enter_def en Let_def)
      with wakeups_ok_move [OF ok1, of t "Failed EAGAIN"] pc show ?thesis by simp
    qed
  qed
qed

lemma wakeups_ok_close:
  assumes ok: "wakeups_ok (w, pc)" and pc: "\<forall>q. pc t \<noteq> Waking q"
    and e: "release_process_locks_for_file w f owner_pid ptr last_ref = (w', p')"
  shows "wakeups_ok (w', pc(t := p'))"
proof (cases "table w (from_file f)")
  case None
  with e wakeups_ok_move [OF ok pc, of Idle] show ?thesis
    by (auto simp: release_process_locks_for_file_def)
next
  case (Some st)
  define ls1 where "ls1 = fst (release_owner (locks st) (process owner_pid))"
  define ls2 where "ls2 = (if last_ref then fst (release_owner ls1 (ofd ptr)) else ls1)"
  let ?rel = "snd (release_owner (locks st) (process owner_pid)) \<or> last_ref \<and> snd (release_owner ls1 (ofd ptr))"
  have keep: "fst (release_owner ls ow) = ls" if "\<not> snd (release_owner ls ow)" for ls ow
    using that unfolding release_owner_snd by (simp add: release_owner_def Let_def)
  have res: "(w', p') = (if \<not> ?rel then (set_locks w (from_file f) st ls2, Idle)
      else (cleanup_empty_state (set_locks w (from_file f) st ls2) (from_file f),
            wake_pc (set_locks w (from_file f) st ls2) (waiters st)))"
    using e Some by (auto simp: release_process_locks_for_file_def Let_def ls1_def ls2_def split_beta)
  show ?thesis
  proof (cases ?rel)
    case True
    then show ?thesis using res wakeups_ok_relock [OF ok Some pc, of ls2] by simp
  next
    case False
    have "ls1 = locks st" unfolding ls1_def using False keep by blast
    then have "ls2 = locks st" unfolding ls2_def using False keep by auto
    then have "set_locks w (from_file f) st ls2 = w" using Some by (simp add: set_locks_def fun_upd_idem)
    with False res wakeups_ok_move [OF ok pc, of Idle] show ?thesis by simp
  qed
qed

lemma wakeups_ok_recheck:
  assumes ok: "wakeups_ok (w, pc)" and pc: "pc t = Enqueued key owner req q"
  shows "wakeups_ok (w, pc(t := setlk_recheck w key owner req q i))"
proof (cases "setlk_recheck w key owner req q i = Asleep key owner req q")
  case True
  have "waiter_ok w (pc(t := Asleep key owner req q)) t'" for t'
  proof (cases "t' = t")
    case False
    then show ?thesis using ok pc by (intro waiter_ok_move) (simp_all add: wakeups_ok_def)
  next
    case eq: True
    have "waiter_ok w pc t" using ok by (simp add: wakeups_ok_def)
    then show ?thesis unfolding eq by (rule waiter_ok_mono) (use pc in auto)
  qed
  with True ok show ?thesis by (simp add: wakeups_ok_def queues_ok_def)
next
  case False
  then have "waits_for (setlk_recheck w key owner req q i) = None"
    by (simp add: setlk_recheck_def Let_def split: if_splits)
  with ok pc show ?thesis by (intro wakeups_ok_move) simp_all
qed

lemma wakeups_ok_wake:
  assumes ok: "wakeups_ok (w, pc)" and pc: "pc t = Waking q"
  shows "wakeups_ok (wake_all w q, pc(t := Idle))"
proof -
  have ok': "wakeups_ok (wake_all w q, pc)"
    unfolding wake_all_def by (rule wakeups_ok_shrink [OF ok]) simp
  have "waiter_ok (wake_all w q) (pc(t := Idle)) t'" for t'
  proof (rule waiter_okI)
    fix k ow req q' assume wf: "waits_for ((pc(t := Idle)) t') = Some (k, ow, req, q')"
    then have "waits_for (pc t') = Some (k, ow, req, q')" by (auto split: if_splits)
    moreover have "waiter_ok (wake_all w q) pc t'" using ok' by (simp add: wakeups_ok_def)
    ultimately have old: "q' < next_queue (wake_all w q) \<and> (t' \<in> set (queues (wake_all w q) q') \<longrightarrow>
       (\<exists>st. table (wake_all w q) k = Some st \<and> waiters st = q' \<and>
          (first_conflict (locks st) ow req \<noteq> None \<or> (\<exists>t'. pc t' = Waking q'))))"
      using waiter_okD by blast
    have "q' \<noteq> q" if "t' \<in> set (queues (wake_all w q) q')" using that by (auto simp: wake_all_def)
    then have "(\<exists>s. pc s = Waking q') \<Longrightarrow> t' \<in> set (queues (wake_all w q) q') \<Longrightarrow>
        \<exists>s. (pc(t := Idle)) s = Waking q'"
      using pc by (metis fun_upd_other lock_pc.inject(6))
    with old show "q' < next_queue (wake_all w q) \<and> (t' \<in> set (queues (wake_all w q) q') \<longrightarrow>
       (\<exists>st. table (wake_all w q) k = Some st \<and> waiters st = q' \<and>
          (first_conflict (locks st) ow req \<noteq> None \<or> (\<exists>t''. (pc(t := Idle)) t'' = Waking q'))))" by blast
  qed
  with ok' show ?thesis by (simp add: wakeups_ok_def queues_ok_def)
qed

lemma wakeups_ok_step: "lock_step s s' \<Longrightarrow> wakeups_ok s \<Longrightarrow> wakeups_ok s'"
proof (induction rule: lock_step.induct)
  case (call pc t w key owner req wait)
  then show ?case by (intro wakeups_ok_move) auto
next
  case (enter pc t key owner req wait w w' p')
  then show ?case using wakeups_ok_enter by blast
next
  case (recheck pc t key owner req q w interrupted)
  then show ?case using wakeups_ok_recheck by blast
next
  case (resume pc t key owner req q w)
  then show ?case by (intro wakeups_ok_move) auto
next
  case (leave pc t key owner req q e w)
  then have "wakeups_ok (w, pc(t := Unpending key owner req e))" by (intro wakeups_ok_move) auto
  then show ?case unfolding finish_wait_def by (rule wakeups_ok_shrink) auto
next
  case (unpend pc t key owner req e w)
  then have "wakeups_ok (w, pc(t := after_leave key owner req e))"
    by (intro wakeups_ok_move) (auto simp: after_leave_def split: option.splits)
  then show ?case by (simp add: setlk_unpend_def)
next
  case (wake pc t q w)
  then show ?case using wakeups_ok_wake by blast
next
  case (close pc t w f owner_pid file_ptr last_reference w' p')
  then have "\<forall>q. pc t \<noteq> Waking q" by auto
  with close wakeups_ok_close show ?case by blast
qed

interpretation lk_excl: inductive_invariant lock_init lock_step tables_ok
proof unfold_locales
  fix s assume "lock_init s"
  then show "tables_ok s"
    by (auto simp: lock_init_def tables_ok_def table_locks_def single_type_def exclusive_locks_def
        holdings_def compatible_table_def)
qed (use tables_ok_step in blast)

interpretation lk_wake: inductive_invariant lock_init lock_step wakeups_ok
proof unfold_locales
  fix s assume "lock_init s"
  then show "wakeups_ok s"
    by (auto simp: lock_init_def wakeups_ok_def queues_ok_def waiter_ok_def)
qed (use wakeups_ok_step in blast)

section \<open>The deadlock walk\<close>

text \<open>The owner that the pending request of an owner waits for.\<close>

definition blocker ::
  "(lock_key \<Rightarrow> record_lock_state option) \<Rightarrow> (record_owner \<times> pending_lock) list \<Rightarrow> record_owner \<Rightarrow> record_owner option" where
  "blocker tb ps ow = Option.bind (map_of ps ow) (\<lambda>p.
     Option.bind (tb (pd_key p)) (\<lambda>st. first_conflict_owner (locks st) ow (pd_req p)))"

lemma deadlock_walk_sound:
  "deadlock_walk tb ps wt stack seen \<Longrightarrow> \<exists>x\<in>set stack. (\<lambda>a b. blocker tb ps a = Some b)\<^sup>*\<^sup>* x wt"
proof (induction tb ps wt stack seen rule: deadlock_walk.induct)
  case (2 tb ps wt ow stack seen)
  show ?case
  proof (cases "ow = wt \<or> ow \<in> seen \<or> blocker tb ps ow = None")
    case True
    with 2 show ?thesis by (auto simp: blocker_def split: if_splits option.splits bind_splits)
  next
    case False
    then obtain p nxt where p: "map_of ps ow = Some p" and b: "blocker tb ps ow = Some nxt"
      and n: "Option.bind (tb (pd_key p)) (\<lambda>st. first_conflict_owner (locks st) ow (pd_req p)) = Some nxt"
      by (auto simp: blocker_def split: bind_splits)
    have "deadlock_walk tb ps wt (nxt # stack) (insert ow seen)" using "2.prems" False p n by simp
    from "2.IH"(4) [OF _ _ p n this] False b show ?thesis
      by (auto intro: converse_rtranclp_into_rtranclp)
  qed
qed simp

text \<open>When the walk answers no, the owners it saw are closed under blocking and lack the waiter.\<close>

lemma deadlock_walk_complete:
  assumes "\<not> deadlock_walk tb ps wt stack seen" and "wt \<notin> seen"
    and "\<And>a b. a \<in> seen \<Longrightarrow> blocker tb ps a = Some b \<Longrightarrow> b \<in> seen \<union> set stack"
  shows "\<exists>S. seen \<union> set stack \<subseteq> S \<and> wt \<notin> S \<and> (\<forall>a\<in>S. \<forall>b. blocker tb ps a = Some b \<longrightarrow> b \<in> S)"
  using assms
proof (induction tb ps wt stack seen rule: deadlock_walk.induct)
  case (1 tb ps wt seen)
  then show ?case by auto
next
  case (2 tb ps wt ow stack seen)
  have ne: "ow \<noteq> wt" using "2.prems"(1) by auto
  show ?case
  proof (cases "ow \<in> seen")
    case True
    with "2.IH"(1) [OF ne True] "2.prems" ne show ?thesis by (auto simp: insert_absorb)
  next
    case False
    show ?thesis
    proof (cases "blocker tb ps ow")
      case None
      then have "\<not> deadlock_walk tb ps wt stack (insert ow seen)"
        using "2.prems"(1) ne False by (auto simp: blocker_def split: option.splits)
      moreover have "\<And>a b. a \<in> insert ow seen \<Longrightarrow> blocker tb ps a = Some b \<Longrightarrow> b \<in> insert ow seen \<union> set stack"
        using "2.prems"(3) None by fastforce
      moreover have "wt \<notin> insert ow seen" using "2.prems"(2) ne by auto
      ultimately have "\<exists>S. insert ow seen \<union> set stack \<subseteq> S \<and> wt \<notin> S \<and>
          (\<forall>a\<in>S. \<forall>b. blocker tb ps a = Some b \<longrightarrow> b \<in> S)"
        using "2.IH"(2) [OF ne False] "2.IH"(3) [OF ne False] None
        by (cases "map_of ps ow") (auto simp: blocker_def)
      then show ?thesis by auto
    next
      case (Some nxt)
      then obtain p where p: "map_of ps ow = Some p"
        and n: "Option.bind (tb (pd_key p)) (\<lambda>st. first_conflict_owner (locks st) ow (pd_req p)) = Some nxt"
        by (auto simp: blocker_def split: bind_splits)
      have "\<not> deadlock_walk tb ps wt (nxt # stack) (insert ow seen)"
        using "2.prems"(1) ne False p n by simp
      moreover have "\<And>a b. a \<in> insert ow seen \<Longrightarrow> blocker tb ps a = Some b \<Longrightarrow>
          b \<in> insert ow seen \<union> set (nxt # stack)"
        using "2.prems"(3) Some by fastforce
      moreover have "wt \<notin> insert ow seen" using "2.prems"(2) ne by auto
      ultimately show ?thesis using "2.IH"(4) [OF ne False p n] by auto
    qed
  qed
qed

lemma closed_rtranclp:
  "(\<lambda>a b. f a = Some b)\<^sup>*\<^sup>* x y \<Longrightarrow> x \<in> S \<Longrightarrow> \<forall>a\<in>S. \<forall>b. f a = Some b \<longrightarrow> b \<in> S \<Longrightarrow> y \<in> S"
  by (induction rule: rtranclp_induct) auto

lemma deadlock_walk_iff:
  "deadlock_walk tb ps wt [x] {} \<longleftrightarrow> (\<lambda>a b. blocker tb ps a = Some b)\<^sup>*\<^sup>* x wt"
proof
  assume "deadlock_walk tb ps wt [x] {}"
  from deadlock_walk_sound [OF this] show "(\<lambda>a b. blocker tb ps a = Some b)\<^sup>*\<^sup>* x wt" by simp
next
  assume r: "(\<lambda>a b. blocker tb ps a = Some b)\<^sup>*\<^sup>* x wt"
  show "deadlock_walk tb ps wt [x] {}"
  proof (rule ccontr)
    assume "\<not> deadlock_walk tb ps wt [x] {}"
    from deadlock_walk_complete [OF this] obtain S where
      "x \<in> S" "wt \<notin> S" "\<forall>a\<in>S. \<forall>b. blocker tb ps a = Some b \<longrightarrow> b \<in> S" by auto
    with closed_rtranclp [OF r] show False by blast
  qed
qed

end
