(* ===== verification/RecordLockProps.thy ===== *)
theory RecordLockProps
  imports RecordLockSystem
begin

text \<open>
  The properties of record locks: what a request does byte by byte, mutual exclusion and wake-ups
  over all interleavings, the conflict query, deadlock detection and the parsing of ranges.
\<close>

section \<open>Helper lemmas\<close>

lemma pid_round_trip:
  assumes "- (2 ^ 31) \<le> p" "p < 2 ^ 31"
  shows "pid_or_neg_one (process p) = p"
proof -
  have "sint (word_of_int p :: 32 word) = p"
    using assms by (simp add: sint_sbintrunc' signed_take_bit_int_eq_self)
  then show ?thesis by (simp add: pid_or_neg_one_def process_def)
qed

lemma setlk_enter_grants:
  assumes "setlk_enter w t key owner req wait = (w', p')" "first_conflict (table_locks w key) owner req = None"
  shows "p' = Idle \<or> (\<exists>q. p' = Waking q)"
proof -
  obtain w1 st where e: "entry_or_new w key = (w1, st)" by fastforce
  then show ?thesis
    using assms entry_or_new_locks [OF e] by (auto simp: setlk_enter_def wake_pc_def Let_def split: if_splits)
qed

lemma setlk_enter_refuses_iff:
  "snd (setlk_enter w t key owner req False) = Failed EAGAIN \<longleftrightarrow>
     first_conflict (table_locks w key) owner req \<noteq> None"
proof -
  obtain w1 st where e: "entry_or_new w key = (w1, st)" by fastforce
  with entry_or_new_locks [OF e] show ?thesis
    by (simp add: setlk_enter_def Let_def wake_pc_def)
qed

lemma getlk_inner_first_conflict:
  "getlk_inner w f owner req = first_conflict (table_locks w (from_file f)) owner req"
proof (cases "rq_type req = Unlock")
  case True
  then have "first_conflict (table_locks w (from_file f)) owner req = None"
    by (simp add: first_conflict_None_iff lock_conflicts_def)
  with True show ?thesis by (simp add: getlk_inner_def)
next
  case False
  then show ?thesis
    by (simp add: getlk_inner_def table_locks_def first_conflict_def split: option.splits)
qed

lemma first_conflict_SomeD:
  assumes "first_conflict ls owner req = Some c"
  shows "\<exists>l\<in>set ls. lock_conflicts l owner req \<and> c = conflict_view l \<and>
     (\<forall>m\<in>set ls. lock_conflicts m owner req \<longrightarrow> lk_start l \<le> lk_start m)"
proof -
  obtain l where l: "min_by_key lk_start (filter (\<lambda>l. lock_conflicts l owner req) ls) = Some l"
    and c: "c = conflict_view l" using assms by (auto simp: first_conflict_def)
  from min_by_key_Some [OF l] c show ?thesis by auto
qed

lemma clipped_conflict_span:
  "in_span (cf_start (clipped_conflict (conflict_view l) req)) (cf_end (clipped_conflict (conflict_view l) req)) x
     \<longleftrightarrow> covers l x \<and> in_request req x"
  by (cases "lk_end l"; cases "rq_end req")
    (auto simp: clipped_conflict_def conflict_view_def covers_def in_request_def in_span_def)

section \<open>A concrete run\<close>

definition file_a :: file_view where
  "file_a = \<lparr>fv_fs_id = 1, fv_ino = 7, fv_pos = 0, fv_size = 100\<rparr>"

definition start_world :: lock_world where
  "start_world = \<lparr>table = (\<lambda>_. None), queues = (\<lambda>_. []), next_queue = 0, pending = []\<rparr>"

definition world_with :: "record_lock list \<Rightarrow> lock_world" where
  "world_with ls = \<lparr>table = (\<lambda>_. None)(from_file file_a \<mapsto> \<lparr>locks = ls, waiters = 0\<rparr>), queues = (\<lambda>_. []),
     next_queue = 1, pending = []\<rparr>"

definition lock_of :: "nat \<Rightarrow> nat option \<Rightarrow> lock_type \<Rightarrow> record_owner \<Rightarrow> record_lock" where
  "lock_of s e ty ow = \<lparr>lk_start = s, lk_end = e, lk_type = ty, lk_owner = ow\<rparr>"

lemmas run_defs = setlk_enter_def entry_or_new_def set_locks_def cleanup_empty_state_def wake_pc_def
  first_conflict_def apply_request_def normalize_def lock_nonempty_def lock_conflicts_def
  lock_overlaps_def state_new_def

lemma enter_first:
  "setlk_enter start_world t (from_file file_a) ow (request_new ty 0 10) wait =
     (if ty = Unlock then (start_world\<lparr>next_queue := 1\<rparr>, Idle) else (world_with [lock_of 0 (Some 10) ty ow], Idle))"
  by (cases ty) (simp_all add: run_defs start_world_def world_with_def lock_of_def request_new_def saturating_add_def
      Let_def fun_upd_idem)

lemma run_to_locked:
  assumes "ty \<noteq> Unlock"
  shows "reachable lock_init lock_step (world_with [lock_of 0 (Some 10) ty ow], (\<lambda>_. Idle))"
proof -
  let ?req = "request_new ty 0 10"
  have "reachable lock_init lock_step (start_world, (\<lambda>_. Idle))"
    by (rule reachable.intros) (simp add: lock_init_def start_world_def)
  then have "reachable lock_init lock_step (start_world, (\<lambda>_. Idle)(0 := Locking (from_file file_a) ow ?req True))"
    by (rule reachable.intros) (rule lock_step.call, simp)
  then have "reachable lock_init lock_step (world_with [lock_of 0 (Some 10) ty ow],
      ((\<lambda>_. Idle)(0 := Locking (from_file file_a) ow ?req True))(0 := Idle))"
    by (rule reachable.intros) (rule lock_step.enter [where t = 0], use assms enter_first in auto)
  then show ?thesis by (simp add: fun_upd_idem)
qed

lemma two_owners [simp]: "process 1 \<noteq> process 2" "process 2 \<noteq> process 1"
  by (simp_all add: process_def)

definition two_readers :: "record_lock list" where
  "two_readers = [lock_of 0 (Some 10) Read (process 1), lock_of 0 (Some 10) Read (process 2)]"

lemma process_order: "process 1 \<le> process 2" "\<not> process 2 \<le> process 1"
  by (simp_all add: process_def less_eq_record_owner_def)

lemma enter_second:
  "setlk_enter (world_with [lock_of 0 (Some 10) Read (process 1)]) 1 (from_file file_a) (process 2)
     (request_new Read 0 10) True = (world_with two_readers, Idle)"
  by (simp add: run_defs world_with_def two_readers_def lock_of_def request_new_def saturating_add_def
      Let_def process_order less_le_not_le)

lemma run_to_two_readers: "reachable lock_init lock_step (world_with two_readers, (\<lambda>_. Idle))"
proof -
  let ?pc = "(\<lambda>_. Idle)(1 := Locking (from_file file_a) (process 2) (request_new Read 0 10) True)"
  have "reachable lock_init lock_step (world_with [lock_of 0 (Some 10) Read (process 1)], (\<lambda>_. Idle))"
    by (rule run_to_locked) simp
  then have "reachable lock_init lock_step (world_with [lock_of 0 (Some 10) Read (process 1)], ?pc)"
    by (rule reachable.intros) (rule lock_step.call, simp)
  then have "reachable lock_init lock_step (world_with two_readers, ?pc(1 := Idle))"
    by (rule reachable.intros) (rule lock_step.enter [where t = 1], use enter_second in auto)
  then show ?thesis by (simp add: fun_upd_idem)
qed

definition write_req :: lock_request where
  "write_req = request_new Write 0 10"

definition sleepy_world :: lock_world where
  "sleepy_world = (world_with [lock_of 0 (Some 10) Write (process 1)])
     \<lparr>queues := (\<lambda>_. [])(0 := [1]), pending := [(process 2, \<lparr>pd_key = from_file file_a, pd_req = write_req\<rparr>)]\<rparr>"

lemma sleepy_conflict:
  "first_conflict [lock_of 0 (Some 10) Write (process 1)] (process 2) write_req \<noteq> None"
  by (simp add: first_conflict_def lock_conflicts_def lock_overlaps_def lock_of_def write_req_def
      request_new_def saturating_add_def)

lemma sleepy_no_deadlock: "\<not> would_deadlock sleepy_world (process 2) (from_file file_a) write_req"
proof -
  have "first_conflict_owner [lock_of 0 (Some 10) Write (process 1)] (process 2) write_req = Some (process 1)"
    by (simp add: first_conflict_owner_def lock_conflicts_def lock_overlaps_def lock_of_def write_req_def
        request_new_def saturating_add_def)
  then show ?thesis by (simp add: would_deadlock_def sleepy_world_def world_with_def)
qed

lemma run_to_asleep:
  "reachable lock_init lock_step (sleepy_world, (\<lambda>_. Idle)(1 := Asleep (from_file file_a) (process 2) write_req 0))"
proof -
  let ?w = "world_with [lock_of 0 (Some 10) Write (process 1)]"
  let ?pc = "(\<lambda>_. Idle)(1 := Locking (from_file file_a) (process 2) write_req True)"
  obtain y where y: "first_conflict [lock_of 0 (Some 10) Write (process 1)] (process 2) write_req = Some y"
    using sleepy_conflict by blast
  have e: "setlk_enter ?w 1 (from_file file_a) (process 2) write_req True =
      (sleepy_world, Enqueued (from_file file_a) (process 2) write_req 0)"
    by (simp add: y setlk_enter_def entry_or_new_def world_with_def sleepy_world_def prepare_to_wait_def
        pending_insert_def)
  have r: "setlk_recheck sleepy_world (from_file file_a) (process 2) write_req 0 False =
      Asleep (from_file file_a) (process 2) write_req 0"
    using sleepy_no_deadlock
    by (simp add: y setlk_recheck_def sleepy_world_def world_with_def)
  have "reachable lock_init lock_step (?w, (\<lambda>_. Idle))" by (rule run_to_locked) simp
  then have "reachable lock_init lock_step (?w, ?pc)"
    by (rule reachable.intros) (rule lock_step.call, simp)
  then have "reachable lock_init lock_step (sleepy_world,
      ?pc(1 := Enqueued (from_file file_a) (process 2) write_req 0))"
    by (rule reachable.intros) (rule lock_step.enter [where t = 1], use e in auto)
  then have "reachable lock_init lock_step (sleepy_world,
      (?pc(1 := Enqueued (from_file file_a) (process 2) write_req 0))
        (1 := setlk_recheck sleepy_world (from_file file_a) (process 2) write_req 0 False))"
    by (rule reachable.intros) (rule lock_step.recheck [where t = 1], simp)
  then show ?thesis unfolding r by simp
qed

section \<open>Properties\<close>

text \<open>
  C12. A granted request replaces exactly what its owner holds on the requested bytes: inside the
  range the owner holds the requested type and nothing else (nothing at all after an unlock), outside
  it and for every other owner nothing changes. The new list is in normal form: sorted by start, no
  empty lock, and locks of one owner and type neither overlap nor touch.
\<close>

theorem apply_request_correct:
  "held (apply_request ls owner req) ow ty x =
     (if ow = owner \<and> in_request req x then ty = rq_type req \<and> ty \<noteq> Unlock else held ls ow ty x) \<and>
   normal_form (apply_request ls owner req)"
  unfolding held_apply_request by (simp add: apply_request_def normalize_normal_form)

text \<open>
  C13. Mutual exclusion over every interleaving of \<open>setlk\<close> calls and closes: two different owners
  never hold the same byte of a file unless both hold it for reading, and one owner never holds a
  byte with two types.
\<close>

theorem record_locks_exclusive:
  assumes "reachable lock_init lock_step (w, pc)" and "table w key = Some st"
    and "held (locks st) a ta x" and "held (locks st) b tb x"
  shows "(a \<noteq> b \<longrightarrow> ta = Read \<and> tb = Read) \<and> (a = b \<longrightarrow> ta = tb)"
proof -
  have ok: "single_type (locks st)" "exclusive_locks (locks st)"
    using lk_excl.reachable_inv [OF assms(1)] assms(2) unfolding tables_ok_def
    by (metis fst_conv table_locks_Some)+
  have t: "ta \<noteq> Unlock" "tb \<noteq> Unlock" using ok(1) assms(3,4) unfolding single_type_def by blast+
  have "\<not> holding_clash (a, ta, x) (b, tb, x)"
    using ok(2) assms(3,4) unfolding exclusive_locks_def compatible_table_def holdings_def by blast
  with t have "a \<noteq> b \<longrightarrow> ta = Read \<and> tb = Read" by (cases ta; cases tb) auto
  moreover have "a = b \<longrightarrow> ta = tb"
    using ok(1) assms(3,4) t unfolding single_type_def by (cases ta; cases tb) auto
  ultimately show ?thesis by blast
qed

theorem record_locks_exclusive_witness:
  "\<exists>w pc st. reachable lock_init lock_step (w, pc) \<and> table w (from_file file_a) = Some st \<and>
     held (locks st) (process 1) Read 5 \<and> held (locks st) (process 2) Read 5 \<and>
     \<not> held (locks st) (process 1) Write 5"
proof -
  have t: "table (world_with two_readers) (from_file file_a) = Some \<lparr>locks = two_readers, waiters = 0\<rparr>"
    by (simp add: world_with_def)
  have h: "held two_readers (process 1) Read 5" "held two_readers (process 2) Read 5"
    by (simp_all add: two_readers_def lock_of_def covers_def in_span_def)
  have "\<not> held two_readers (process 1) Write 5"
    using record_locks_exclusive [OF run_to_two_readers t, of "process 1" Write 5 "process 2" Read] h by auto
  with h t show ?thesis by (intro exI conjI) (rule run_to_two_readers, auto)
qed

text \<open>
  C14. No wake-up is lost: in every interleaving, a task asleep in \<open>setlk\<close> that is still in its wait
  queue waits on the queue of the live table entry, and either its request still conflicts with a
  held lock or some task is about to wake that queue.
\<close>

theorem no_lost_wakeup:
  assumes "reachable lock_init lock_step (w, pc)" and "pc t = Asleep key ow req q" and "t \<in> set (queues w q)"
  shows "\<exists>st. table w key = Some st \<and> waiters st = q \<and>
    (first_conflict (locks st) ow req \<noteq> None \<or> (\<exists>t'. pc t' = Waking q))"
proof -
  have "waiter_ok w pc t" using lk_wake.reachable_inv [OF assms(1)] by (simp add: wakeups_ok_def)
  from waiter_okD [OF this, of key ow req q] assms(2,3) show ?thesis by simp
qed

theorem no_lost_wakeup_witness:
  "1 \<in> set (queues sleepy_world 0) \<and> (\<exists>st. table sleepy_world (from_file file_a) = Some st \<and> waiters st = 0 \<and>
    (first_conflict (locks st) (process 2) write_req \<noteq> None \<or>
     (\<exists>t'. ((\<lambda>_. Idle)((1::nat) := Asleep (from_file file_a) (process 2) write_req 0)) t' = Waking 0)))"
proof -
  have q: "1 \<in> set (queues sleepy_world 0)" by (simp add: sleepy_world_def)
  show ?thesis by (rule conjI [OF q], rule no_lost_wakeup [OF run_to_asleep, where t = 1]) (use q in simp_all)
qed

text \<open>
  C15. \<open>F_GETLK\<close> answers truthfully: it reports no lock exactly when a non-blocking \<open>F_SETLK\<close> of the
  same request would not be refused; otherwise it reports the conflicting lock with the lowest start,
  with the pid of a process holder unchanged by the round trip through the owner, and clipping gives
  exactly the bytes that the lock and the request share.
\<close>

theorem getlk_correct:
  "(getlk_inner w f owner req = None \<longleftrightarrow>
      snd (setlk_enter w t (from_file f) owner req False) \<noteq> Failed EAGAIN) \<and>
   (\<forall>c. getlk_inner w f owner req = Some c \<longrightarrow>
      (\<exists>l\<in>set (table_locks w (from_file f)). lock_conflicts l owner req \<and> c = conflict_view l \<and>
         (\<forall>m\<in>set (table_locks w (from_file f)). lock_conflicts m owner req \<longrightarrow> lk_start l \<le> lk_start m) \<and>
         (\<forall>p. - (2 ^ 31) \<le> p \<and> p < 2 ^ 31 \<and> lk_owner l = process p \<longrightarrow> cf_pid c = p) \<and>
         (\<forall>x. in_span (cf_start (clipped_conflict c req)) (cf_end (clipped_conflict c req)) x \<longleftrightarrow>
              covers l x \<and> in_request req x)))"
proof (intro conjI allI impI)
  show "getlk_inner w f owner req = None \<longleftrightarrow>
      snd (setlk_enter w t (from_file f) owner req False) \<noteq> Failed EAGAIN"
    by (simp add: getlk_inner_first_conflict setlk_enter_refuses_iff)
  fix c assume "getlk_inner w f owner req = Some c"
  then obtain l where l: "l\<in>set (table_locks w (from_file f))" "lock_conflicts l owner req" "c = conflict_view l"
    "\<forall>m\<in>set (table_locks w (from_file f)). lock_conflicts m owner req \<longrightarrow> lk_start l \<le> lk_start m"
    using first_conflict_SomeD [of "table_locks w (from_file f)" owner req c]
    by (auto simp: getlk_inner_first_conflict)
  moreover have "\<forall>p. - (2 ^ 31) \<le> p \<and> p < 2 ^ 31 \<and> lk_owner l = process p \<longrightarrow> cf_pid c = p"
    using pid_round_trip by (simp add: l(3) conflict_view_def)
  ultimately show "\<exists>l\<in>set (table_locks w (from_file f)). lock_conflicts l owner req \<and> c = conflict_view l \<and>
         (\<forall>m\<in>set (table_locks w (from_file f)). lock_conflicts m owner req \<longrightarrow> lk_start l \<le> lk_start m) \<and>
         (\<forall>p. - (2 ^ 31) \<le> p \<and> p < 2 ^ 31 \<and> lk_owner l = process p \<longrightarrow> cf_pid c = p) \<and>
         (\<forall>x. in_span (cf_start (clipped_conflict c req)) (cf_end (clipped_conflict c req)) x \<longleftrightarrow>
              covers l x \<and> in_request req x)"
    using clipped_conflict_span by blast
qed

theorem getlk_correct_witness:
  "\<exists>l\<in>set (table_locks sleepy_world (from_file file_a)). lock_conflicts l (process 2) write_req"
proof -
  obtain c where "getlk_inner sleepy_world file_a (process 2) write_req = Some c"
    using sleepy_conflict
    by (auto simp: getlk_inner_first_conflict sleepy_world_def world_with_def table_locks_def)
  from conjunct2 [OF getlk_correct, THEN spec, THEN mp, OF this] show ?thesis
    by (elim bexE conjE) (rule bexI)
qed

text \<open>
  C16. The deadlock walk terminates and is exact for the relation it follows: it reports a deadlock
  exactly when the chain that starts at the first owner blocking the request, and goes from each
  owner to the first owner blocking that owner's pending request, leads back to the waiter.
\<close>

theorem would_deadlock_iff:
  "would_deadlock w waiter key req \<longleftrightarrow>
     (\<exists>first_owner. Option.bind (table w key) (\<lambda>st. first_conflict_owner (locks st) waiter req) = Some first_owner \<and>
        (\<lambda>a b. blocker (table w) (pending w) a = Some b)\<^sup>*\<^sup>* first_owner waiter)"
  unfolding would_deadlock_def deadlock_walk_iff
  by (cases "Option.bind (table w key) (\<lambda>st. first_conflict_owner (locks st) waiter req)") simp_all

text \<open>
  C17. A range given by \<open>whence\<close>, \<open>start\<close> and \<open>len\<close> is parsed to exactly the bytes POSIX assigns to
  it when it lies within the 64-bit offsets: to the end of file for a zero length, backwards from the
  start for a negative one.
\<close>

theorem request_from_parts_correct:
  assumes "whence_base f whence = Some base" and "0 \<le> base + start" "base + start < 2 ^ 64"
    and "0 \<le> base + start + len" "base + start + len < 2 ^ 64"
  shows "\<exists>r. request_from_parts f ty whence start len = Inr r \<and> rq_type r = ty \<and>
    (\<forall>x. in_request r x \<longleftrightarrow>
       (if len = 0 then base + start \<le> int x
        else if len < 0 then base + start + len \<le> int x \<and> int x < base + start
        else base + start \<le> int x \<and> int x < base + start + len))"
proof -
  have a: "i128_checked_add base start = Some (base + start)"
    "i128_checked_add (base + start) len = Some (base + start + len)"
    using assms(2-5) by (simp_all add: i128_checked_add_def)
  have u: "as_u64 (base + start) = nat (base + start)" "as_u64 (base + start + len) = nat (base + start + len)"
    using assms(2-5) by (simp_all add: as_u64_def)
  show ?thesis
    using assms(1,2,4) a u
    by (auto simp: request_from_parts_def order_range_def in_request_def in_span_def max_def
        nat_le_iff zless_nat_eq_int_zless)
qed

theorem request_from_parts_correct_witness:
  "\<exists>r. request_from_parts file_a Write 2 (-10) (-20) = Inr r \<and> rq_type r = Write \<and>
    (\<forall>x. in_request r x \<longleftrightarrow> 70 \<le> int x \<and> int x < 90)"
  using request_from_parts_correct [of file_a 2 100 "-10" "-20" Write]
  by (simp add: whence_base_def file_a_def)

text \<open>
  C18. Beyond the 64-bit offsets the cast of the end wraps. Whenever the start of a positive length lies
  within the 64-bit offsets and the end does not, the range is accepted, with the start as given, but as an
  empty range. A lock request for it that meets no lock of another owner over the first byte is granted,
  on every table and with either wait mode, and nobody holds any byte more or less than before.
\<close>

theorem request_from_parts_wraps:
  assumes "whence_base f whence = Some base" and "0 \<le> base + start" "base + start < 2 ^ 64"
    and "0 < len" "len < 2 ^ 63" "2 ^ 64 \<le> base + start + len"
  shows "\<exists>r. request_from_parts f ty whence start len = Inr r \<and> rq_type r = ty \<and>
    int (rq_start r) = base + start \<and> (\<forall>x. \<not> in_request r x) \<and>
    (\<forall>w task owner wait w' p'. setlk_enter w task (from_file f) owner r wait = (w', p') \<longrightarrow>
       (\<forall>key. held (table_locks w' key) = held (table_locks w key)) \<and>
       ((\<forall>l\<in>set (table_locks w (from_file f)). lk_owner l \<noteq> owner \<longrightarrow> \<not> covers l (rq_start r)) \<longrightarrow>
          p' = Idle \<or> (\<exists>q. p' = Waking q)))"
proof -
  let ?r = "\<lparr>rq_type = ty, rq_start = nat (base + start), rq_end = Some (nat (base + start))\<rparr>"
  have u: "as_u64 (base + start) = nat (base + start)" using assms(2,3) by (simp add: as_u64_def)
  have "(base + start + len) mod 2 ^ 64 = (base + start + len - 2 ^ 64) mod 2 ^ 64" by (simp only: minus_mod_self2)
  also have "\<dots> = base + start + len - 2 ^ 64" using assms(3-6) by (intro mod_pos_pos_trivial) simp_all
  finally have e: "as_u64 (base + start + len) \<le> nat (base + start)" using assms(3-6) by (simp add: as_u64_def)
  have r: "request_from_parts f ty whence start len = Inr ?r"
    using assms u e by (simp add: request_from_parts_def order_range_def i128_checked_add_def max_def)
  have none: "\<not> in_request ?r x" for x by (simp add: in_request_def in_span_def)
  have same: "held (table_locks w' key) = held (table_locks w key)"
    if "setlk_enter w task (from_file f) owner ?r wait = (w', p')" for w task owner wait w' p' key
    by (simp add: setlk_enter_locks [OF that] held_apply_request none fun_eq_iff)
  have grant: "p' = Idle \<or> (\<exists>q. p' = Waking q)"
    if enter: "setlk_enter w task (from_file f) owner ?r wait = (w', p')"
      and free: "\<forall>l\<in>set (table_locks w (from_file f)). lk_owner l \<noteq> owner \<longrightarrow> \<not> covers l (rq_start ?r)"
    for w task owner wait w' p'
  proof -
    have "\<not> lock_conflicts l owner ?r" if "l \<in> set (table_locks w (from_file f))" for l
      using free that by (cases "lk_end l") (auto simp: lock_conflicts_def lock_overlaps_def covers_def in_span_def)
    then show ?thesis by (intro setlk_enter_grants [OF enter]) (simp add: first_conflict_None_iff)
  qed
  show ?thesis using r none assms(2) by (intro exI [of _ ?r]) (auto simp: same dest!: grant)
qed

theorem request_from_parts_wraps_witness:
  "\<exists>r w'. request_from_parts (file_a\<lparr>fv_pos := 2 ^ 63 - 1\<rparr>) Write 1 (2 ^ 63 - 1) (2 ^ 63 - 1) = Inr r \<and>
     rq_type r = Write \<and> int (rq_start r) = 2 ^ 64 - 2 \<and>
     setlk_enter \<lparr>table = (\<lambda>_. None), queues = (\<lambda>_. []), next_queue = 0, pending = []\<rparr> 0
       (from_file (file_a\<lparr>fv_pos := 2 ^ 63 - 1\<rparr>)) (process 1) r False = (w', Idle) \<and>
     (\<forall>key ow ty x. \<not> held (table_locks w' key) ow ty x)"
proof -
  let ?f = "file_a\<lparr>fv_pos := 2 ^ 63 - 1\<rparr>"
  let ?w = "\<lparr>table = (\<lambda>_. None), queues = (\<lambda>_. []), next_queue = 0, pending = []\<rparr>"
  have none: "table_locks ?w key = []" for key by (simp add: table_locks_def)
  obtain r where r: "request_from_parts ?f Write 1 (2 ^ 63 - 1) (2 ^ 63 - 1) = Inr r" "rq_type r = Write"
      "int (rq_start r) = 2 ^ 64 - 2"
    and enter: "\<And>w' p'. setlk_enter ?w 0 (from_file ?f) (process 1) r False = (w', p') \<Longrightarrow>
      (\<forall>key. held (table_locks w' key) = held []) \<and> (p' = Idle \<or> (\<exists>q. p' = Waking q))"
    using request_from_parts_wraps [of ?f 1 "2 ^ 63 - 1" "2 ^ 63 - 1" "2 ^ 63 - 1" Write]
    by (auto simp: whence_base_def none)
  obtain w' p' where e: "setlk_enter ?w 0 (from_file ?f) (process 1) r False = (w', p')" by fastforce
  then have "p' \<noteq> Waking q" for q
    by (auto simp: setlk_enter_def entry_or_new_def set_locks_def wake_pc_def Let_def split: if_splits)
  with r e enter [OF e] show ?thesis by auto
qed

end
