(* ===== verification/Flock.thy ===== *)
theory Flock
  imports Prelude
begin

text \<open>
  BSD advisory locks: \<open>libs/vfs/src/flock.rs\<close>. The owner of a lock is an open file description,
  identified by its address. One step of the model is one critical section of \<open>FLOCKS\<close> or of a wait
  queue; a wait queue is named by its identity and holds task ids.
\<close>

section \<open>Data and state operations\<close>

record flock_key =
  fk_fs_id :: nat
  fk_ino :: nat

record flock_file =
  ff_ptr :: nat
  ff_fs_id :: nat
  ff_ino :: nat

definition flock_from_file :: "flock_file \<Rightarrow> flock_key" where
  "flock_from_file f = \<lparr>fk_fs_id = ff_fs_id f, fk_ino = ff_ino f\<rparr>"

definition flock_from_file_ref :: "flock_file \<Rightarrow> flock_key" where
  "flock_from_file_ref f = \<lparr>fk_fs_id = ff_fs_id f, fk_ino = ff_ino f\<rparr>"

datatype flock_kind = Shared | Exclusive

record flock_owner =
  fo_ptr :: nat
  fo_kind :: flock_kind

record flock_state =
  owners :: "flock_owner list"
  fl_waiters :: nat

definition flock_state_new :: "nat \<Rightarrow> flock_state" where
  "flock_state_new q = \<lparr>owners = [], fl_waiters = q\<rparr>"

definition flock_compatible :: "flock_owner list \<Rightarrow> nat \<Rightarrow> flock_kind \<Rightarrow> bool" where
  "flock_compatible os owner wanted =
     list_all (\<lambda>e. fo_ptr e = owner \<or> (fo_kind e, wanted) = (Shared, Shared)) os"

fun set_owner :: "flock_owner list \<Rightarrow> nat \<Rightarrow> flock_kind \<Rightarrow> flock_owner list" where
  "set_owner [] owner wanted = [\<lparr>fo_ptr = owner, fo_kind = wanted\<rparr>]"
| "set_owner (e # os) owner wanted =
     (if fo_ptr e = owner then e\<lparr>fo_kind := wanted\<rparr> # os else e # set_owner os owner wanted)"

definition remove_owner :: "flock_owner list \<Rightarrow> nat \<Rightarrow> flock_owner list \<times> bool" where
  "remove_owner os owner =
     (let kept = filter (\<lambda>e. fo_ptr e \<noteq> owner) os in (kept, length os \<noteq> length kept))"

section \<open>The table and the blocking loop\<close>

record flock_world =
  flocks :: "flock_key \<Rightarrow> flock_state option"
  fl_queues :: "nat \<Rightarrow> nat list"
  fl_next :: nat

datatype flock_pc =
    FlIdle
  | FlTop flock_key nat flock_kind bool
  | FlEnqueued flock_key nat flock_kind nat
  | FlAsleep flock_key nat flock_kind nat
  | FlLeaving flock_key nat flock_kind nat "errno option"
  | FlWaking nat
  | FlFailed errno

definition wanted_kind :: "bool \<Rightarrow> flock_kind" where
  "wanted_kind exclusive = (if exclusive then Exclusive else Shared)"

definition flock :: "flock_file \<Rightarrow> bool \<Rightarrow> bool \<Rightarrow> flock_pc" where
  "flock f exclusive nonblock = FlTop (flock_from_file f) (ff_ptr f) (wanted_kind exclusive) nonblock"

definition flock_entry :: "flock_world \<Rightarrow> flock_key \<Rightarrow> flock_world \<times> flock_state" where
  "flock_entry w key =
     (case flocks w key of
        Some st \<Rightarrow> (w, st)
      | None \<Rightarrow> (let st = flock_state_new (fl_next w)
                 in (w\<lparr>flocks := (flocks w)(key \<mapsto> st), fl_next := Suc (fl_next w)\<rparr>, st)))"

definition flock_enter ::
  "flock_world \<Rightarrow> nat \<Rightarrow> flock_key \<Rightarrow> nat \<Rightarrow> flock_kind \<Rightarrow> bool \<Rightarrow> flock_world \<times> flock_pc" where
  "flock_enter w task key owner wanted nonblock =
     (let (w1, st) = flock_entry w key in
      if flock_compatible (owners st) owner wanted then
        (w1\<lparr>flocks := (flocks w1)(key \<mapsto> st\<lparr>owners := set_owner (owners st) owner wanted\<rparr>)\<rparr>, FlIdle)
      else if nonblock then (w1, FlFailed EAGAIN)
      else
        (w1\<lparr>fl_queues := (fl_queues w1)(fl_waiters st :=
             (if task \<in> set (fl_queues w1 (fl_waiters st)) then fl_queues w1 (fl_waiters st)
              else fl_queues w1 (fl_waiters st) @ [task]))\<rparr>,
         FlEnqueued key owner wanted (fl_waiters st)))"

definition flock_recheck ::
  "flock_world \<Rightarrow> flock_key \<Rightarrow> nat \<Rightarrow> flock_kind \<Rightarrow> nat \<Rightarrow> bool \<Rightarrow> flock_pc" where
  "flock_recheck w key owner wanted q interrupted =
     (let retry = (case flocks w key of None \<Rightarrow> True | Some st \<Rightarrow> flock_compatible (owners st) owner wanted)
      in if retry then FlLeaving key owner wanted q None
         else if interrupted then FlLeaving key owner wanted q (Some EINTR)
         else FlAsleep key owner wanted q)"

definition flock_finish :: "flock_world \<Rightarrow> nat \<Rightarrow> nat \<Rightarrow> flock_world" where
  "flock_finish w q task = w\<lparr>fl_queues := (fl_queues w)(q := filter (\<lambda>t. t \<noteq> task) (fl_queues w q))\<rparr>"

definition flock_after_leave :: "flock_key \<Rightarrow> nat \<Rightarrow> flock_kind \<Rightarrow> errno option \<Rightarrow> flock_pc" where
  "flock_after_leave key owner wanted e =
     (case e of None \<Rightarrow> FlTop key owner wanted False | Some x \<Rightarrow> FlFailed x)"

definition unlock_key_owner :: "flock_world \<Rightarrow> flock_key \<Rightarrow> nat \<Rightarrow> flock_world \<times> flock_pc" where
  "unlock_key_owner w key owner =
     (case flocks w key of
        None \<Rightarrow> (w, FlIdle)
      | Some st \<Rightarrow>
          (let (os, removed) = remove_owner (owners st) owner;
               w1 = w\<lparr>flocks := (flocks w)(key \<mapsto> st\<lparr>owners := os\<rparr>)\<rparr>;
               should_remove = (os = [] \<and> fl_queues w (fl_waiters st) = []);
               wake = (if fl_queues w (fl_waiters st) \<noteq> [] then FlWaking (fl_waiters st) else FlIdle)
           in if \<not> removed then (w1, FlIdle)
              else (if should_remove then w1\<lparr>flocks := (flocks w1)(key := None)\<rparr> else w1, wake)))"

definition unlock :: "flock_world \<Rightarrow> flock_file \<Rightarrow> flock_world \<times> flock_pc" where
  "unlock w f = unlock_key_owner w (flock_from_file f) (ff_ptr f)"

definition unlock_file_ref :: "flock_world \<Rightarrow> flock_file \<Rightarrow> flock_world \<times> flock_pc" where
  "unlock_file_ref w f = unlock_key_owner w (flock_from_file_ref f) (ff_ptr f)"

definition flock_wake_all :: "flock_world \<Rightarrow> nat \<Rightarrow> flock_world" where
  "flock_wake_all w q = w\<lparr>fl_queues := (fl_queues w)(q := [])\<rparr>"

inductive flock_step :: "flock_world \<times> (nat \<Rightarrow> flock_pc) \<Rightarrow> flock_world \<times> (nat \<Rightarrow> flock_pc) \<Rightarrow> bool" where
  fl_call: "pc t = FlIdle \<or> (\<exists>e. pc t = FlFailed e) \<Longrightarrow>
    flock_step (w, pc) (w, pc(t := flock f exclusive nonblock))"
| fl_enter: "pc t = FlTop key owner wanted nonblock \<Longrightarrow> flock_enter w t key owner wanted nonblock = (w', p') \<Longrightarrow>
    flock_step (w, pc) (w', pc(t := p'))"
| fl_recheck: "pc t = FlEnqueued key owner wanted q \<Longrightarrow>
    flock_step (w, pc) (w, pc(t := flock_recheck w key owner wanted q interrupted))"
| fl_resume: "pc t = FlAsleep key owner wanted q \<Longrightarrow>
    flock_step (w, pc) (w, pc(t := FlLeaving key owner wanted q None))"
| fl_leave: "pc t = FlLeaving key owner wanted q e \<Longrightarrow>
    flock_step (w, pc) (flock_finish w q t, pc(t := flock_after_leave key owner wanted e))"
| fl_unlock: "pc t = FlIdle \<or> (\<exists>e. pc t = FlFailed e) \<Longrightarrow> unlock w f = (w', p') \<Longrightarrow>
    flock_step (w, pc) (w', pc(t := p'))"
| fl_drop: "pc t = FlIdle \<or> (\<exists>e. pc t = FlFailed e) \<Longrightarrow> unlock_file_ref w f = (w', p') \<Longrightarrow>
    flock_step (w, pc) (w', pc(t := p'))"
| fl_wake: "pc t = FlWaking q \<Longrightarrow> flock_step (w, pc) (flock_wake_all w q, pc(t := FlIdle))"

definition flock_init :: "flock_world \<times> (nat \<Rightarrow> flock_pc) \<Rightarrow> bool" where
  "flock_init s \<longleftrightarrow> s = (\<lparr>flocks = (\<lambda>_. None), fl_queues = (\<lambda>_. []), fl_next = 0\<rparr>, (\<lambda>_. FlIdle))"

section \<open>Mutual exclusion\<close>

definition owner_clash :: "flock_owner \<Rightarrow> flock_owner \<Rightarrow> bool" where
  "owner_clash a b \<longleftrightarrow> fo_ptr a \<noteq> fo_ptr b \<and> (fo_kind a, fo_kind b) \<noteq> (Shared, Shared)"

definition flock_admit :: "flock_owner list \<Rightarrow> nat \<times> flock_kind \<Rightarrow> flock_owner list option" where
  "flock_admit os r =
     (if flock_compatible os (fst r) (snd r) then Some (set_owner os (fst r) (snd r)) else None)"

definition distinct_owners :: "flock_owner list \<Rightarrow> bool" where
  "distinct_owners os = distinct (map fo_ptr os)"

lemma set_owner_ptrs: "set (map fo_ptr (set_owner os owner k)) = insert owner (set (map fo_ptr os))"
  by (induction os) auto

lemma set_owner_distinct: "distinct_owners os \<Longrightarrow> distinct_owners (set_owner os owner k)"
  using set_owner_ptrs by (induction os) (auto simp: distinct_owners_def)

lemma set_owner_set:
  "distinct_owners os \<Longrightarrow>
     set (set_owner os owner k) = insert \<lparr>fo_ptr = owner, fo_kind = k\<rparr> {e \<in> set os. fo_ptr e \<noteq> owner}"
proof (induction os)
  case (Cons e os)
  then have "distinct_owners os" "fo_ptr e \<notin> fo_ptr ` set os" by (auto simp: distinct_owners_def)
  with Cons.IH show ?case
    by (cases "fo_ptr e = owner") (auto intro: flock_owner.equality simp: image_iff)
qed simp

interpretation fl: admission_table set owner_clash flock_admit "\<lambda>os k. fst (remove_owner os k)" distinct_owners
proof (unfold_locales, goal_cases)
  case (1 s r s')
  then show ?case by (auto simp: flock_admit_def set_owner_distinct split: if_splits)
next
  case (2 s k)
  then show ?case by (simp add: distinct_owners_def remove_owner_def Let_def distinct_map_filter)
next
  case (3 s r s')
  then have c: "flock_compatible s (fst r) (snd r)"
    and e: "set s' = insert \<lparr>fo_ptr = fst r, fo_kind = snd r\<rparr> {e \<in> set s. fo_ptr e \<noteq> fst r}"
    by (auto simp: flock_admit_def set_owner_set split: if_splits)
  have "\<not> owner_clash a \<lparr>fo_ptr = fst r, fo_kind = snd r\<rparr>" "\<not> owner_clash \<lparr>fo_ptr = fst r, fo_kind = snd r\<rparr> a"
    if "a \<in> set s" for a
    using c that by (auto simp: flock_compatible_def owner_clash_def list_all_iff)
  with 3(2) show ?case unfolding e compatible_table_def by (auto simp: owner_clash_def)
next
  case (4 s k)
  then show ?case by (auto simp: remove_owner_def Let_def)
qed

definition flock_owners :: "flock_world \<Rightarrow> flock_key \<Rightarrow> flock_owner list" where
  "flock_owners w key = (case flocks w key of None \<Rightarrow> [] | Some st \<Rightarrow> owners st)"

definition flocks_ok :: "flock_world \<times> (nat \<Rightarrow> flock_pc) \<Rightarrow> bool" where
  "flocks_ok s \<longleftrightarrow> (\<forall>k. distinct_owners (flock_owners (fst s) k) \<and>
     compatible_table owner_clash (set (flock_owners (fst s) k)))"

lemma flock_enter_owners:
  assumes "flock_enter w t key owner wanted nonblock = (w', p')"
  shows "flock_owners w' k =
    (if k = key \<and> flock_compatible (flock_owners w key) owner wanted
     then set_owner (flock_owners w key) owner wanted else flock_owners w k)"
  using assms
  by (cases "flocks w key"; cases "k = key")
    (auto simp: flock_enter_def flock_entry_def flock_owners_def flock_state_new_def Let_def split: if_splits)

lemma unlock_owners:
  assumes "unlock_key_owner w key owner = (w', p')"
  shows "flock_owners w' k =
    (if k = key then fst (remove_owner (flock_owners w key) owner) else flock_owners w k)"
  using assms
  by (cases "flocks w key"; cases "k = key")
    (auto simp: unlock_key_owner_def flock_owners_def remove_owner_def Let_def split: if_splits)

lemma flocks_ok_enter:
  assumes "flocks_ok (w, pc)" "flock_enter w t key owner wanted nonblock = (w', p')"
  shows "flocks_ok (w', pc')"
proof -
  have *: "distinct_owners (flock_owners w k) \<and> compatible_table owner_clash (set (flock_owners w k))" for k
    using assms(1) by (simp add: flocks_ok_def)
  have "flock_compatible (flock_owners w key) owner wanted \<Longrightarrow>
      distinct_owners (set_owner (flock_owners w key) owner wanted) \<and>
      compatible_table owner_clash (set (set_owner (flock_owners w key) owner wanted))"
    using fl.run_compatible [of "flock_owners w key" "[Admit (owner, wanted)]"] * by (simp add: flock_admit_def)
  with * show ?thesis by (simp add: flocks_ok_def flock_enter_owners [OF assms(2)])
qed

lemma flocks_ok_unlock:
  assumes "flocks_ok (w, pc)" "unlock_key_owner w key owner = (w', p')"
  shows "flocks_ok (w', pc')"
proof -
  have *: "distinct_owners (flock_owners w k) \<and> compatible_table owner_clash (set (flock_owners w k))" for k
    using assms(1) by (simp add: flocks_ok_def)
  from fl.run_compatible [of "flock_owners w key" "[Retire owner]"] * show ?thesis
    by (simp add: flocks_ok_def unlock_owners [OF assms(2)])
qed

interpretation fl_excl: inductive_invariant flock_init flock_step flocks_ok
proof unfold_locales
  fix s assume "flock_init s"
  then show "flocks_ok s"
    by (simp add: flock_init_def flocks_ok_def flock_owners_def distinct_owners_def compatible_table_def)
next
  fix s s' assume "flock_step s s'" "flocks_ok s"
  then show "flocks_ok s'"
    by (induction rule: flock_step.induct)
      (auto simp: flock_finish_def flock_wake_all_def unlock_def unlock_file_ref_def
        intro: flocks_ok_enter flocks_ok_unlock, auto simp: flocks_ok_def flock_owners_def)
qed

lemma flock_owners_apart:
  assumes "reachable flock_init flock_step (w, pc)" and "flocks w key = Some st"
  shows "distinct_owners (owners st)" "compatible_table owner_clash (set (owners st))"
proof -
  have "flock_owners w key = owners st" using assms(2) by (simp add: flock_owners_def)
  then show "distinct_owners (owners st)" "compatible_table owner_clash (set (owners st))"
    using fl_excl.reachable_inv [OF assms(1)] unfolding flocks_ok_def by (metis fst_conv)+
qed


section \<open>A concrete run\<close>

definition flock_file_of :: "nat \<Rightarrow> flock_file" where
  "flock_file_of p = \<lparr>ff_ptr = p, ff_fs_id = 1, ff_ino = 7\<rparr>"

abbreviation "fkey \<equiv> flock_from_file (flock_file_of 10)"

lemma flock_file_key: "flock_from_file (flock_file_of p) = fkey"
  by (simp add: flock_from_file_def flock_file_of_def)

definition flock_held :: "flock_owner list \<Rightarrow> nat list \<Rightarrow> flock_world" where
  "flock_held os ts = \<lparr>flocks = (\<lambda>_. None)(fkey \<mapsto> \<lparr>owners = os, fl_waiters = 0\<rparr>),
     fl_queues = (\<lambda>_. [])(0 := ts), fl_next = 1\<rparr>"

lemma flock_grant_run:
  assumes "reachable flock_init flock_step (flock_held os ts, pc)" and "pc 0 = FlIdle"
    and "flock_compatible os 10 (wanted_kind x)"
  shows "reachable flock_init flock_step (flock_held (set_owner os 10 (wanted_kind x)) ts, pc)"
proof -
  let ?pc = "pc(0 := flock (flock_file_of 10) x False)"
  have "reachable flock_init flock_step (flock_held os ts, ?pc)"
    using assms(1) by (rule reachable.intros) (rule fl_call, use assms(2) in simp)
  then have "reachable flock_init flock_step (flock_held (set_owner os 10 (wanted_kind x)) ts, ?pc(0 := FlIdle))"
    by (rule reachable.intros) (rule fl_enter [where t = 0],
      auto simp: assms(3) flock_def flock_file_of_def flock_enter_def flock_entry_def flock_held_def)
  then show ?thesis using assms(2) by (simp add: fun_upd_idem)
qed

lemma flock_first_run:
  "reachable flock_init flock_step (flock_held [\<lparr>fo_ptr = 10, fo_kind = Exclusive\<rparr>] [], (\<lambda>_. FlIdle))"
proof -
  let ?w = "\<lparr>flocks = (\<lambda>_. None), fl_queues = (\<lambda>_. []), fl_next = 0\<rparr>"
  let ?pc = "(\<lambda>_. FlIdle)(0 := flock (flock_file_of 10) True False)"
  have "reachable flock_init flock_step (?w, (\<lambda>_. FlIdle))" by (rule reachable.intros) (simp add: flock_init_def)
  then have "reachable flock_init flock_step (?w, ?pc)" by (rule reachable.intros) (rule fl_call, simp)
  then have "reachable flock_init flock_step
      (flock_held [\<lparr>fo_ptr = 10, fo_kind = Exclusive\<rparr>] [], ?pc(0 := FlIdle))"
    by (rule reachable.intros) (rule fl_enter [where t = 0], auto simp: flock_def flock_file_of_def flock_enter_def flock_entry_def flock_held_def
        flock_state_new_def flock_compatible_def wanted_kind_def Let_def fun_upd_idem)
  then show ?thesis by (simp add: fun_upd_idem)
qed


section \<open>Properties\<close>

text \<open>
  C19. Over every interleaving of \<open>flock\<close>, unlock and file drops, two different open file
  descriptions hold a lock on one inode only if both hold it shared, and each is listed once.
\<close>

theorem flock_exclusive:
  assumes "reachable flock_init flock_step (w, pc)" and "flocks w key = Some st"
    and "a \<in> set (owners st)" "b \<in> set (owners st)" "a \<noteq> b"
  shows "fo_ptr a \<noteq> fo_ptr b \<and> fo_kind a = Shared \<and> fo_kind b = Shared"
proof -
  note apart = flock_owners_apart [OF assms(1,2)]
  have "fo_ptr a \<noteq> fo_ptr b"
    using apart(1) assms(3-5) unfolding distinct_owners_def distinct_map by (metis inj_onD)
  moreover have "\<not> owner_clash a b" using apart(2) assms(3,4) unfolding compatible_table_def by blast
  ultimately show ?thesis by (simp add: owner_clash_def)
qed

theorem flock_exclusive_witness:
  "\<exists>w pc st. reachable flock_init flock_step (w, pc) \<and> flocks w fkey = Some st \<and>
     (\<exists>a\<in>set (owners st). \<exists>b\<in>set (owners st).
        fo_ptr a = 10 \<and> fo_ptr b = 20 \<and> fo_kind a = Shared \<and> fo_kind b = Shared)"
proof -
  let ?os = "[\<lparr>fo_ptr = 10, fo_kind = Shared\<rparr>]"
  let ?b = "\<lparr>fo_ptr = 20, fo_kind = Shared\<rparr>"
  let ?pc = "(\<lambda>_. FlIdle)(1 := flock (flock_file_of 20) False False)"
  let ?st = "\<lparr>owners = ?os @ [?b], fl_waiters = 0\<rparr>"
  have "reachable flock_init flock_step (flock_held ?os [], (\<lambda>_. FlIdle))"
    using flock_grant_run [OF flock_first_run, of False] by (simp add: flock_compatible_def wanted_kind_def)
  then have "reachable flock_init flock_step (flock_held ?os [], ?pc)"
    by (rule reachable.intros) (rule fl_call, simp)
  then have r: "reachable flock_init flock_step (flock_held (?os @ [?b]) [], ?pc(1 := FlIdle))"
    by (rule reachable.intros) (rule fl_enter [where t = 1],
      auto simp: flock_def flock_file_of_def flock_from_file_def flock_enter_def flock_entry_def flock_held_def
        flock_compatible_def wanted_kind_def)
  have st: "flocks (flock_held (?os @ [?b]) []) fkey = Some ?st" by (simp add: flock_held_def)
  have "fo_kind \<lparr>fo_ptr = 10, fo_kind = Shared\<rparr> = Shared \<and> fo_kind ?b = Shared"
    using flock_exclusive [OF r st, of "\<lparr>fo_ptr = 10, fo_kind = Shared\<rparr>" ?b] by simp
  with r st show ?thesis by (intro exI conjI) auto
qed



end
