(* ===== verification/Cbpf.thy ===== *)
theory Cbpf
  imports Prelude
begin

text \<open>
  The classic BPF validator and interpreter for socket filters: \<open>libs/net/src/bpf.rs\<close>. Registers
  and scratch memory are 32-bit words, the packet a list of bytes. A run ends with a value or with
  the panic an out-of-range index or, in a build with overflow checks, an oversized shift raises.
  The native byte order of the target is the parameter \<open>be\<close>.
\<close>

unbundle bit_operations_syntax

section \<open>Instructions\<close>

record cbpf_insn =
  code :: "16 word"
  jt :: "8 word"
  jf :: "8 word"
  k :: "32 word"

datatype cbpf_error = TooManyInstructions | InvalidCode | JumpOutOfRange | MemoryOutOfRange

definition BPF_MAXINSNS :: nat where "BPF_MAXINSNS = 4096"
definition BPF_MEMWORDS :: nat where "BPF_MEMWORDS = 16"
definition BPF_MAX_STEPS :: nat where "BPF_MAX_STEPS = 100000"

definition BPF_LD :: "16 word" where [simp]: "BPF_LD = 0x00"
definition BPF_LDX :: "16 word" where [simp]: "BPF_LDX = 0x01"
definition BPF_ST :: "16 word" where [simp]: "BPF_ST = 0x02"
definition BPF_STX :: "16 word" where [simp]: "BPF_STX = 0x03"
definition BPF_ALU :: "16 word" where [simp]: "BPF_ALU = 0x04"
definition BPF_JMP :: "16 word" where [simp]: "BPF_JMP = 0x05"
definition BPF_RET :: "16 word" where [simp]: "BPF_RET = 0x06"
definition BPF_MISC :: "16 word" where [simp]: "BPF_MISC = 0x07"

definition BPF_W :: "16 word" where [simp]: "BPF_W = 0x00"
definition BPF_H :: "16 word" where [simp]: "BPF_H = 0x08"
definition BPF_B :: "16 word" where [simp]: "BPF_B = 0x10"

definition BPF_IMM :: "16 word" where [simp]: "BPF_IMM = 0x00"
definition BPF_ABS :: "16 word" where [simp]: "BPF_ABS = 0x20"
definition BPF_IND :: "16 word" where [simp]: "BPF_IND = 0x40"
definition BPF_MEM :: "16 word" where [simp]: "BPF_MEM = 0x60"
definition BPF_LEN :: "16 word" where [simp]: "BPF_LEN = 0x80"
definition BPF_MSH :: "16 word" where [simp]: "BPF_MSH = 0xa0"

definition BPF_ADD :: "16 word" where [simp]: "BPF_ADD = 0x00"
definition BPF_SUB :: "16 word" where [simp]: "BPF_SUB = 0x10"
definition BPF_MUL :: "16 word" where [simp]: "BPF_MUL = 0x20"
definition BPF_DIV :: "16 word" where [simp]: "BPF_DIV = 0x30"
definition BPF_OR :: "16 word" where [simp]: "BPF_OR = 0x40"
definition BPF_AND :: "16 word" where [simp]: "BPF_AND = 0x50"
definition BPF_LSH :: "16 word" where [simp]: "BPF_LSH = 0x60"
definition BPF_RSH :: "16 word" where [simp]: "BPF_RSH = 0x70"
definition BPF_NEG :: "16 word" where [simp]: "BPF_NEG = 0x80"
definition BPF_MOD :: "16 word" where [simp]: "BPF_MOD = 0x90"
definition BPF_XOR :: "16 word" where [simp]: "BPF_XOR = 0xa0"

definition BPF_JA :: "16 word" where [simp]: "BPF_JA = 0x00"
definition BPF_JEQ :: "16 word" where [simp]: "BPF_JEQ = 0x10"
definition BPF_JGT :: "16 word" where [simp]: "BPF_JGT = 0x20"
definition BPF_JGE :: "16 word" where [simp]: "BPF_JGE = 0x30"
definition BPF_JSET :: "16 word" where [simp]: "BPF_JSET = 0x40"

definition BPF_K :: "16 word" where [simp]: "BPF_K = 0x00"
definition BPF_X :: "16 word" where [simp]: "BPF_X = 0x08"
definition BPF_A :: "16 word" where [simp]: "BPF_A = 0x10"

definition BPF_TAX :: "16 word" where [simp]: "BPF_TAX = 0x00"
definition BPF_TXA :: "16 word" where [simp]: "BPF_TXA = 0x80"

definition bpf_class :: "cbpf_insn \<Rightarrow> 16 word" where "bpf_class i = code i AND 0x07"
definition bpf_mode :: "cbpf_insn \<Rightarrow> 16 word" where "bpf_mode i = code i AND 0xe0"
definition bpf_size :: "cbpf_insn \<Rightarrow> 16 word" where "bpf_size i = code i AND 0x18"
definition bpf_op :: "cbpf_insn \<Rightarrow> 16 word" where "bpf_op i = code i AND 0xf0"
definition bpf_src :: "cbpf_insn \<Rightarrow> 16 word" where "bpf_src i = code i AND 0x08"

section \<open>Validation\<close>

definition u32_checked_add :: "nat \<Rightarrow> nat \<Rightarrow> nat option" where
  "u32_checked_add a b = (if a + b < 2 ^ 32 then Some (a + b) else None)"

definition ld_valid :: "cbpf_insn \<Rightarrow> bool" where
  "ld_valid i =
     (if bpf_mode i = BPF_IMM then bpf_size i = BPF_W
      else if bpf_mode i = BPF_ABS \<or> bpf_mode i = BPF_IND
        then bpf_size i = BPF_W \<or> bpf_size i = BPF_H \<or> bpf_size i = BPF_B
      else if bpf_mode i = BPF_MEM then bpf_size i = BPF_W \<and> unat (k i) < BPF_MEMWORDS
      else if bpf_mode i = BPF_LEN then bpf_size i = BPF_W
      else if bpf_mode i = BPF_MSH then bpf_size i = BPF_B \<and> bpf_class i = BPF_LDX
      else False)"

definition alu_valid :: "cbpf_insn \<Rightarrow> bool" where
  "alu_valid i \<longleftrightarrow> (bpf_src i = BPF_K \<or> bpf_src i = BPF_X) \<and>
     bpf_op i \<in> {BPF_ADD, BPF_SUB, BPF_MUL, BPF_DIV, BPF_OR, BPF_AND, BPF_LSH, BPF_RSH, BPF_NEG, BPF_MOD, BPF_XOR}"

definition jump_target_ok :: "nat \<Rightarrow> nat \<Rightarrow> nat \<Rightarrow> bool" where
  "jump_target_ok n index off =
     (case Option.bind (u32_checked_add index 1) (\<lambda>next. u32_checked_add next off) of
        None \<Rightarrow> False | Some target \<Rightarrow> target < n)"

definition jmp_check :: "nat \<Rightarrow> nat \<Rightarrow> cbpf_insn \<Rightarrow> cbpf_error option" where
  "jmp_check n index i =
     (if bpf_op i = BPF_JA then
        (if bpf_src i \<noteq> 0 then Some InvalidCode
         else if \<not> jump_target_ok n index (unat (k i)) then Some JumpOutOfRange else None)
      else if \<not> (bpf_src i = BPF_K \<or> bpf_src i = BPF_X) then Some InvalidCode
      else if \<not> jump_target_ok n index (unat (jt i)) \<or> \<not> jump_target_ok n index (unat (jf i))
        then Some JumpOutOfRange
      else None)"

definition check_insn :: "nat \<Rightarrow> nat \<Rightarrow> cbpf_insn \<Rightarrow> cbpf_error option" where
  "check_insn n index i =
     (if bpf_class i = BPF_LD \<or> bpf_class i = BPF_LDX then (if ld_valid i then None else Some InvalidCode)
      else if bpf_class i = BPF_ST \<or> bpf_class i = BPF_STX then
        (if bpf_mode i \<noteq> BPF_MEM \<or> BPF_MEMWORDS \<le> unat (k i) then Some MemoryOutOfRange else None)
      else if bpf_class i = BPF_ALU then (if alu_valid i then None else Some InvalidCode)
      else if bpf_class i = BPF_JMP then jmp_check n index i
      else if bpf_class i = BPF_RET then
        (if bpf_size i = BPF_K \<or> bpf_size i = BPF_A then None else Some InvalidCode)
      else if bpf_class i = BPF_MISC then
        (if code i AND 0xf8 \<noteq> BPF_TAX \<and> code i AND 0xf8 \<noteq> BPF_TXA then Some InvalidCode else None)
      else Some InvalidCode)"

fun check_from :: "nat \<Rightarrow> nat \<Rightarrow> cbpf_insn list \<Rightarrow> cbpf_error option" where
  "check_from n index [] = None"
| "check_from n index (i # is) =
     (case check_insn n index i of Some e \<Rightarrow> Some e | None \<Rightarrow> check_from n (Suc index) is)"

definition bpf_compile :: "cbpf_insn list \<Rightarrow> cbpf_error + cbpf_insn list" where
  "bpf_compile is =
     (if BPF_MAXINSNS < length is then Inl TooManyInstructions
      else case check_from (length is) 0 is of Some e \<Rightarrow> Inl e | None \<Rightarrow> Inr is)"

section \<open>Execution\<close>

record bpf_state =
  ra :: "32 word"
  rx :: "32 word"
  mem :: "32 word list"
  pc :: nat

datatype bpf_outcome = Continue bpf_state | Return "32 word" | Panic

definition load_bytes :: "8 word list \<Rightarrow> nat \<Rightarrow> nat \<Rightarrow> 32 word" where
  "load_bytes data offset width =
     (if length data < offset \<or> 4 < width \<or> length data - offset < width then 0
      else foldl (\<lambda>value byte. push_bit 8 value OR ucast byte) 0 (take width (drop offset data)))"

definition ld_width :: "cbpf_insn \<Rightarrow> nat" where
  "ld_width i = (if bpf_size i = BPF_W then 4 else if bpf_size i = BPF_H then 2 else 1)"

definition advance :: "bpf_state \<Rightarrow> bpf_outcome" where
  "advance s = Continue (s\<lparr>pc := pc s + 1\<rparr>)"

definition set_ax :: "cbpf_insn \<Rightarrow> 32 word \<Rightarrow> bpf_state \<Rightarrow> bpf_outcome" where
  "set_ax i v s = advance (if bpf_class i = BPF_LD then s\<lparr>ra := v\<rparr> else s\<lparr>rx := v\<rparr>)"

definition step_ld :: "8 word list \<Rightarrow> cbpf_insn \<Rightarrow> bpf_state \<Rightarrow> bpf_outcome" where
  "step_ld data i s =
     (if bpf_mode i = BPF_IMM then set_ax i (k i) s
      else if bpf_mode i = BPF_ABS then set_ax i (load_bytes data (unat (k i)) (ld_width i)) s
      else if bpf_mode i = BPF_IND then set_ax i (load_bytes data (unat (rx s + k i)) (ld_width i)) s
      else if bpf_mode i = BPF_MEM then
        (if unat (k i) < length (mem s) then set_ax i (mem s ! unat (k i)) s else Panic)
      else if bpf_mode i = BPF_LEN then set_ax i (of_nat (length data)) s
      else if bpf_mode i = BPF_MSH then
        (let byte = (if unat (k i) < length data then data ! unat (k i) else 0)
         in advance (s\<lparr>rx := 4 * ucast (byte AND 0x0f)\<rparr>))
      else Return 0)"

text \<open>
  A shift by the register width or more panics in a build with overflow checks (\<open>oc\<close>) and is
  masked to five bits otherwise.
\<close>

definition shift_result :: "bool \<Rightarrow> (nat \<Rightarrow> 32 word) \<Rightarrow> 32 word \<Rightarrow> 32 word option" where
  "shift_result oc f operand =
     (if oc \<and> 32 \<le> unat operand then None else Some (f (unat (operand AND 31))))"

definition alu_result :: "bool \<Rightarrow> 16 word \<Rightarrow> 32 word \<Rightarrow> 32 word \<Rightarrow> 32 word option option" where
  "alu_result oc op a operand =
     (if op = BPF_ADD then Some (Some (a + operand))
      else if op = BPF_SUB then Some (Some (a - operand))
      else if op = BPF_MUL then Some (Some (a * operand))
      else if op = BPF_DIV then Some (Some (if operand = 0 then 0 else a div operand))
      else if op = BPF_OR then Some (Some (a OR operand))
      else if op = BPF_AND then Some (Some (a AND operand))
      else if op = BPF_LSH then Some (shift_result oc (\<lambda>n. push_bit n a) operand)
      else if op = BPF_RSH then Some (shift_result oc (\<lambda>n. drop_bit n a) operand)
      else if op = BPF_NEG then Some (Some (- a))
      else if op = BPF_MOD then Some (Some (if operand = 0 then 0 else a mod operand))
      else if op = BPF_XOR then Some (Some (a XOR operand))
      else None)"

definition operand_of :: "cbpf_insn \<Rightarrow> bpf_state \<Rightarrow> 32 word" where
  "operand_of i s = (if bpf_src i = BPF_X then rx s else k i)"

definition step_alu :: "bool \<Rightarrow> cbpf_insn \<Rightarrow> bpf_state \<Rightarrow> bpf_outcome" where
  "step_alu oc i s =
     (case alu_result oc (bpf_op i) (ra s) (operand_of i s) of
        None \<Rightarrow> Return 0
      | Some None \<Rightarrow> Panic
      | Some (Some v) \<Rightarrow> advance (s\<lparr>ra := v\<rparr>))"

definition jump_to :: "nat \<Rightarrow> bpf_state \<Rightarrow> nat \<Rightarrow> bpf_outcome" where
  "jump_to n s off =
     Continue (s\<lparr>pc := (case Option.bind (checked_add (pc s) 1) (\<lambda>next. checked_add next off) of
        None \<Rightarrow> n | Some t \<Rightarrow> t)\<rparr>)"

definition jump_taken :: "16 word \<Rightarrow> 32 word \<Rightarrow> 32 word \<Rightarrow> bool option" where
  "jump_taken op a operand =
     (if op = BPF_JEQ then Some (a = operand)
      else if op = BPF_JGT then Some (operand < a)
      else if op = BPF_JGE then Some (operand \<le> a)
      else if op = BPF_JSET then Some (a AND operand \<noteq> 0)
      else None)"

definition step_jmp :: "nat \<Rightarrow> cbpf_insn \<Rightarrow> bpf_state \<Rightarrow> bpf_outcome" where
  "step_jmp n i s =
     (if bpf_op i = BPF_JA then jump_to n s (unat (k i))
      else case jump_taken (bpf_op i) (ra s) (operand_of i s) of
          None \<Rightarrow> Return 0
        | Some taken \<Rightarrow> jump_to n s (if taken then unat (jt i) else unat (jf i)))"

definition step_store :: "cbpf_insn \<Rightarrow> 32 word \<Rightarrow> bpf_state \<Rightarrow> bpf_outcome" where
  "step_store i v s =
     (if unat (k i) < length (mem s) then advance (s\<lparr>mem := (mem s)[unat (k i) := v]\<rparr>) else Panic)"

definition bpf_step :: "bool \<Rightarrow> cbpf_insn list \<Rightarrow> 8 word list \<Rightarrow> bpf_state \<Rightarrow> bpf_outcome" where
  "bpf_step oc prog data s =
     (let i = prog ! pc s; class = bpf_class i in
      if class = BPF_LD \<or> class = BPF_LDX then step_ld data i s
      else if class = BPF_ST then step_store i (ra s) s
      else if class = BPF_STX then step_store i (rx s) s
      else if class = BPF_ALU then step_alu oc i s
      else if class = BPF_JMP then step_jmp (length prog) i s
      else if class = BPF_RET then Return (if bpf_size i = BPF_A then ra s else k i)
      else if class = BPF_MISC then
        advance (if code i AND 0xf8 = BPF_TAX then s\<lparr>rx := ra s\<rparr> else s\<lparr>ra := rx s\<rparr>)
      else Return 0)"

function run_loop :: "bool \<Rightarrow> cbpf_insn list \<Rightarrow> 8 word list \<Rightarrow> nat \<Rightarrow> bpf_state \<Rightarrow> bpf_outcome" where
  "run_loop oc prog data steps s =
     (if pc s < length prog then
        (if BPF_MAX_STEPS < steps + 1 then Return 0
         else case bpf_step oc prog data s of
             Continue s' \<Rightarrow> run_loop oc prog data (steps + 1) s'
           | Return v \<Rightarrow> Return v
           | Panic \<Rightarrow> Panic)
      else Return 0)"
  by pat_completeness auto
termination
  by (relation "measure (\<lambda>(oc, prog, data, steps, s). BPF_MAX_STEPS - steps)") auto

definition bpf_init :: bpf_state where
  "bpf_init = \<lparr>ra = 0, rx = 0, mem = replicate BPF_MEMWORDS 0, pc = 0\<rparr>"

definition bpf_run :: "bool \<Rightarrow> cbpf_insn list \<Rightarrow> 8 word list \<Rightarrow> bpf_outcome" where
  "bpf_run oc prog data = run_loop oc prog data 0 bpf_init"

section \<open>The user layout of instructions\<close>

definition u16_from_ne_bytes :: "bool \<Rightarrow> 8 word \<Rightarrow> 8 word \<Rightarrow> 16 word" where
  "u16_from_ne_bytes be b0 b1 =
     (if be then push_bit 8 (ucast b0) OR ucast b1 else ucast b0 OR push_bit 8 (ucast b1))"

definition u16_to_ne_bytes :: "bool \<Rightarrow> 16 word \<Rightarrow> 8 word list" where
  "u16_to_ne_bytes be w = (let le = [ucast w, ucast (drop_bit 8 w)] in if be then rev le else le)"

definition u32_from_ne_bytes :: "bool \<Rightarrow> 8 word \<Rightarrow> 8 word \<Rightarrow> 8 word \<Rightarrow> 8 word \<Rightarrow> 32 word" where
  "u32_from_ne_bytes be b0 b1 b2 b3 =
     (if be then push_bit 24 (ucast b0) OR push_bit 16 (ucast b1) OR push_bit 8 (ucast b2) OR ucast b3
      else ucast b0 OR push_bit 8 (ucast b1) OR push_bit 16 (ucast b2) OR push_bit 24 (ucast b3))"

definition u32_to_ne_bytes :: "bool \<Rightarrow> 32 word \<Rightarrow> 8 word list" where
  "u32_to_ne_bytes be w =
     (let le = [ucast w, ucast (drop_bit 8 w), ucast (drop_bit 16 w), ucast (drop_bit 24 w)]
      in if be then rev le else le)"

fun parse_chunks :: "bool \<Rightarrow> 8 word list \<Rightarrow> cbpf_insn list" where
  "parse_chunks be (b0 # b1 # b2 # b3 # b4 # b5 # b6 # b7 # bs) =
     \<lparr>code = u16_from_ne_bytes be b0 b1, jt = b2, jf = b3, k = u32_from_ne_bytes be b4 b5 b6 b7\<rparr>
       # parse_chunks be bs"
| "parse_chunks be _ = []"

definition parse_sock_filters :: "bool \<Rightarrow> 8 word list \<Rightarrow> unit + cbpf_insn list" where
  "parse_sock_filters be bytes = (if length bytes mod 8 \<noteq> 0 then Inl () else Inr (parse_chunks be bytes))"

fun serialize_sock_filters :: "bool \<Rightarrow> cbpf_insn list \<Rightarrow> 8 word list" where
  "serialize_sock_filters be [] = []"
| "serialize_sock_filters be (i # is) =
     u16_to_ne_bytes be (code i) @ [jt i] @ [jf i] @ u32_to_ne_bytes be (k i) @ serialize_sock_filters be is"

end
