(* ===== verification/CbpfProps.thy ===== *)
theory CbpfProps
  imports Cbpf
begin

text \<open>
  Properties of the BPF filter: the step budget is never the reason a run stops, validated programs
  do not panic on scratch memory, the byte layout of programs round-trips, and packet loads read
  big-endian values.
\<close>

section \<open>Progress of the program counter\<close>

lemma jump_to_pc:
  "jump_to n s off = Continue s' \<Longrightarrow> pc s < n \<Longrightarrow> pc s < pc s'"
  by (auto simp: jump_to_def checked_add_def split: option.splits bind_splits if_splits)

lemma jump_to_mem: "jump_to n s off = Continue s' \<Longrightarrow> mem s' = mem s"
  by (auto simp: jump_to_def)

lemma advance_Continue [simp]: "advance s = Continue s' \<longleftrightarrow> s' = s\<lparr>pc := pc s + 1\<rparr>"
  by (auto simp: advance_def)

lemma advance_not_Panic [simp]: "advance s \<noteq> Panic"
  by (simp add: advance_def)

lemma set_ax_Continue: "set_ax i v s = Continue s' \<Longrightarrow> pc s' = pc s + 1 \<and> mem s' = mem s"
  by (auto simp: set_ax_def split: if_splits)

lemma set_ax_not_Panic [simp]: "set_ax i v s \<noteq> Panic"
  by (simp add: set_ax_def)

lemma step_ld_Continue: "step_ld data i s = Continue s' \<Longrightarrow> pc s' = pc s + 1 \<and> mem s' = mem s"
  by (auto simp: step_ld_def Let_def dest!: set_ax_Continue split: if_splits)

lemma step_store_Continue:
  "step_store i v s = Continue s' \<Longrightarrow> pc s' = pc s + 1 \<and> length (mem s') = length (mem s)"
  by (auto simp: step_store_def split: if_splits)

lemma step_alu_Continue: "step_alu oc i s = Continue s' \<Longrightarrow> pc s' = pc s + 1 \<and> mem s' = mem s"
  by (auto simp: step_alu_def split: option.splits)

lemma step_jmp_Continue:
  "step_jmp n i s = Continue s' \<Longrightarrow> pc s < n \<Longrightarrow> pc s < pc s' \<and> mem s' = mem s"
  unfolding step_jmp_def using jump_to_pc jump_to_mem
  by (auto split: option.splits if_splits)

lemma bpf_step_Continue:
  assumes "bpf_step oc prog data s = Continue s'" and "pc s < length prog"
  shows "pc s < pc s' \<and> length (mem s') = length (mem s)"
  using assms step_ld_Continue step_store_Continue step_alu_Continue step_jmp_Continue
  unfolding bpf_step_def Let_def
  by (fastforce split: if_splits)

text \<open>The same execution without a step budget; it ends because the program counter only grows.\<close>

function exec_from :: "bool \<Rightarrow> cbpf_insn list \<Rightarrow> 8 word list \<Rightarrow> bpf_state \<Rightarrow> bpf_outcome" where
  "exec_from oc prog data s =
     (if pc s < length prog then
        (case bpf_step oc prog data s of
             Continue s' \<Rightarrow> exec_from oc prog data s'
           | Return v \<Rightarrow> Return v
           | Panic \<Rightarrow> Panic)
      else Return 0)"
  by pat_completeness auto
termination
  by (relation "measure (\<lambda>(oc, prog, data, s). length prog - pc s)")
    (auto dest: bpf_step_Continue intro: diff_less_mono2)

declare run_loop.simps [simp del] exec_from.simps [simp del]

lemma run_loop_exec:
  "steps + (length prog - pc s) \<le> BPF_MAX_STEPS \<Longrightarrow> run_loop oc prog data steps s = exec_from oc prog data s"
proof (induction oc prog data steps s rule: run_loop.induct)
  case (1 oc prog data steps s)
  show ?case
  proof (cases "pc s < length prog")
    case True
    then have budget: "\<not> BPF_MAX_STEPS < steps + 1" using "1.prems" by linarith
    show ?thesis
    proof (cases "bpf_step oc prog data s")
      case (Continue s')
      then have "pc s < pc s'" using bpf_step_Continue True by blast
      then have "steps + 1 + (length prog - pc s') \<le> BPF_MAX_STEPS" using "1.prems" True by linarith
      with "1.IH" [OF True budget Continue] show ?thesis
        using True budget Continue by (simp add: run_loop.simps [of _ _ _ steps s] exec_from.simps [of _ _ _ s])
    qed (use True budget in \<open>simp_all add: run_loop.simps [of _ _ _ steps s] exec_from.simps [of _ _ _ s]\<close>)
  qed (simp add: run_loop.simps [of _ _ _ steps s] exec_from.simps [of _ _ _ s])
qed

section \<open>Validated programs\<close>

lemma check_from_nth:
  "check_from n index is = None \<Longrightarrow> j < length is \<Longrightarrow> check_insn n (index + j) (is ! j) = None"
proof (induction "is" arbitrary: index j)
  case (Cons i "is")
  then show ?case
    using Cons.IH [of "Suc index" "j - 1"] by (cases j) (auto split: option.splits)
qed simp

lemma bpf_compile_Inr:
  "bpf_compile is = Inr p \<Longrightarrow> p = is \<and> length is \<le> BPF_MAXINSNS \<and> (\<forall>j<length is. check_insn (length is) j (is ! j) = None)"
  using check_from_nth [of "length is" 0 "is"] by (auto simp: bpf_compile_def split: if_splits option.splits)

text \<open>
  The states a run passes through from a given one, and an instruction that shifts by the register width or
  more in a state.
\<close>

inductive bpf_reaches :: "bool \<Rightarrow> cbpf_insn list \<Rightarrow> 8 word list \<Rightarrow> bpf_state \<Rightarrow> bpf_state \<Rightarrow> bool"
  for oc prog data where
  bpf_here: "bpf_reaches oc prog data s s"
| bpf_later: "pc s < length prog \<Longrightarrow> bpf_step oc prog data s = Continue s1 \<Longrightarrow> bpf_reaches oc prog data s1 s2 \<Longrightarrow>
    bpf_reaches oc prog data s s2"

definition shift_overflow :: "cbpf_insn \<Rightarrow> bpf_state \<Rightarrow> bool" where
  "shift_overflow i s \<longleftrightarrow>
     bpf_class i = BPF_ALU \<and> bpf_op i \<in> {BPF_LSH, BPF_RSH} \<and> 32 \<le> unat (operand_of i s)"

definition shifts_too_far :: "bool \<Rightarrow> cbpf_insn list \<Rightarrow> 8 word list \<Rightarrow> bpf_state \<Rightarrow> bool" where
  "shifts_too_far oc prog data s \<longleftrightarrow>
     (\<exists>s'. bpf_reaches oc prog data s s' \<and> pc s' < length prog \<and> shift_overflow (prog ! pc s') s')"

lemma shifts_too_far_unfold:
  "shifts_too_far oc prog data s \<longleftrightarrow> pc s < length prog \<and>
     (shift_overflow (prog ! pc s) s \<or> (\<exists>s1. bpf_step oc prog data s = Continue s1 \<and> shifts_too_far oc prog data s1))"
  unfolding shifts_too_far_def by (subst bpf_reaches.simps) blast

lemma step_alu_panic: "bpf_class i = BPF_ALU \<Longrightarrow> step_alu oc i s = Panic \<longleftrightarrow> oc \<and> shift_overflow i s"
  by (auto simp: step_alu_def alu_result_def shift_result_def shift_overflow_def split: option.splits)

lemma bpf_step_panic:
  assumes ok: "check_insn n j (prog ! pc s) = None" and mem: "length (mem s) = BPF_MEMWORDS"
  shows "bpf_step oc prog data s = Panic \<longleftrightarrow> oc \<and> shift_overflow (prog ! pc s) s"
proof -
  let ?i = "prog ! pc s"
  have "step_ld data ?i s \<noteq> Panic" if "bpf_class ?i = BPF_LD \<or> bpf_class ?i = BPF_LDX"
    using ok that mem by (auto simp: check_insn_def ld_valid_def step_ld_def Let_def split: if_splits)
  moreover have "step_store ?i v s \<noteq> Panic" if "bpf_class ?i = BPF_ST \<or> bpf_class ?i = BPF_STX" for v
    using ok that mem by (auto simp: check_insn_def step_store_def split: if_splits)
  moreover have "step_jmp n' ?i s \<noteq> Panic" for n'
    by (auto simp: step_jmp_def jump_to_def split: option.splits)
  moreover have "shift_overflow ?i s \<Longrightarrow> bpf_class ?i = BPF_ALU" by (simp add: shift_overflow_def)
  ultimately show ?thesis
    using step_alu_panic [of ?i oc s] by (auto simp: bpf_step_def Let_def)
qed

lemma exec_from_outcome:
  assumes "\<forall>j<length prog. check_insn (length prog) j (prog ! j) = None" and "length (mem s) = BPF_MEMWORDS"
  shows "if oc \<and> shifts_too_far oc prog data s then exec_from oc prog data s = Panic
    else \<exists>v. exec_from oc prog data s = Return v"
  using assms
proof (induction oc prog data s rule: exec_from.induct)
  case (1 oc prog data s)
  note unfold = exec_from.simps [of _ _ _ s] shifts_too_far_unfold [of _ _ _ s]
  show ?case
  proof (cases "pc s < length prog")
    case True
    then have panic: "bpf_step oc prog data s = Panic \<longleftrightarrow> oc \<and> shift_overflow (prog ! pc s) s"
      using bpf_step_panic "1.prems" by blast
    show ?thesis
    proof (cases "bpf_step oc prog data s")
      case (Continue s')
      then have "length (mem s') = BPF_MEMWORDS" using bpf_step_Continue True "1.prems"(2) by metis
      from "1.IH" [OF True Continue "1.prems"(1) this] show ?thesis
        using True Continue panic by (auto simp: unfold)
    qed (use True panic in \<open>auto simp: unfold\<close>)
  qed (simp add: unfold)
qed

lemma bpf_init_mem: "length (mem bpf_init) = BPF_MEMWORDS"
  by (simp add: bpf_init_def)

text \<open>Validation looks at the constant of a shift instruction nowhere.\<close>

lemma check_insn_shift:
  assumes "bpf_class i = BPF_ALU"
  shows "check_insn n j (i\<lparr>k := v\<rparr>) = check_insn n j i"
  using assms by (simp add: check_insn_def alu_valid_def bpf_class_def bpf_op_def bpf_src_def)

lemma check_from_update:
  assumes "check_insn n (index + j) x = check_insn n (index + j) (is ! j)" "j < length is"
  shows "check_from n index (is[j := x]) = check_from n index is"
  using assms
proof (induction "is" arbitrary: index j)
  case (Cons i "is")
  then show ?case using Cons.IH [of "Suc index" "j - 1"] by (cases j) (auto split: option.splits)
qed simp

lemma bpf_compile_shift:
  assumes "bpf_compile is = Inr p" "j < length is" "bpf_class (is ! j) = BPF_ALU"
  shows "bpf_compile (is[j := (is ! j)\<lparr>k := v\<rparr>]) = Inr (p[j := (p ! j)\<lparr>k := v\<rparr>])"
  using assms bpf_compile_Inr [OF assms(1)] check_from_update [OF _ assms(2), of "length is" 0]
  by (auto simp: bpf_compile_def check_insn_shift split: if_splits option.splits)

section \<open>Byte layout\<close>

lemma u16_ne_round [simp]:
  "u16_from_ne_bytes False (ucast w) (ucast (drop_bit 8 w)) = w"
  "u16_from_ne_bytes True (ucast (drop_bit 8 w)) (ucast w) = w"
  by (auto simp: u16_from_ne_bytes_def intro!: bit_word_eqI simp: bit_simps)

lemma u32_le_round:
  "u32_from_ne_bytes False (ucast w) (ucast (drop_bit 8 w)) (ucast (drop_bit 16 w)) (ucast (drop_bit 24 w)) = w"
proof (rule bit_word_eqI)
  fix n assume "n < LENGTH(32)"
  then have "n < 32" by simp
  then consider "n < 8" | "8 \<le> n" "n < 16" | "16 \<le> n" "n < 24" | "24 \<le> n" "n < 32" by linarith
  then show "bit (u32_from_ne_bytes False (ucast w) (ucast (drop_bit 8 w)) (ucast (drop_bit 16 w)) (ucast (drop_bit 24 w))) n = bit w n"
    by cases (auto simp: u32_from_ne_bytes_def bit_simps)
qed

lemma u32_ne_round [simp]:
  "u32_from_ne_bytes False (ucast w) (ucast (drop_bit 8 w)) (ucast (drop_bit 16 w)) (ucast (drop_bit 24 w)) = w"
  "u32_from_ne_bytes True (ucast (drop_bit 24 w)) (ucast (drop_bit 16 w)) (ucast (drop_bit 8 w)) (ucast w) = w"
  using u32_le_round [of w] by (simp_all add: u32_from_ne_bytes_def or.commute or.left_commute)

lemma high_bits [simp]:
  "\<not> bit (b :: 8 word) (8 + n)" "\<not> bit (b :: 8 word) (16 + n)" "\<not> bit (b :: 8 word) (24 + n)"
  using bit_imp_le_length by force+

lemma u16_bytes_round:
  "u16_to_ne_bytes be (u16_from_ne_bytes be b0 b1) = [b0, b1]"
  by (auto simp: u16_to_ne_bytes_def u16_from_ne_bytes_def Let_def intro!: bit_word_eqI simp: bit_simps)

lemma u32_bytes_round:
  "u32_to_ne_bytes be (u32_from_ne_bytes be b0 b1 b2 b3) = [b0, b1, b2, b3]"
  by (auto simp: u32_to_ne_bytes_def u32_from_ne_bytes_def Let_def intro!: bit_word_eqI simp: bit_simps)

lemma parse_serialize: "parse_chunks be (serialize_sock_filters be is) = is"
  by (induction "is") (auto simp: u16_to_ne_bytes_def u32_to_ne_bytes_def Let_def)

lemma serialize_length: "length (serialize_sock_filters be is) = 8 * length is"
  by (induction "is") (auto simp: u16_to_ne_bytes_def u32_to_ne_bytes_def Let_def)

lemma serialize_parse: "length bs mod 8 = 0 \<Longrightarrow> serialize_sock_filters be (parse_chunks be bs) = bs"
proof (induction be bs rule: parse_chunks.induct)
  case (1 be b0 b1 b2 b3 b4 b5 b6 b7 bs)
  then have "length bs mod 8 = 0" by (simp add: mod_Suc split: if_splits)
  with 1 show ?case by (simp add: u16_bytes_round u32_bytes_round)
qed auto

section \<open>Packet loads\<close>

lemma byte_less: "unat (b :: 8 word) < 256"
  using unsigned_less [of b] by simp

lemma unat_byte_ucast: "unat (ucast (b :: 8 word) :: 32 word) = unat b"
proof -
  have "unat b < 2 ^ 32" using byte_less [of b] by simp
  then show ?thesis by (simp add: unsigned_ucast_eq take_bit_nat_eq_self)
qed

lemma load_fold:
  fixes bs :: "8 word list"
  assumes "length bs \<le> 4"
  shows "unat (foldl (\<lambda>value byte. push_bit 8 value OR ucast byte) (0 :: 32 word) bs) =
     foldl (\<lambda>v b. v * 256 + unat b) 0 bs"
proof -
  have step: "unat (push_bit 8 v OR ucast (b :: 8 word) :: 32 word) = unat v * 256 + unat b"
    if "unat v < 2 ^ 24" for v :: "32 word" and b
  proof -
    have disj: "push_bit 8 v AND ucast b = 0"
      by (rule bit_word_eqI) (auto simp: bit_simps dest: bit_imp_le_length)
    have "push_bit 8 v OR ucast b = push_bit 8 v + (ucast b :: 32 word)"
      by (rule disjunctive_add_eq_or [OF disj, symmetric])
    moreover have "unat (push_bit 8 v) = unat v * 256"
      using that by (simp add: push_bit_eq_mult unat_mult_lem [THEN iffD1])
    ultimately show ?thesis
      using that byte_less [of b] by (simp add: unat_word_ariths unat_byte_ucast)
  qed
  have "foldl (\<lambda>v b. v * 256 + unat b) 0 bs < 256 ^ length bs \<and>
    unat (foldl (\<lambda>value byte. push_bit 8 value OR ucast byte) (0 :: 32 word) bs) =
     foldl (\<lambda>v b. v * 256 + unat b) 0 bs" if "length bs \<le> 4" for bs :: "8 word list"
    using that
  proof (induction bs rule: rev_induct)
    case (snoc b bs)
    then have IH: "foldl (\<lambda>v b. v * 256 + unat b) 0 bs < 256 ^ length bs"
      "unat (foldl (\<lambda>value byte. push_bit 8 value OR ucast byte) (0 :: 32 word) bs) =
        foldl (\<lambda>v b. v * 256 + unat b) 0 bs" by auto
    have "(256 :: nat) ^ length bs \<le> 256 ^ 3" using snoc.prems by (intro power_increasing) auto
    with IH have lt: "unat (foldl (\<lambda>value byte. push_bit 8 value OR ucast byte) (0 :: 32 word) bs) < 2 ^ 24"
      by simp
    have "unat b < 256" by (rule byte_less)
    with IH step [OF lt, of b] show ?case by simp
  qed simp
  with assms show ?thesis by blast
qed

section \<open>Properties\<close>


text \<open>The filter that accepts IPv4 frames.\<close>

definition bpf_insn :: "16 word \<Rightarrow> 8 word \<Rightarrow> 8 word \<Rightarrow> 32 word \<Rightarrow> cbpf_insn" where
  "bpf_insn c t f v = \<lparr>code = c, jt = t, jf = f, k = v\<rparr>"

definition ip_filter :: "cbpf_insn list" where
  "ip_filter = [bpf_insn 0x28 0 0 12, bpf_insn 0x15 1 0 0x0800, bpf_insn 0x06 0 0 0, bpf_insn 0x06 0 0 0xffff]"

lemmas bpf_eval = ip_filter_def bpf_insn_def bpf_compile_def check_insn_def ld_valid_def jmp_check_def
  jump_target_ok_def u32_checked_add_def bpf_class_def bpf_mode_def bpf_size_def bpf_op_def bpf_src_def
  BPF_MAXINSNS_def BPF_MEMWORDS_def


text \<open>
  C22. The panics of validated programs are exactly the shifts by the register width or more, in a build
  with overflow checks: such a run panics if and only if it comes to an instruction that shifts by 32 or
  more. Validation rules none of them out, for it accepts every constant: in an accepted program the
  constant of any shift can be replaced by any value.
\<close>

theorem bpf_panics_iff_shift_overflow:
  assumes "bpf_compile is = Inr p"
  shows "(bpf_run oc p data = Panic \<longleftrightarrow>
      oc \<and> (\<exists>s. bpf_reaches oc p data bpf_init s \<and> pc s < length p \<and> shift_overflow (p ! pc s) s)) \<and>
    (\<forall>j v. j < length is \<and> bpf_class (is ! j) = BPF_ALU \<and> bpf_op (is ! j) \<in> {BPF_LSH, BPF_RSH} \<longrightarrow>
      bpf_compile (is[j := (is ! j)\<lparr>k := v\<rparr>]) = Inr (p[j := (p ! j)\<lparr>k := v\<rparr>]))"
proof -
  have p: "p = is" "length is \<le> BPF_MAXINSNS" "\<forall>j<length is. check_insn (length is) j (is ! j) = None"
    using bpf_compile_Inr [OF assms] by auto
  then have "bpf_run oc p data = exec_from oc p data bpf_init"
    unfolding bpf_run_def by (intro run_loop_exec) (simp add: BPF_MAXINSNS_def BPF_MAX_STEPS_def bpf_init_def)
  then have "bpf_run oc p data = Panic \<longleftrightarrow> oc \<and> shifts_too_far oc p data bpf_init"
    using exec_from_outcome [OF _ bpf_init_mem, of p oc data] p by (auto split: if_splits)
  then show ?thesis using bpf_compile_shift [OF assms] unfolding shifts_too_far_def by blast
qed

theorem bpf_panics_iff_shift_overflow_witness:
  "bpf_compile [bpf_insn 0x64 0 0 32, bpf_insn 0x16 0 0 0] = Inr [bpf_insn 0x64 0 0 32, bpf_insn 0x16 0 0 0] \<and>
   bpf_run True [bpf_insn 0x64 0 0 32, bpf_insn 0x16 0 0 0] [] = Panic"
proof -
  let ?p = "[bpf_insn 0x64 0 0 32, bpf_insn 0x16 0 0 0]"
  have c: "bpf_compile ?p = Inr ?p" by (simp add: bpf_eval alu_valid_def)
  have "pc bpf_init < length ?p" "shift_overflow (?p ! pc bpf_init) bpf_init"
    by (simp_all add: bpf_init_def shift_overflow_def operand_of_def bpf_eval)
  with bpf_panics_iff_shift_overflow [OF c, of True "[]"] bpf_here c show ?thesis by blast
qed

text \<open>
  The user layout of a program round-trips on targets of either byte order: serialising and
  parsing gives the program back, and parsing a buffer of whole records and serialising gives the
  buffer back; a buffer with a partial record is refused.
\<close>

lemma sock_filters_round_trip:
  "parse_sock_filters be (serialize_sock_filters be is) = Inr is \<and>
   (case parse_sock_filters be bs of
      Inr js \<Rightarrow> length bs mod 8 = 0 \<and> serialize_sock_filters be js = bs
    | Inl _ \<Rightarrow> length bs mod 8 \<noteq> 0)"
  by (simp add: parse_sock_filters_def serialize_length parse_serialize serialize_parse)

text \<open>
  A packet load within the packet reads the bytes in network order, as the number they denote in
  base 256; a load that reaches past the end reads zero.
\<close>

lemma load_bytes_big_endian:
  assumes "width \<le> 4"
  shows "unat (load_bytes data offset width) =
    (if offset + width \<le> length data then foldl (\<lambda>v b. v * 256 + unat b) 0 (take width (drop offset data)) else 0)"
proof (cases "offset + width \<le> length data")
  case True
  then have "load_bytes data offset width =
      foldl (\<lambda>value byte. push_bit 8 value OR ucast byte) 0 (take width (drop offset data))"
    using assms unfolding load_bytes_def by (intro if_not_P) linarith
  with True assms show ?thesis by (simp only: if_True) (rule load_fold, simp)
next
  case False
  then have "load_bytes data offset width = 0"
    unfolding load_bytes_def by (intro if_P) linarith
  with False show ?thesis by simp
qed

end
