(* ===== verification/NativeHandle.thy ===== *)
theory NativeHandle
  imports Prelude
begin

text \<open>
  The capability handle table of the native ABI: \<open>libs/native-abi/src/handle.rs\<close>, with the rights
  and interfaces of \<open>registry.rs\<close> and the status codes of \<open>status.rs\<close>. Generations and indices are
  32-bit words, a raw handle a 64-bit word. The vector of free indices is a stack whose head is the
  element popped next. The outer \<open>option\<close> of an operation is \<open>None\<close> where the code would panic.
\<close>

unbundle bit_operations_syntax

section \<open>Rights, interfaces, status codes\<close>

datatype object_interface = IProcess | IAddressSpace | IStream | IClock | IImage | IEventPort
  | IComponent | IComponentTransaction | IInterface | IThread | IMemoryObject | IDirectory | IFile
  | IChannel | ISubmissionRing | ISocket | IDeviceFunction

type_synonym rights = "64 word"

definition RIGHT_DUPLICATE :: rights where "RIGHT_DUPLICATE = push_bit 2 1"

definition is_subset_of :: "rights \<Rightarrow> rights \<Rightarrow> bool" where
  "is_subset_of r other \<longleftrightarrow> r AND NOT other = 0"

definition CORE_RESOURCE_EXHAUSTED :: "32 word" where "CORE_RESOURCE_EXHAUSTED = 0x01000003"
definition HANDLE_INVALID :: "32 word" where "HANDLE_INVALID = 0x03000001"
definition HANDLE_STALE :: "32 word" where "HANDLE_STALE = 0x03000002"
definition HANDLE_WRONG_INTERFACE :: "32 word" where "HANDLE_WRONG_INTERFACE = 0x03000003"
definition SECURITY_RIGHTS_DENIED :: "32 word" where "SECURITY_RIGHTS_DENIED = 0x04000001"

lemmas status_defs = CORE_RESOURCE_EXHAUSTED_def HANDLE_INVALID_def HANDLE_STALE_def
  HANDLE_WRONG_INTERFACE_def SECURITY_RIGHTS_DENIED_def

section \<open>Handles and slots\<close>

record native_handle =
  generation :: "32 word"
  index :: "32 word"

definition from_parts :: "32 word \<Rightarrow> 32 word \<Rightarrow> native_handle" where
  "from_parts g i = \<lparr>generation = g, index = i\<rparr>"

definition from_raw :: "64 word \<Rightarrow> native_handle" where
  "from_raw raw = \<lparr>generation = ucast (drop_bit 32 raw), index = ucast raw\<rparr>"

definition handle_raw :: "native_handle \<Rightarrow> 64 word" where
  "handle_raw h = push_bit 32 (ucast (generation h)) OR ucast (index h)"

datatype 'a handle_slot =
    Vacant "32 word"
  | Occupied "32 word" 'a object_interface rights
  | Retired

record 'a handle_ref =
  hr_object :: 'a
  hr_interface :: object_interface
  hr_rights :: rights

record 'a handle_table =
  slots :: "'a handle_slot list"
  free_indices :: "32 word list"
  max_slots :: nat

definition MAX_NATIVE_HANDLE_SLOTS :: nat where "MAX_NATIVE_HANDLE_SLOTS = 4096"

definition table_new :: "bool \<Rightarrow> bool \<Rightarrow> 32 word + 'a handle_table" where
  "table_new reserve_slots_ok reserve_free_ok =
     (if \<not> reserve_slots_ok \<or> \<not> reserve_free_ok then Inl CORE_RESOURCE_EXHAUSTED
      else Inr \<lparr>slots = [], free_indices = [], max_slots = MAX_NATIVE_HANDLE_SLOTS\<rparr>)"

definition handle_insert ::
  "'a handle_table \<Rightarrow> 'a \<Rightarrow> object_interface \<Rightarrow> rights \<Rightarrow> ((32 word + native_handle) \<times> 'a handle_table) option" where
  "handle_insert t object interface rs =
     (case free_indices t of
        i # free' \<Rightarrow>
          (if i = 0 \<or> length (slots t) \<le> unat i - 1 then None
           else case slots t ! (unat i - 1) of
               Vacant g \<Rightarrow>
                 Some (Inr (from_parts g i),
                       t\<lparr>free_indices := free', slots := (slots t)[unat i - 1 := Occupied g object interface rs]\<rparr>)
             | _ \<Rightarrow> Some (Inl CORE_RESOURCE_EXHAUSTED, t\<lparr>free_indices := free'\<rparr>))
      | [] \<Rightarrow>
          if max_slots t \<le> length (slots t) then Some (Inl CORE_RESOURCE_EXHAUSTED, t)
          else (let i = of_nat (length (slots t)) + 1
                in Some (Inr (from_parts 1 i), t\<lparr>slots := slots t @ [Occupied 1 object interface rs]\<rparr>)))"

definition slot_index :: "'a handle_table \<Rightarrow> native_handle \<Rightarrow> 32 word + nat" where
  "slot_index t h =
     (if index h = 0 \<or> generation h = 0 then Inl HANDLE_INVALID
      else let i = unat (index h - 1) in if length (slots t) \<le> i then Inl HANDLE_INVALID else Inr i)"

fun slot_check :: "'a handle_slot \<Rightarrow> 32 word \<Rightarrow> 32 word option" where
  "slot_check Retired g = Some HANDLE_STALE"
| "slot_check (Vacant g') g = Some (if g' = g then HANDLE_INVALID else HANDLE_STALE)"
| "slot_check (Occupied g' _ _ _) g = (if g' \<noteq> g then Some HANDLE_STALE else None)"

definition slot :: "'a handle_table \<Rightarrow> native_handle \<Rightarrow> 32 word + 'a handle_slot" where
  "slot t h =
     (case slot_index t h of
        Inl e \<Rightarrow> Inl e
      | Inr i \<Rightarrow> (case slot_check (slots t ! i) (generation h) of Some e \<Rightarrow> Inl e | None \<Rightarrow> Inr (slots t ! i)))"

definition lookup ::
  "'a handle_table \<Rightarrow> native_handle \<Rightarrow> object_interface option \<Rightarrow> rights \<Rightarrow> 32 word + 'a handle_ref" where
  "lookup t h expected_interface required =
     (case slot t h of
        Inl e \<Rightarrow> Inl e
      | Inr (Occupied _ object interface rs) \<Rightarrow>
          (if (case expected_interface of None \<Rightarrow> False | Some expected \<Rightarrow> expected \<noteq> interface)
             then Inl HANDLE_WRONG_INTERFACE
           else if \<not> is_subset_of required rs then Inl SECURITY_RIGHTS_DENIED
           else Inr \<lparr>hr_object = object, hr_interface = interface, hr_rights = rs\<rparr>)
      | Inr _ \<Rightarrow> Inl HANDLE_INVALID)"

definition u32_max :: "32 word" where "u32_max = - 1"

definition handle_close :: "'a handle_table \<Rightarrow> native_handle \<Rightarrow> (32 word + 'a) \<times> 'a handle_table" where
  "handle_close t h =
     (case slot_index t h of
        Inl e \<Rightarrow> (Inl e, t)
      | Inr i \<Rightarrow>
          (case slot_check (slots t ! i) (generation h) of
             Some e \<Rightarrow> (Inl e, t)
           | None \<Rightarrow>
               (case slots t ! i of
                  Occupied g object _ _ \<Rightarrow>
                    (Inr object,
                     if g \<noteq> u32_max
                     then t\<lparr>slots := (slots t)[i := Vacant (g + 1)], free_indices := index h # free_indices t\<rparr>
                     else t\<lparr>slots := (slots t)[i := Retired]\<rparr>)
                | _ \<Rightarrow> (Inl HANDLE_STALE, t))))"

definition handle_duplicate :: "'a handle_table \<Rightarrow> native_handle \<Rightarrow> ((32 word + native_handle) \<times> 'a handle_table) option" where
  "handle_duplicate t source =
     (case lookup t source None RIGHT_DUPLICATE of
        Inl e \<Rightarrow> Some (Inl e, t)
      | Inr entry \<Rightarrow> handle_insert t (hr_object entry) (hr_interface entry) (hr_rights entry))"

definition handle_restrict ::
  "'a handle_table \<Rightarrow> native_handle \<Rightarrow> rights \<Rightarrow> ((32 word + native_handle) \<times> 'a handle_table) option" where
  "handle_restrict t source requested =
     (case lookup t source None RIGHT_DUPLICATE of
        Inl e \<Rightarrow> Some (Inl e, t)
      | Inr entry \<Rightarrow>
          if \<not> is_subset_of requested (hr_rights entry) then Some (Inl SECURITY_RIGHTS_DENIED, t)
          else handle_insert t (hr_object entry) (hr_interface entry) requested)"

section \<open>The invariant\<close>

fun slot_gen :: "'a handle_slot \<Rightarrow> nat" where
  "slot_gen (Vacant g) = unat g"
| "slot_gen (Occupied g _ _ _) = unat g"
| "slot_gen Retired = 2 ^ 32"

definition is_vacant :: "'a handle_slot \<Rightarrow> bool" where
  "is_vacant s = (case s of Vacant _ \<Rightarrow> True | _ \<Rightarrow> False)"

definition table_wf :: "'a handle_table \<Rightarrow> bool" where
  "table_wf t \<longleftrightarrow> max_slots t \<le> MAX_NATIVE_HANDLE_SLOTS \<and> length (slots t) \<le> max_slots t \<and>
     distinct (free_indices t) \<and>
     (\<forall>i\<in>set (free_indices t). i \<noteq> 0 \<and> unat i \<le> length (slots t) \<and> is_vacant (slots t ! (unat i - 1))) \<and>
     (\<forall>s\<in>set (slots t). 0 < slot_gen s)"

text \<open>The generation of a slot; a slot not yet created counts as zero.\<close>

definition slot_epoch :: "'a handle_table \<Rightarrow> nat \<Rightarrow> nat" where
  "slot_epoch t i = (if i < length (slots t) then slot_gen (slots t ! i) else 0)"

inductive handle_step :: "'a handle_table \<Rightarrow> 'a handle_table \<Rightarrow> bool" where
  hs_insert: "handle_insert t ob ifc rs = Some (res, t') \<Longrightarrow> handle_step t t'"
| hs_close: "handle_close t h = (res', t') \<Longrightarrow> handle_step t t'"
| hs_duplicate: "handle_duplicate t h = Some (res, t') \<Longrightarrow> handle_step t t'"
| hs_restrict: "handle_restrict t h rs = Some (res, t') \<Longrightarrow> handle_step t t'"

definition handle_init :: "'a handle_table \<Rightarrow> bool" where
  "handle_init t \<longleftrightarrow> table_new True True = Inr t"

end
