(* ===== verification/NativeHandleProps.thy ===== *)
theory NativeHandleProps
  imports NativeHandle
begin

text \<open>
  Properties of the handle table: the raw encoding round-trips, insertion and lookup agree, a closed
  handle is stale for ever, and derived handles never gain rights.
\<close>

section \<open>Insertion\<close>

lemma is_vacantE: "is_vacant s \<Longrightarrow> \<exists>g. s = Vacant g"
  by (cases s) (auto simp: is_vacant_def)

lemma unat_pos: "i \<noteq> 0 \<Longrightarrow> 0 < unat (i :: 32 word)"
  by (simp add: word_neq_0_conv unat_gt_0)

lemma unat_pred: "i \<noteq> 0 \<Longrightarrow> unat (i - 1 :: 32 word) = unat i - 1"
  by (simp add: unat_minus_one)

lemma fresh_index:
  assumes "n < MAX_NATIVE_HANDLE_SLOTS"
  shows "unat (of_nat n + 1 :: 32 word) = n + 1" "(of_nat n + 1 :: 32 word) \<noteq> 0"
proof -
  have lt: "n + 1 < 2 ^ 32" using assms by (simp add: MAX_NATIVE_HANDLE_SLOTS_def)
  have "unat (of_nat (n + 1) :: 32 word) = n + 1"
    using lt by (simp only: unat_of_nat) simp
  then show u: "unat (of_nat n + 1 :: 32 word) = n + 1" by (simp add: add.commute)
  then show "(of_nat n + 1 :: 32 word) \<noteq> 0" by (metis add_gr_0 less_numeral_extra(1) less_numeral_extra(3) unat_0)
qed

lemma vacant_kept:
  assumes "\<forall>i\<in>F. i \<noteq> 0 \<and> unat i \<le> length xs \<and> is_vacant (xs ! (unat i - 1))"
    and "\<And>i. i \<in> F \<Longrightarrow> unat i - 1 \<noteq> j"
  shows "\<forall>i\<in>F. i \<noteq> 0 \<and> unat i \<le> length xs \<and> is_vacant (xs[j := x] ! (unat i - 1))"
  using assms by (metis nth_list_update_neq)

lemma handle_insert_cases:
  assumes "table_wf t"
  obtains (reuse) i fr g where "free_indices t = i # fr" "i \<noteq> 0" "unat i - 1 < length (slots t)"
      "slots t ! (unat i - 1) = Vacant g"
      "handle_insert t ob ifc rs = Some (Inr (from_parts g i),
         t\<lparr>free_indices := fr, slots := (slots t)[unat i - 1 := Occupied g ob ifc rs]\<rparr>)"
  | (full) "free_indices t = []" "max_slots t \<le> length (slots t)"
      "handle_insert t ob ifc rs = Some (Inl CORE_RESOURCE_EXHAUSTED, t)"
  | (grow) "free_indices t = []" "length (slots t) < max_slots t"
      "handle_insert t ob ifc rs = Some (Inr (from_parts 1 (of_nat (length (slots t)) + 1)),
         t\<lparr>slots := slots t @ [Occupied 1 ob ifc rs]\<rparr>)"
proof (cases "free_indices t")
  case Nil
  then show thesis using full grow by (cases "max_slots t \<le> length (slots t)") (auto simp: handle_insert_def Let_def)
next
  case (Cons i fr)
  then have i: "i \<noteq> 0" "unat i \<le> length (slots t)" "is_vacant (slots t ! (unat i - 1))"
    using assms by (auto simp: table_wf_def)
  then obtain g where g: "slots t ! (unat i - 1) = Vacant g" using is_vacantE by blast
  have lt: "unat i - 1 < length (slots t)" using i unat_pos [OF i(1)] by linarith
  show thesis by (rule reuse [OF Cons i(1) lt g]) (use Cons i(1) lt g in \<open>simp add: handle_insert_def\<close>)
qed

lemma table_wf_insert:
  assumes wf: "table_wf t" and ins: "handle_insert t ob ifc rs = Some (res, t')"
  shows "table_wf t' \<and> (\<forall>j. slot_epoch t j \<le> slot_epoch t' j)"
  using wf
proof (cases rule: handle_insert_cases [where ob = ob and ifc = ifc and rs = rs])
  case (reuse i fr g)
  let ?j = "unat i - 1"
  have t': "t' = t\<lparr>free_indices := fr, slots := (slots t)[?j := Occupied g ob ifc rs]\<rparr>"
    using ins reuse(5) by simp
  have other: "unat i' - 1 \<noteq> ?j" if "i' \<in> set fr" for i'
  proof -
    have "i' \<noteq> i" "i' \<noteq> 0" using that wf reuse(1) by (auto simp: table_wf_def)
    then show ?thesis using unat_pos [of i'] unat_pos [OF reuse(2)] by (metis Suc_diff_1 word_unat_eq_iff)
  qed
  have "0 < slot_gen (slots t ! ?j)" using wf nth_mem [OF reuse(3)] by (auto simp: table_wf_def)
  then have pos: "0 < slot_gen (Occupied g ob ifc rs)" using reuse(4) by simp
  have vac: "\<forall>i'\<in>set fr. i' \<noteq> 0 \<and> unat i' \<le> length (slots t) \<and> is_vacant ((slots t)[?j := Occupied g ob ifc rs] ! (unat i' - 1))"
    by (rule vacant_kept [OF _ other]) (use wf reuse(1) in \<open>simp_all add: table_wf_def\<close>)
  have gens: "\<forall>s\<in>set ((slots t)[?j := Occupied g ob ifc rs]). 0 < slot_gen s"
    using wf pos set_update_subset_insert [of "slots t" ?j] unfolding table_wf_def by blast
  have "table_wf t'" unfolding t' table_wf_def using wf vac gens reuse(1) by (simp add: table_wf_def)
  moreover have "\<forall>j. slot_epoch t j \<le> slot_epoch t' j"
    unfolding t' slot_epoch_def using reuse(3,4) by (auto simp: nth_list_update)
  ultimately show ?thesis by blast
next
  case full
  with ins wf show ?thesis by simp
next
  case grow
  have t': "t' = t\<lparr>slots := slots t @ [Occupied 1 ob ifc rs]\<rparr>" using ins grow(3) by simp
  have "table_wf t'" unfolding t' using wf grow(1,2) by (auto simp: table_wf_def)
  moreover have "\<forall>j. slot_epoch t j \<le> slot_epoch t' j"
    unfolding t' slot_epoch_def by (auto simp: nth_append)
  ultimately show ?thesis by blast
qed

section \<open>Closing\<close>

lemma slot_index_Inr:
  "slot_index t h = Inr i \<longleftrightarrow> index h \<noteq> 0 \<and> generation h \<noteq> 0 \<and> i = unat (index h) - 1 \<and> i < length (slots t)"
  by (auto simp: slot_index_def Let_def unat_pred split: if_splits)

lemma slot_check_None: "slot_check s g = None \<longleftrightarrow> (\<exists>ob ifc rs. s = Occupied g ob ifc rs)"
  by (cases s) auto

lemma handle_close_cases:
  obtains (refused) e where "handle_close t h = (Inl e, t)"
  | (closed) i ob ifc rs where "slot_index t h = Inr i" "slots t ! i = Occupied (generation h) ob ifc rs"
      "handle_close t h = (Inr ob,
         if generation h \<noteq> u32_max
         then t\<lparr>slots := (slots t)[i := Vacant (generation h + 1)], free_indices := index h # free_indices t\<rparr>
         else t\<lparr>slots := (slots t)[i := Retired]\<rparr>)"
proof (cases "slot_index t h")
  case (Inl e)
  then show thesis by (intro refused) (simp add: handle_close_def)
next
  case (Inr i)
  show thesis
  proof (cases "slot_check (slots t ! i) (generation h)")
    case None
    then obtain ob ifc rs where "slots t ! i = Occupied (generation h) ob ifc rs" by (auto simp: slot_check_None)
    with Inr show thesis by (intro closed) (auto simp: handle_close_def)
  next
    case (Some e)
    with Inr show thesis by (intro refused) (simp add: handle_close_def)
  qed
qed

lemma unat_succ: "g \<noteq> u32_max \<Longrightarrow> unat (g + 1) = unat g + 1"
  unfolding u32_max_def by (metis Suc_eq_plus1 add.commute unatSuc add_eq_0_iff)

lemma table_wf_close:
  assumes wf: "table_wf t" and cl: "handle_close t h = (res, t')"
  shows "table_wf t' \<and> (\<forall>j. slot_epoch t j \<le> slot_epoch t' j)"
proof (cases rule: handle_close_cases [of t h])
  case (refused e)
  with cl wf show ?thesis by simp
next
  case (closed i ob ifc rs)
  have i: "index h \<noteq> 0" "i = unat (index h) - 1" "i < length (slots t)" using closed(1) by (auto simp: slot_index_Inr)
  have notfree: "unat i' - 1 \<noteq> i" if "i' \<in> set (free_indices t)" for i'
    using that wf closed(2) by (auto simp: table_wf_def is_vacant_def)
  have notin: "index h \<notin> set (free_indices t)" using notfree i(2) by blast
  have le: "unat (index h) \<le> length (slots t)" using i unat_pos [OF i(1)] by linarith
  have gens: "\<forall>s\<in>set ((slots t)[i := x]). 0 < slot_gen s" if "0 < slot_gen x" for x
    using wf that set_update_subset_insert [of "slots t" i x] unfolding table_wf_def by blast
  have vac: "\<forall>i'\<in>set (free_indices t). i' \<noteq> 0 \<and> unat i' \<le> length (slots t) \<and> is_vacant ((slots t)[i := x] ! (unat i' - 1))" for x
    by (rule vacant_kept [OF _ notfree]) (use wf in \<open>simp_all add: table_wf_def\<close>)
  show ?thesis
  proof (cases "generation h = u32_max")
    case True
    have t': "t' = t\<lparr>slots := (slots t)[i := Retired]\<rparr>" using cl closed(3) True by simp
    have "unat (generation h) < 2 ^ 32" using unsigned_less [of "generation h"] by simp
    then have lt: "unat (generation h) \<le> 2 ^ 32" by simp
    have "table_wf t'" unfolding t' using wf vac [of Retired] gens [of Retired] by (simp add: table_wf_def)
    moreover have "\<forall>j. slot_epoch t j \<le> slot_epoch t' j"
      unfolding t' slot_epoch_def using closed(2) lt i(3) by (auto simp: nth_list_update)
    ultimately show ?thesis by blast
  next
    case False
    let ?v = "Vacant (generation h + 1)"
    have t': "t' = t\<lparr>slots := (slots t)[i := ?v], free_indices := index h # free_indices t\<rparr>"
      using cl closed(3) False by simp
    have g: "slot_gen ?v = unat (generation h) + 1" using unat_succ [OF False] by simp
    have "is_vacant ((slots t)[i := ?v] ! (unat (index h) - 1))" using i by (simp add: is_vacant_def)
    then have "table_wf t'" unfolding t'
      using wf vac [of ?v] gens [of ?v] g notin i(1) le by (simp add: table_wf_def)
    moreover have "\<forall>j. slot_epoch t j \<le> slot_epoch t' j"
      unfolding t' slot_epoch_def using closed(2) g i(3) by (auto simp: nth_list_update)
    ultimately show ?thesis by blast
  qed
qed

lemma table_wf_derive:
  assumes "table_wf t"
    and "handle_duplicate t h = Some (res, t') \<or> handle_restrict t h rs = Some (res, t')"
  shows "table_wf t' \<and> (\<forall>j. slot_epoch t j \<le> slot_epoch t' j)"
  using assms table_wf_insert [OF assms(1)]
  by (auto simp: handle_duplicate_def handle_restrict_def split: sum.splits if_splits)

lemma handle_step_ok:
  "handle_step t t' \<Longrightarrow> table_wf t \<Longrightarrow> table_wf t' \<and> (\<forall>j. slot_epoch t j \<le> slot_epoch t' j)"
proof (induction rule: handle_step.induct)
  case (hs_insert t ob ifc rs res t')
  then show ?case using table_wf_insert [OF hs_insert.prems hs_insert.hyps] by simp
next
  case (hs_close t h res' t')
  then show ?case using table_wf_close [OF hs_close.prems hs_close.hyps] by simp
next
  case (hs_duplicate t h res t')
  then show ?case using table_wf_derive [OF hs_duplicate.prems disjI1] by metis
next
  case (hs_restrict t h rs res t')
  then show ?case using table_wf_derive [OF hs_restrict.prems disjI2] by metis
qed

interpretation nh: epoch_system handle_init handle_step table_wf slot_epoch
proof unfold_locales
  fix t :: "'a handle_table" assume "handle_init t"
  then show "table_wf t" by (auto simp: handle_init_def table_new_def table_wf_def)
qed (use handle_step_ok in blast)+

section \<open>Lookup\<close>

lemma slot_Inr:
  "slot t h = Inr s \<longleftrightarrow> (\<exists>i ob ifc rs. slot_index t h = Inr i \<and> s = slots t ! i \<and>
     slots t ! i = Occupied (generation h) ob ifc rs)"
  by (cases "slot_index t h"; cases "slot_check (slots t ! projr (slot_index t h)) (generation h)")
    (auto simp: slot_def slot_check_None split: option.splits)

lemma lookup_occupied:
  assumes "slot_index t h = Inr i" "slots t ! i = Occupied (generation h) ob ifc rs"
  shows "lookup t h None req =
    (if is_subset_of req rs then Inr \<lparr>hr_object = ob, hr_interface = ifc, hr_rights = rs\<rparr>
     else Inl SECURITY_RIGHTS_DENIED)"
proof -
  have "slot t h = Inr (Occupied (generation h) ob ifc rs)" using assms by (simp add: slot_def)
  then show ?thesis by (simp add: lookup_def)
qed

lemma lookup_Inr_slot:
  assumes "lookup t h ifc req = Inr r"
  shows "\<exists>i. slot_index t h = Inr i \<and> slots t ! i = Occupied (generation h) (hr_object r) (hr_interface r) (hr_rights r) \<and>
    is_subset_of req (hr_rights r)"
proof (cases "slot t h")
  case (Inl e)
  with assms show ?thesis by (simp add: lookup_def)
next
  case (Inr s)
  then obtain i ob ic rs where i: "slot_index t h = Inr i" "s = Occupied (generation h) ob ic rs"
    "slots t ! i = Occupied (generation h) ob ic rs" by (auto simp: slot_Inr)
  with assms Inr show ?thesis by (auto simp: lookup_def split: if_splits option.splits)
qed

lemma is_subset_refl [simp]: "is_subset_of r r"
  by (simp add: is_subset_of_def)

lemma is_subset_trans: "is_subset_of a b \<Longrightarrow> is_subset_of b c \<Longrightarrow> is_subset_of a c"
  unfolding is_subset_of_def by (auto simp: bit_eq_iff bit_simps)

text \<open>What a successful insertion does to one handle.\<close>

lemma handle_insert_lookup:
  assumes wf: "table_wf t" and ins: "handle_insert t ob ifc rs = Some (Inr h, t')"
  shows "\<exists>i. slot_index t' h = Inr i \<and> slots t' ! i = Occupied (generation h) ob ifc rs \<and>
    (\<forall>req e. \<exists>err. lookup t h e req = Inl err) \<and>
    (\<forall>h' e req r. lookup t h' e req = Inr r \<longrightarrow> lookup t' h' e req = Inr r)"
  using wf
proof (cases rule: handle_insert_cases [where ob = ob and ifc = ifc and rs = rs])
  case (reuse i fr g)
  let ?j = "unat i - 1"
  have t': "t' = t\<lparr>free_indices := fr, slots := (slots t)[?j := Occupied g ob ifc rs]\<rparr>" and h: "h = from_parts g i"
    using ins reuse(5) by simp_all
  have "0 < slot_gen (slots t ! ?j)" using wf nth_mem [OF reuse(3)] by (auto simp: table_wf_def)
  then have g0: "g \<noteq> 0" using reuse(4) by auto
  have idx: "slot_index t' h = Inr ?j" "slot_index t h = Inr ?j"
    using reuse(2,3) g0 by (simp_all add: t' h slot_index_Inr from_parts_def)
  have "lookup t h e req = Inl HANDLE_INVALID" for e req
    using idx(2) reuse(4) by (simp add: lookup_def slot_def h from_parts_def)
  moreover have "lookup t' h' e req = Inr r" if l: "lookup t h' e req = Inr r" for h' e req r
  proof -
    obtain j where j: "slot_index t h' = Inr j" "slots t ! j = Occupied (generation h') (hr_object r) (hr_interface r) (hr_rights r)"
      using lookup_Inr_slot [OF l] by blast
    then have "j \<noteq> ?j" using reuse(4) by auto
    then have "slots t' ! j = slots t ! j" "slot_index t' h' = slot_index t h'"
      by (simp_all add: t' slot_index_def)
    then have "slot t' h' = slot t h'" using j(1) by (simp add: slot_def split: option.splits)
    then show ?thesis using l by (simp add: lookup_def)
  qed
  ultimately show ?thesis using idx(1) reuse(3) by (auto simp: t' h from_parts_def)
next
  case full
  with ins show ?thesis by simp
next
  case grow
  let ?n = "length (slots t)"
  have t': "t' = t\<lparr>slots := slots t @ [Occupied 1 ob ifc rs]\<rparr>" and h: "h = from_parts 1 (of_nat ?n + 1)"
    using ins grow(3) by simp_all
  have lt: "?n < MAX_NATIVE_HANDLE_SLOTS" using grow(2) wf by (simp add: table_wf_def)
  have idx: "slot_index t' h = Inr ?n"
    using fresh_index [OF lt] by (simp add: t' h slot_index_Inr from_parts_def)
  have "unat (of_nat ?n :: 32 word) = ?n"
    using lt by (simp only: unat_of_nat) (simp add: MAX_NATIVE_HANDLE_SLOTS_def)
  then have "slot_index t h = Inl HANDLE_INVALID"
    by (simp add: h slot_index_def from_parts_def Let_def)
  then have "lookup t h e req = Inl HANDLE_INVALID" for e req by (simp add: lookup_def slot_def)
  moreover have "lookup t' h' e req = Inr r" if l: "lookup t h' e req = Inr r" for h' e req r
  proof -
    obtain j where j: "slot_index t h' = Inr j" using lookup_Inr_slot [OF l] by blast
    then have "slots t' ! j = slots t ! j" "slot_index t' h' = Inr j"
      by (auto simp: t' slot_index_Inr nth_append)
    then have "slot t' h' = slot t h'" using j by (simp add: slot_def split: option.splits)
    then show ?thesis using l by (simp add: lookup_def)
  qed
  ultimately show ?thesis using idx by (auto simp: t' h from_parts_def nth_append)
qed

section \<open>Properties\<close>

text \<open>The 64-bit encoding of a handle loses nothing in either direction.\<close>

lemma handle_raw_round_trip: "from_raw (handle_raw h) = h \<and> handle_raw (from_raw w) = w"
proof
  have "ucast (drop_bit 32 (push_bit 32 (ucast g) OR ucast i :: 64 word)) = (g :: 32 word)"
    "ucast (push_bit 32 (ucast g) OR ucast i :: 64 word) = (i :: 32 word)" for g i :: "32 word"
    by (rule bit_word_eqI; auto simp: bit_simps dest: bit_imp_le_length)+
  then show "from_raw (handle_raw h) = h" by (simp add: from_raw_def handle_raw_def)
  show "handle_raw (from_raw w) = w"
    unfolding from_raw_def handle_raw_def by (rule bit_word_eqI) (auto simp: bit_simps)
qed

text \<open>
  C26. Insertion never panics. It fails exactly when no freed slot is left and the table has as many
  slots as it may have, and then nothing changes; a handle it returns did not resolve before, resolves afterwards to exactly the inserted object, interface and rights, and every
  handle that resolved before still resolves to the same.
\<close>

theorem handle_insert_correct:
  assumes "table_wf t"
  shows "\<exists>res t'. handle_insert t ob ifc rs = Some (res, t') \<and>
    (isl res \<longleftrightarrow> free_indices t = [] \<and> length (slots t) = max_slots t) \<and>
    (case res of
       Inl e \<Rightarrow> e = CORE_RESOURCE_EXHAUSTED \<and> t' = t
     | Inr h \<Rightarrow>
         (\<forall>e req. \<exists>err. lookup t h e req = Inl err) \<and>
         (\<forall>req. lookup t' h None req =
            (if is_subset_of req rs then Inr \<lparr>hr_object = ob, hr_interface = ifc, hr_rights = rs\<rparr>
             else Inl SECURITY_RIGHTS_DENIED)) \<and>
         (\<forall>h' e req r. lookup t h' e req = Inr r \<longrightarrow> lookup t' h' e req = Inr r))"
proof -
  have "\<exists>res t'. handle_insert t ob ifc rs = Some (res, t') \<and>
      (isl res \<longleftrightarrow> free_indices t = [] \<and> length (slots t) = max_slots t) \<and>
      (case res of Inl e \<Rightarrow> e = CORE_RESOURCE_EXHAUSTED \<and> t' = t | Inr _ \<Rightarrow> True)"
    using assms
    by (cases rule: handle_insert_cases [where ob = ob and ifc = ifc and rs = rs])
      (use assms in \<open>auto simp: table_wf_def\<close>)
  then obtain res t' where r: "handle_insert t ob ifc rs = Some (res, t')"
    "isl res \<longleftrightarrow> free_indices t = [] \<and> length (slots t) = max_slots t"
    "case res of Inl e \<Rightarrow> e = CORE_RESOURCE_EXHAUSTED \<and> t' = t | Inr _ \<Rightarrow> True" by blast
  show ?thesis
  proof (cases res)
    case (Inl e)
    with r show ?thesis by auto
  next
    case (Inr h)
    with handle_insert_lookup [OF assms, of ob ifc rs h t'] r(1) obtain i where
      i: "slot_index t' h = Inr i" "slots t' ! i = Occupied (generation h) ob ifc rs"
      and rest: "\<forall>req e. \<exists>err. lookup t h e req = Inl err"
        "\<forall>h' e req r. lookup t h' e req = Inr r \<longrightarrow> lookup t' h' e req = Inr r" by blast
    show ?thesis
      by (intro exI conjI, rule r(1)) (use Inr r(2) rest lookup_occupied [OF i] in simp_all)
  qed
qed

definition empty_table :: "nat handle_table" where
  "empty_table = \<lparr>slots = [], free_indices = [], max_slots = MAX_NATIVE_HANDLE_SLOTS\<rparr>"

lemma empty_table_wf: "table_wf empty_table"
  by (simp add: empty_table_def table_wf_def)

definition one_table :: "nat handle_table" where
  "one_table = \<lparr>slots = [Occupied 1 7 IStream 7], free_indices = [], max_slots = MAX_NATIVE_HANDLE_SLOTS\<rparr>"

lemma one_table_wf: "table_wf one_table"
  by (simp add: one_table_def table_wf_def MAX_NATIVE_HANDLE_SLOTS_def)

theorem handle_insert_correct_witness:
  "\<exists>h t'. handle_insert empty_table 7 IStream 7 = Some (Inr h, t') \<and>
     lookup t' h None 3 = Inr \<lparr>hr_object = 7, hr_interface = IStream, hr_rights = 7\<rparr>"
proof -
  have i: "handle_insert empty_table 7 IStream 7 = Some (Inr (from_parts 1 1), one_table)"
    by (simp add: handle_insert_def empty_table_def one_table_def MAX_NATIVE_HANDLE_SLOTS_def)
  have "is_subset_of 3 7" by (simp add: is_subset_of_def)
  with handle_insert_correct [OF empty_table_wf, of 7 IStream 7] i show ?thesis by auto
qed

text \<open>
  C27. A closed handle is stale for ever: after a successful close, whatever inserts, closes,
  duplications and restrictions follow, the handle is never accepted again, by lookup or by close, and
  the answer is always the stale-handle status.
\<close>

theorem closed_handle_stale:
  assumes "table_wf t" and "handle_close t h = (Inr ob, t1)" and "handle_step\<^sup>*\<^sup>* t1 t2"
  shows "lookup t2 h e req = Inl HANDLE_STALE \<and> handle_close t2 h = (Inl HANDLE_STALE, t2)"
proof (cases rule: handle_close_cases [of t h])
  case (refused err)
  with assms(2) show ?thesis by simp
next
  case (closed i ob' ifc rs)
  have i: "index h \<noteq> 0" "generation h \<noteq> 0" "i = unat (index h) - 1" "i < length (slots t)"
    using closed(1) by (auto simp: slot_index_Inr)
  have lt: "unat (generation h) < 2 ^ 32" using unsigned_less [of "generation h"] by simp
  have "slot_epoch t1 i > unat (generation h)"
    using assms(2) closed(3) i(4) lt unat_succ [of "generation h"] by (auto simp: slot_epoch_def split: if_splits)
  moreover have "table_wf t1" using table_wf_close [OF assms(1,2)] by blast
  ultimately have ep: "slot_epoch t2 i > unat (generation h)"
    using nh.epoch_steps [OF assms(3)] by (meson less_le_trans)
  then have idx: "slot_index t2 h = Inr i" using i by (auto simp: slot_index_Inr slot_epoch_def split: if_splits)
  have "slot_check (slots t2 ! i) (generation h) = Some HANDLE_STALE"
    using ep by (cases "slots t2 ! i") (auto simp: slot_epoch_def split: if_splits)
  with idx show ?thesis by (simp add: lookup_def slot_def handle_close_def)
qed

theorem closed_handle_stale_witness:
  "handle_close one_table (from_parts 1 1) = (Inr 7, one_table\<lparr>slots := [Vacant 2], free_indices := [1]\<rparr>) \<and>
   lookup (one_table\<lparr>slots := [Occupied 2 9 IFile 3], free_indices := []\<rparr>) (from_parts 1 1) None 0 = Inl HANDLE_STALE"
proof -
  let ?t1 = "one_table\<lparr>slots := [Vacant 2], free_indices := [1]\<rparr>"
  let ?t2 = "one_table\<lparr>slots := [Occupied 2 9 IFile 3], free_indices := []\<rparr>"
  have c: "handle_close one_table (from_parts 1 1) = (Inr 7, ?t1)"
    by (simp add: handle_close_def one_table_def slot_index_def from_parts_def u32_max_def)
  have "handle_insert ?t1 9 IFile 3 = Some (Inr (from_parts 2 1), ?t2)"
    by (simp add: handle_insert_def one_table_def)
  then have "handle_step\<^sup>*\<^sup>* ?t1 ?t2" by (intro r_into_rtranclp hs_insert)
  from closed_handle_stale [OF one_table_wf c this, of None 0] c show ?thesis by simp
qed

text \<open>
  C28. Deriving a handle never amplifies authority: a restricted handle exists only if the source
  resolves with the right to duplicate and holds every requested right; it then resolves to the same
  object and interface with exactly the requested rights, and the source keeps resolving as before.
\<close>

theorem handle_restrict_attenuates:
  assumes "table_wf t" and "handle_restrict t src req = Some (Inr h, t')"
  shows "\<exists>r. lookup t src None RIGHT_DUPLICATE = Inr r \<and> is_subset_of req (hr_rights r) \<and>
    lookup t' src None RIGHT_DUPLICATE = Inr r \<and>
    lookup t' h None 0 = Inr (r\<lparr>hr_rights := req\<rparr>) \<and>
    (\<forall>need. is_subset_of need req \<longrightarrow> is_subset_of need (hr_rights r))"
proof -
  obtain r where r: "lookup t src None RIGHT_DUPLICATE = Inr r" "is_subset_of req (hr_rights r)"
    "handle_insert t (hr_object r) (hr_interface r) req = Some (Inr h, t')"
    using assms(2) by (auto simp: handle_restrict_def split: sum.splits if_splits)
  from handle_insert_lookup [OF assms(1) r(3)] obtain i where
    i: "slot_index t' h = Inr i" "slots t' ! i = Occupied (generation h) (hr_object r) (hr_interface r) req"
    and keep: "\<forall>h' e q r. lookup t h' e q = Inr r \<longrightarrow> lookup t' h' e q = Inr r" by blast
  have "lookup t' h None 0 = Inr (r\<lparr>hr_rights := req\<rparr>)"
    using lookup_occupied [OF i, of 0] by (simp add: is_subset_of_def)
  with r keep is_subset_trans show ?thesis by blast
qed

theorem handle_restrict_attenuates_witness:
  "\<exists>h t'. handle_restrict one_table (from_parts 1 1) 5 = Some (Inr h, t') \<and>
     (\<exists>r. lookup t' h None 0 = Inr r \<and> hr_rights r = 5 \<and> hr_object r = 7)"
proof -
  have l: "lookup one_table (from_parts 1 1) None RIGHT_DUPLICATE = Inr \<lparr>hr_object = 7, hr_interface = IStream, hr_rights = 7\<rparr>"
    by (simp add: lookup_def slot_def slot_index_def one_table_def from_parts_def is_subset_of_def RIGHT_DUPLICATE_def)
  have s: "is_subset_of 5 7" by (simp add: is_subset_of_def)
  obtain h t' where x: "handle_restrict one_table (from_parts 1 1) 5 = Some (Inr h, t')"
    using l s by (auto simp: handle_restrict_def handle_insert_def one_table_def MAX_NATIVE_HANDLE_SLOTS_def)
  from handle_restrict_attenuates [OF one_table_wf x] l x show ?thesis by auto
qed

end
