(* ===== verification/NetAddress.thy ===== *)
theory NetAddress
  imports Prelude "HOL-Library.Word"
begin

unbundle bit_operations_syntax

text \<open>
  Address types shared by the network components: \<open>libs/net/src/address.rs\<close>. The bytes of an address are
  kept as a list, of length 4 or 16; the enums carry the derived order of the source, which is their declaration
  order.
\<close>

datatype ip_addr = V4 "8 word list" | V6 "8 word list"

datatype address_family = Ipv4 | Ipv6

datatype transport_protocol = Tcp | Udp

fun family_rank :: "address_family \<Rightarrow> nat" where
  "family_rank Ipv4 = 0"
| "family_rank Ipv6 = 1"

fun protocol_number :: "transport_protocol \<Rightarrow> nat" where
  "protocol_number Tcp = 6"
| "protocol_number Udp = 17"

lemma family_rank_inj: "family_rank a = family_rank b \<longleftrightarrow> a = b"
  by (cases a; cases b) auto

lemma protocol_number_inj: "protocol_number a = protocol_number b \<longleftrightarrow> a = b"
  by (cases a; cases b) auto

instantiation address_family :: linorder
begin
definition less_eq_address_family :: "address_family \<Rightarrow> address_family \<Rightarrow> bool" where
  "less_eq_address_family a b \<longleftrightarrow> family_rank a \<le> family_rank b"
definition less_address_family :: "address_family \<Rightarrow> address_family \<Rightarrow> bool" where
  "less_address_family a b \<longleftrightarrow> family_rank a < family_rank b"
instance
  by standard (auto simp: less_eq_address_family_def less_address_family_def family_rank_inj [symmetric])
end

instantiation transport_protocol :: linorder
begin
definition less_eq_transport_protocol :: "transport_protocol \<Rightarrow> transport_protocol \<Rightarrow> bool" where
  "less_eq_transport_protocol a b \<longleftrightarrow> protocol_number a \<le> protocol_number b"
definition less_transport_protocol :: "transport_protocol \<Rightarrow> transport_protocol \<Rightarrow> bool" where
  "less_transport_protocol a b \<longleftrightarrow> protocol_number a < protocol_number b"
instance
  by standard (auto simp: less_eq_transport_protocol_def less_transport_protocol_def protocol_number_inj [symmetric])
end


section \<open>Classification\<close>

type_synonym octets = "8 word list"

definition IPV4_UNSPECIFIED :: octets where "IPV4_UNSPECIFIED = replicate 4 0"
definition IPV4_LOCALHOST :: octets where "IPV4_LOCALHOST = [127, 0, 0, 1]"
definition IPV4_BROADCAST :: octets where "IPV4_BROADCAST = replicate 4 255"

definition ipv4_new :: "8 word \<Rightarrow> 8 word \<Rightarrow> 8 word \<Rightarrow> 8 word \<Rightarrow> octets" where
  "ipv4_new a b c d = [a, b, c, d]"

definition ipv4_is_unspecified :: "octets \<Rightarrow> bool" where
  "ipv4_is_unspecified a \<longleftrightarrow> a = replicate 4 0"

definition ipv4_is_loopback :: "octets \<Rightarrow> bool" where
  "ipv4_is_loopback a \<longleftrightarrow> a ! 0 = 127"

definition ipv4_is_multicast :: "octets \<Rightarrow> bool" where
  "ipv4_is_multicast a \<longleftrightarrow> a ! 0 \<ge> 224 \<and> a ! 0 \<le> 239"

definition ipv4_is_broadcast :: "octets \<Rightarrow> bool" where
  "ipv4_is_broadcast a \<longleftrightarrow> a = replicate 4 255"

definition ipv4_as_u32 :: "octets \<Rightarrow> 32 word" where
  "ipv4_as_u32 a = word_of_nat (foldl (\<lambda>v b. v * 256 + unat b) 0 a)"

definition IPV6_UNSPECIFIED :: octets where "IPV6_UNSPECIFIED = replicate 16 0"
definition IPV6_LOCALHOST :: octets where "IPV6_LOCALHOST = replicate 15 0 @ [1]"

definition ipv6_new :: "16 word list \<Rightarrow> octets" where
  "ipv6_new segments = concat (map (\<lambda>seg. [ucast (drop_bit 8 seg), ucast seg]) segments)"

definition ipv6_is_unspecified :: "octets \<Rightarrow> bool" where
  "ipv6_is_unspecified a \<longleftrightarrow> a = replicate 16 0"

definition ipv6_is_loopback :: "octets \<Rightarrow> bool" where
  "ipv6_is_loopback a \<longleftrightarrow> a = IPV6_LOCALHOST"

definition ipv6_is_multicast :: "octets \<Rightarrow> bool" where
  "ipv6_is_multicast a \<longleftrightarrow> a ! 0 = 0xff"

definition ipv6_is_link_local :: "octets \<Rightarrow> bool" where
  "ipv6_is_link_local a \<longleftrightarrow> a ! 0 = 0xfe \<and> a ! 1 AND 0xc0 = 0x80"

fun addr_is_unspecified :: "ip_addr \<Rightarrow> bool" where
  "addr_is_unspecified (V4 a) = ipv4_is_unspecified a"
| "addr_is_unspecified (V6 a) = ipv6_is_unspecified a"

fun addr_is_multicast :: "ip_addr \<Rightarrow> bool" where
  "addr_is_multicast (V4 a) = ipv4_is_multicast a"
| "addr_is_multicast (V6 a) = ipv6_is_multicast a"

fun octet_len :: "ip_addr \<Rightarrow> nat" where
  "octet_len (V4 _) = 4"
| "octet_len (V6 _) = 16"

record endpoint =
  ep_addr :: ip_addr
  ep_port :: "16 word"

text \<open>An address is of one class at most, and the multicast addresses are the block \<open>224.0.0.0/4\<close>.\<close>

lemma ipv4_classes_disjoint:
  "ipv4_is_unspecified a \<Longrightarrow> \<not> ipv4_is_loopback a \<and> \<not> ipv4_is_multicast a \<and> \<not> ipv4_is_broadcast a"
  "ipv4_is_loopback a \<Longrightarrow> \<not> ipv4_is_multicast a \<and> \<not> ipv4_is_broadcast a"
  "ipv4_is_multicast a \<Longrightarrow> \<not> ipv4_is_broadcast a"
  by (auto simp: ipv4_is_unspecified_def ipv4_is_loopback_def ipv4_is_multicast_def ipv4_is_broadcast_def)

lemma octet_less: "unat x < 256" for x :: "8 word"
  using unsigned_less [where 'a = nat, of x] by simp

lemma ipv4_as_u32_new:
  "unat (ipv4_as_u32 (ipv4_new a b c d)) = ((unat a * 256 + unat b) * 256 + unat c) * 256 + unat d"
proof -
  have "unat a < 256" "unat b < 256" "unat c < 256" "unat d < 256" by (rule octet_less)+
  then have small: "((unat a * 256 + unat b) * 256 + unat c) * 256 + unat d < 2 ^ 32" by simp
  have "unat (word_of_nat n :: 32 word) = n" if "n < 2 ^ 32" for n
    using that by (simp add: unsigned_of_nat take_bit_nat_eq_self)
  from this [OF small] show ?thesis by (simp only: ipv4_as_u32_def ipv4_new_def foldl_Cons foldl_Nil mult_zero_left add_0_left)
qed

lemma ipv4_multicast_block:
  "ipv4_is_multicast (ipv4_new a b c d) \<longleftrightarrow> unat (ipv4_as_u32 (ipv4_new a b c d)) div 2 ^ 28 = 14"
proof -
  have "unat a < 256" "unat b < 256" "unat c < 256" "unat d < 256" by (rule octet_less)+
  then have r: "unat b * 2 ^ 16 + unat c * 2 ^ 8 + unat d < 2 ^ 24" by simp
  define n where "n = unat (ipv4_as_u32 (ipv4_new a b c d))"
  have "n = unat a * 2 ^ 24 + (unat b * 2 ^ 16 + unat c * 2 ^ 8 + unat d)" by (simp add: n_def ipv4_as_u32_new)
  then have "n div 2 ^ 24 = unat a" using r by simp
  moreover have "n div 2 ^ 28 = n div 2 ^ 24 div 16" by (simp add: div_mult2_eq [symmetric])
  ultimately have "n div 2 ^ 28 = 14 \<longleftrightarrow> unat a div 16 = 14" by simp
  also have "\<dots> \<longleftrightarrow> 224 \<le> unat a \<and> unat a \<le> 239" by auto
  finally show ?thesis by (simp add: n_def ipv4_is_multicast_def ipv4_new_def word_le_nat_alt)
qed

lemma ipv6_classes_disjoint:
  "ipv6_is_multicast a \<Longrightarrow> \<not> ipv6_is_link_local a \<and> \<not> ipv6_is_unspecified a \<and> \<not> ipv6_is_loopback a"
  "ipv6_is_link_local a \<Longrightarrow> \<not> ipv6_is_unspecified a \<and> \<not> ipv6_is_loopback a"
  by (auto simp: ipv6_is_multicast_def ipv6_is_link_local_def ipv6_is_unspecified_def ipv6_is_loopback_def
      IPV6_LOCALHOST_def nth_append)

lemma ipv6_new_length: "length (ipv6_new segments) = 2 * length segments"
  by (induction segments) (simp_all add: ipv6_new_def)

end
