(* ===== verification/NetChecksum.thy ===== *)
theory NetChecksum
  imports Prelude
begin

text \<open>
  The Internet checksum accumulator of \<open>libs/net/src/pipeline/mod.rs\<close>. The 64-bit running sum is a
  natural number: it stays far below \<open>2 ^ 64\<close> for every buffer that fits in memory.
\<close>

unbundle bit_operations_syntax

section \<open>The accumulator\<close>

record internet_checksum =
  ck_sum :: nat
  ck_odd :: "8 word option"

definition checksum_new :: internet_checksum where
  "checksum_new = \<lparr>ck_sum = 0, ck_odd = None\<rparr>"

definition be16 :: "8 word \<Rightarrow> 8 word \<Rightarrow> nat" where
  "be16 high low = 256 * unat high + unat low"

fun add_words :: "nat \<Rightarrow> 8 word list \<Rightarrow> nat \<times> 8 word option" where
  "add_words s (a # b # bs) = add_words (s + be16 a b) bs"
| "add_words s [a] = (s, Some a)"
| "add_words s [] = (s, None)"

fun add_wide :: "nat \<Rightarrow> 8 word list \<Rightarrow> nat \<times> 8 word list" where
  "add_wide s (c0 # c1 # c2 # c3 # c4 # c5 # c6 # c7 # bs) =
     add_wide (s + (be16 c0 c1 + be16 c2 c3 + be16 c4 c5 + be16 c6 c7)) bs"
| "add_wide s bs = (s, bs)"

definition checksum_body :: "nat \<Rightarrow> 8 word list \<Rightarrow> internet_checksum" where
  "checksum_body s bytes =
     (let (s1, rest) = add_wide s bytes; (s2, last_byte) = add_words s1 rest
      in \<lparr>ck_sum = s2, ck_odd = last_byte\<rparr>)"

definition checksum_add :: "internet_checksum \<Rightarrow> 8 word list \<Rightarrow> internet_checksum" where
  "checksum_add c bytes =
     (case ck_odd c of
        Some high \<Rightarrow>
          (case bytes of
             low # rest \<Rightarrow> checksum_body (ck_sum c + be16 high low) rest
           | [] \<Rightarrow> c)
      | None \<Rightarrow> checksum_body (ck_sum c) bytes)"

function fold_carry :: "nat \<Rightarrow> nat" where
  "fold_carry s = (if s div 65536 \<noteq> 0 then fold_carry (s mod 65536 + s div 65536) else s)"
  by pat_completeness auto
termination
proof (relation "measure id", goal_cases)
  case (2 s)
  then have "0 < s div 65536" by simp
  then show ?case using div_mult_mod_eq [of s 65536] by (simp only: in_measure id_apply)
qed simp

declare fold_carry.simps [simp del]

definition checksum_finish :: "internet_checksum \<Rightarrow> 16 word" where
  "checksum_finish c =
     (let s = (case ck_odd c of Some high \<Rightarrow> ck_sum c + be16 high 0 | None \<Rightarrow> ck_sum c)
      in NOT (of_nat (fold_carry s)))"

definition checksum_bytes :: "8 word list \<Rightarrow> 16 word" where
  "checksum_bytes bytes = checksum_finish (checksum_add checksum_new bytes)"

section \<open>The reference sum\<close>

text \<open>The sum of the big-endian 16-bit words, an odd last byte padded with zero.\<close>

fun word_sum :: "8 word list \<Rightarrow> nat" where
  "word_sum (a # b # bs) = be16 a b + word_sum bs"
| "word_sum [a] = be16 a 0"
| "word_sum [] = 0"

definition reference_checksum :: "8 word list \<Rightarrow> 16 word" where
  "reference_checksum bytes = NOT (of_nat (fold_carry (word_sum bytes)))"

definition pending_sum :: "internet_checksum \<Rightarrow> nat" where
  "pending_sum c = ck_sum c + (case ck_odd c of Some high \<Rightarrow> be16 high 0 | None \<Rightarrow> 0)"

text \<open>The bytes already taken, up to their sum: the pending byte alone matters for what follows.\<close>

definition tail_sum :: "internet_checksum \<Rightarrow> 8 word list \<Rightarrow> nat" where
  "tail_sum c bs = ck_sum c + word_sum (case ck_odd c of Some high \<Rightarrow> high # bs | None \<Rightarrow> bs)"

lemma tail_sum_None: "ck_odd c = None \<Longrightarrow> tail_sum c bs = ck_sum c + word_sum bs"
  by (simp add: tail_sum_def)

lemma tail_sum_Some: "ck_odd c = Some high \<Longrightarrow> tail_sum c bs = ck_sum c + word_sum (high # bs)"
  by (simp add: tail_sum_def)

lemma add_words_sum: "add_words s bs = (s', o') \<Longrightarrow> tail_sum \<lparr>ck_sum = s', ck_odd = o'\<rparr> cs = s + word_sum (bs @ cs)"
  by (induction s bs rule: add_words.induct) (auto simp: tail_sum_def)

lemma add_wide_sum: "add_wide s bs = (s', r) \<Longrightarrow> s' + word_sum (r @ cs) = s + word_sum (bs @ cs)"
  by (induction s bs rule: add_wide.induct) auto

lemma checksum_body_sum: "tail_sum (checksum_body s bs) cs = s + word_sum (bs @ cs)"
  unfolding checksum_body_def using add_wide_sum add_words_sum
  by (auto simp: Let_def split: prod.splits)

lemma checksum_add_sum: "tail_sum (checksum_add c bs) cs = tail_sum c (bs @ cs)"
  by (cases "ck_odd c"; cases bs) (simp_all add: checksum_add_def checksum_body_sum tail_sum_None tail_sum_Some)

lemma checksum_pieces_sum: "tail_sum (foldl checksum_add c bss) cs = tail_sum c (concat bss @ cs)"
  by (induction bss arbitrary: c) (auto simp: checksum_add_sum)

lemma finish_tail: "checksum_finish c = NOT (of_nat (fold_carry (tail_sum c [])))"
  by (cases "ck_odd c") (auto simp: checksum_finish_def tail_sum_def)

lemma checksum_bytes_reference: "checksum_bytes bs = reference_checksum bs"
  using checksum_add_sum [of checksum_new bs "[]"]
  by (simp add: checksum_bytes_def finish_tail reference_checksum_def tail_sum_def checksum_new_def)

section \<open>Folding is reduction modulo 65535\<close>

lemma fold_carry_bound: "fold_carry s < 65536"
  by (induction s rule: fold_carry.induct) (subst fold_carry.simps, auto simp: div_eq_0_iff)

lemma fold_carry_mod: "fold_carry s mod 65535 = s mod 65535"
proof (induction s rule: fold_carry.induct)
  case (1 s)
  have "(s mod 65536 + s div 65536) mod 65535 = s mod 65535"
  proof -
    have "s = 65536 * (s div 65536) + s mod 65536" by simp
    then have "s = (s mod 65536 + s div 65536) + 65535 * (s div 65536)" by linarith
    then show ?thesis by (metis mod_mult_self2)
  qed
  with 1 show ?case by (subst fold_carry.simps) auto
qed

lemma fold_carry_zero: "fold_carry s = 0 \<longleftrightarrow> s = 0"
proof (induction s rule: fold_carry.induct)
  case (1 s)
  show ?case
  proof (cases "s div 65536 = 0")
    case True
    then show ?thesis by (simp add: fold_carry.simps [of s])
  next
    case False
    moreover from False have "s \<noteq> 0" by auto
    ultimately show ?thesis using 1 by (simp add: fold_carry.simps [of s])
  qed
qed

lemma fold_carry_multiple:
  assumes "s mod 65535 = 0" "0 < s"
  shows "fold_carry s = 65535"
proof -
  have f: "65535 dvd fold_carry s" "fold_carry s \<noteq> 0" "fold_carry s < 65536"
    using fold_carry_mod [of s] assms fold_carry_zero [of s] fold_carry_bound [of s]
    by (simp_all add: mod_eq_0_iff_dvd [symmetric])
  then obtain q where q: "fold_carry s = 65535 * q" by (elim dvdE)
  then have "q \<noteq> 0" "q < 2" using f(2,3) by auto
  then have "q = 1" by linarith
  with q show ?thesis by simp
qed

lemma word_sum_even:
  "even (length xs) \<Longrightarrow> word_sum (xs @ ys) = word_sum xs + word_sum ys"
  by (induction xs rule: word_sum.induct) auto

definition be_bytes16 :: "16 word \<Rightarrow> 8 word list" where
  "be_bytes16 w = [ucast (drop_bit 8 w), ucast w]"

lemma word_sum_be_bytes: "word_sum (be_bytes16 w) = unat w"
proof -
  have "unat w < 65536" using unsigned_less [of w] by simp
  then have "unat w div 256 < 256" by (simp add: div_less_iff_less_mult)
  then have "unat (ucast (drop_bit 8 w) :: 8 word) = unat w div 256" "unat (ucast w :: 8 word) = unat w mod 256"
    by (auto simp: unsigned_ucast_eq take_bit_eq_mod unat_drop_bit_eq drop_bit_eq_div unat_div_distrib)
  then show ?thesis by (simp add: be_bytes16_def be16_def)
qed

lemma complement_sum:
  assumes "x < 65536"
  shows "unat (NOT (of_nat x) :: 16 word) + x = 65535"
proof -
  have "unat (of_nat x :: 16 word) = x" using assms by (simp only: unat_of_nat) simp
  moreover have "unat (NOT w) = 65535 - unat w" for w :: "16 word"
  proof -
    have "NOT w = -1 - w" by (simp add: not_eq_complement)
    then show ?thesis by (simp only: unat_sub [OF word_n1_ge] unsigned_minus_1_eq_mask) (simp add: mask_eq_exp_minus_1)
  qed
  ultimately show ?thesis using assms by simp
qed

lemma checksum_verifies_aux:
  assumes "even (length a)"
  shows "checksum_bytes (a @ be_bytes16 (checksum_bytes (a @ [0, 0] @ b)) @ b) = 0"
proof -
  let ?s = "word_sum a + word_sum b"
  let ?c = "checksum_bytes (a @ [0, 0] @ b)"
  have zero: "word_sum ([0, 0] @ b) = word_sum b" by (simp add: be16_def)
  have c: "?c = NOT (of_nat (fold_carry ?s))"
    using zero by (simp add: checksum_bytes_reference reference_checksum_def word_sum_even [OF assms])
  have cs: "unat ?c + fold_carry ?s = 65535" unfolding c by (rule complement_sum [OF fold_carry_bound])
  let ?t = "word_sum (a @ be_bytes16 ?c @ b)"
  have "even (length (be_bytes16 ?c))" by (simp add: be_bytes16_def)
  then have t: "?t = ?s + unat ?c"
    by (simp add: word_sum_even assms word_sum_be_bytes)
  have "?t mod 65535 = (fold_carry ?s + unat ?c) mod 65535"
    unfolding t by (metis fold_carry_mod mod_add_left_eq)
  then have m: "?t mod 65535 = 0" using cs by (simp add: add.commute)
  have "?t \<noteq> 0" using cs t fold_carry_zero [of ?s] by auto
  with m have "fold_carry ?t = 65535" by (intro fold_carry_multiple) auto
  then show ?thesis
    unfolding checksum_bytes_reference [of "a @ be_bytes16 ?c @ b"] reference_checksum_def by simp
qed

section \<open>Properties\<close>

text \<open>
  C29. The accumulator is independent of how a packet is cut into pieces, odd-sized ones included: it
  gives the checksum of the concatenation, computed word by word.
\<close>

theorem checksum_pieces_equiv:
  "checksum_finish (foldl checksum_add checksum_new bss) = reference_checksum (concat bss)"
  using checksum_pieces_sum [of checksum_new bss "[]"]
  by (simp add: finish_tail reference_checksum_def tail_sum_def checksum_new_def)

text \<open>
  C30. A header that carries its own checksum verifies: writing the checksum computed over a zeroed
  field at an even offset into that field makes the checksum of the whole zero.
\<close>

theorem checksum_verifies:
  assumes "even (length a)"
  shows "checksum_bytes (a @ be_bytes16 (checksum_bytes (a @ [0, 0] @ b)) @ b) = 0"
  by (rule checksum_verifies_aux [OF assms])

theorem checksum_verifies_witness:
  "checksum_bytes ([0x45, 0] @ be_bytes16 (checksum_bytes ([0x45, 0] @ [0, 0] @ [1, 2, 3])) @ [1, 2, 3]) = 0"
  using checksum_verifies [of "[0x45, 0]" "[1, 2, 3]"] by simp

end
