(* ===== verification/Reassembly.thy ===== *)
theory Reassembly
  imports NetAddress NetChecksum "HOL-Library.Product_Lexorder"
begin

text \<open>
  IP fragment reassembly: \<open>libs/net/src/flow/reassembly.rs\<close>. A packet chain is the list of its bytes;
  of the packet metadata only the two fields the code sets are named, the rest is one opaque value.
  The vector of datagrams keeps its order, so \<open>swap_remove\<close> and the first-minimum rule of the eviction
  are as in the source. Times are 64-bit nanoseconds as natural numbers.
\<close>

section \<open>Packets\<close>

record ip_fragment =
  fr_identification :: nat
  fr_offset :: nat
  fr_more :: bool

record ip_packet =
  ip_source :: ip_addr
  ip_destination :: ip_addr
  ip_next_header :: nat
  ip_header_len :: nat
  ip_payload_offset :: nat
  ip_payload_len :: nat
  ip_hop_limit :: nat
  ip_traffic_class :: nat
  ip_fragment_info :: "ip_fragment option"

record 'm packet_metadata =
  md_frame_len :: nat
  md_rss_hash :: "nat option"
  md_other :: 'm

record 'm frontend_packet =
  fp_ip :: "ip_packet option"
  fp_chain :: "8 word list"
  fp_metadata :: "'m packet_metadata"

definition copy_out :: "8 word list \<Rightarrow> nat \<Rightarrow> nat \<Rightarrow> 8 word list option" where
  "copy_out chain offset n = (if length chain < offset + n then None else Some (take n (drop offset chain)))"

text \<open>
  \<open>PacketChain::copy_out\<close> gathers the range from the fragments of the chain; on the concatenated bytes
  it is \<open>copy_out\<close>. In the loop \<open>packet_offset\<close> is where the next fragment starts and \<open>out\<close> what was copied.
\<close>

fun copy_loop :: "nat \<Rightarrow> nat \<Rightarrow> nat \<Rightarrow> nat \<Rightarrow> 8 word list \<Rightarrow> 8 word list list \<Rightarrow> 8 word list option" where
  "copy_loop offset end n packet_offset out [] = None"
| "copy_loop offset end n packet_offset out (bytes # rest) =
     (let fragment_end = packet_offset + length bytes;
          start = saturating_sub offset packet_offset;
          stop = min (length bytes) (end - packet_offset);
          out' = (if offset < fragment_end \<and> packet_offset < end then out @ take (stop - start) (drop start bytes) else out)
      in if length out' = n then Some out' else copy_loop offset end n fragment_end out' rest)"

definition chain_copy_out :: "8 word list list \<Rightarrow> nat \<Rightarrow> nat \<Rightarrow> 8 word list option" where
  "chain_copy_out frags offset n =
     (case checked_add offset n of
        None \<Rightarrow> None
      | Some end \<Rightarrow>
          if sum_list (map length frags) < end then None
          else if n = 0 then Some []
          else copy_loop offset end n 0 [] frags)"

lemma copy_loop_flat:
  "offset + n = end \<Longrightarrow> 0 < n \<Longrightarrow> length pre < end \<Longrightarrow> end \<le> length (pre @ concat frags) \<Longrightarrow>
     copy_loop offset end n (length pre) (drop offset pre) frags = Some (take n (drop offset (pre @ concat frags)))"
proof (induction frags arbitrary: pre)
  case (Cons b rest)
  let ?out = "if offset < length pre + length b \<and> length pre < end
    then drop offset pre @ take (min (length b) (end - length pre) - (offset - length pre)) (drop (offset - length pre) b)
    else drop offset pre"
  have out: "?out = drop offset (take end (pre @ b))"
    using Cons.prems(3) by (cases "length b \<le> end - length pre") (simp_all add: drop_take)
  show ?case
  proof (cases "end \<le> length pre + length b")
    case True
    then have "length ?out = n" unfolding out using Cons.prems(1) by simp
    moreover have "?out = take n (drop offset (pre @ concat (b # rest)))"
    proof -
      have "take end (pre @ concat (b # rest)) = take end (pre @ b)" using True by simp
      moreover have "take n (drop offset xs) = drop offset (take end xs)" for xs :: "8 word list"
        using Cons.prems(1) by (simp add: take_drop add.commute)
      ultimately show ?thesis unfolding out by (simp only:)
    qed
    ultimately show ?thesis by (simp add: Let_def)
  next
    case False
    then have o: "?out = drop offset (pre @ b)" unfolding out by simp
    have "length ?out \<noteq> n" unfolding o using False Cons.prems(1,2) by simp
    moreover have "copy_loop offset end n (length (pre @ b)) (drop offset (pre @ b)) rest =
        Some (take n (drop offset ((pre @ b) @ concat rest)))"
      using Cons.prems False by (intro Cons.IH) simp_all
    ultimately show ?thesis using o by (simp only: copy_loop.simps Let_def saturating_sub_eq length_append if_False) simp
  qed
qed simp

lemma chain_copy_out_flat:
  "offset + n \<le> U64_MAX \<Longrightarrow> chain_copy_out frags offset n = copy_out (concat frags) offset n"
  using copy_loop_flat [of offset n "offset + n" "[]" frags]
  by (auto simp: chain_copy_out_def copy_out_def checked_add_def length_concat)

section \<open>The table\<close>

definition MAX_DATAGRAMS_PER_INTERFACE :: nat where "MAX_DATAGRAMS_PER_INTERFACE = 64"
definition MAX_BYTES_PER_INTERFACE :: nat where "MAX_BYTES_PER_INTERFACE = 256 * 1024"
definition MAX_DATAGRAMS_PER_SOURCE :: nat where "MAX_DATAGRAMS_PER_SOURCE = 8"
definition REASSEMBLY_TIMEOUT_NS :: nat where "REASSEMBLY_TIMEOUT_NS = 30000000000"
definition MAX_PACKET_BYTES :: nat where "MAX_PACKET_BYTES = 65535 + 14"

record reassembly_key =
  rk_interface :: nat
  rk_source :: ip_addr
  rk_destination :: ip_addr
  rk_protocol :: nat
  rk_identification :: nat

record fragment_bytes =
  fb_offset :: nat
  fb_bytes :: "8 word list"

record 'm datagram =
  dg_key :: reassembly_key
  created_ns :: nat
  updated_ns :: nat
  dg_header :: "8 word list option"
  dg_metadata :: "'m packet_metadata option"
  fragments :: "fragment_bytes list"
  final_len :: "nat option"
  dg_payload_bytes :: nat
  dg_ipv6 :: bool

datatype drop_reason =
    NoDropReason | NoConsumer | MalformedDescriptor | LoopbackRingFull | DeviceGone | TruncatedFrame
  | UnsupportedEthernet | VlanUnsupported | MalformedArp | NotLocal | MalformedIpv4 | Ipv4Checksum
  | MalformedIpv6 | Ipv6ExtensionLimit | UnsupportedIpProtocol | MalformedUdp | UdpChecksum | UdpNoEndpoint
  | UdpRingFull | FlowTableFull | RouteUnavailable | TxQueueFull | IngressRingFull | MalformedTcp
  | TcpChecksum | TcpNoEndpoint | TcpRingFull | FragmentMalformed | FragmentOverlap | FragmentLimit
  | FragmentTimeout | RawNoEndpoint | RawRingFull

datatype 'm reassembly_result =
    Pending
  | Complete "8 word list" "'m packet_metadata"
  | Drop drop_reason

record 'm reassembly_table =
  datagrams :: "'m datagram list"
  rt_payload_bytes :: nat

definition reassembly_new :: "'m reassembly_table" where
  "reassembly_new = \<lparr>datagrams = [], rt_payload_bytes = 0\<rparr>"

definition rt_remove :: "'m reassembly_table \<Rightarrow> nat \<Rightarrow> 'm reassembly_table" where
  "rt_remove t i =
     \<lparr>datagrams = swap_remove i (datagrams t),
      rt_payload_bytes = saturating_sub (rt_payload_bytes t) (dg_payload_bytes (datagrams t ! i))\<rparr>"

definition rt_take :: "'m reassembly_table \<Rightarrow> nat \<Rightarrow> 'm datagram \<times> 'm reassembly_table" where
  "rt_take t i =
     (datagrams t ! i,
      \<lparr>datagrams = swap_remove i (datagrams t),
       rt_payload_bytes = saturating_sub (rt_payload_bytes t) (dg_payload_bytes (datagrams t ! i))\<rparr>)"

definition key_position :: "'m reassembly_table \<Rightarrow> reassembly_key \<Rightarrow> nat option" where
  "key_position t key = position (\<lambda>e. dg_key e = key) (datagrams t)"

definition remove_key :: "'m reassembly_table \<Rightarrow> reassembly_key \<Rightarrow> 'm reassembly_table" where
  "remove_key t key = (case key_position t key of Some i \<Rightarrow> rt_remove t i | None \<Rightarrow> t)"

definition evict_oldest_matching :: "'m reassembly_table \<Rightarrow> ('m datagram \<Rightarrow> bool) \<Rightarrow> 'm reassembly_table option" where
  "evict_oldest_matching t P =
     (case min_by_key (\<lambda>(i, e). (updated_ns e, created_ns e))
             (filter (\<lambda>(i, e). P e) (List.enumerate 0 (datagrams t))) of
        Some (i, _) \<Rightarrow> Some (rt_remove t i)
      | None \<Rightarrow> None)"

lemma enumerate_mem: "(i, e) \<in> set (List.enumerate 0 xs) \<Longrightarrow> i < length xs \<and> xs ! i = e"
  by (auto simp: in_set_enumerate_eq)

lemma evict_oldest_Some:
  assumes "evict_oldest_matching t P = Some t'"
  shows "\<exists>i. i < length (datagrams t) \<and> P (datagrams t ! i) \<and> t' = rt_remove t i"
proof -
  obtain i e where m: "min_by_key (\<lambda>(i, e). (updated_ns e, created_ns e))
      (filter (\<lambda>(i, e). P e) (List.enumerate 0 (datagrams t))) = Some (i, e)" and t': "t' = rt_remove t i"
    using assms by (auto simp: evict_oldest_matching_def split: option.splits)
  have "(i, e) \<in> set (List.enumerate 0 (datagrams t))" "P e"
    using min_by_key_mem [OF m] by auto
  then have "i < length (datagrams t)" "P (datagrams t ! i)" using enumerate_mem by fastforce+
  with t' show ?thesis by blast
qed

lemma rt_remove_length: "i < length (datagrams t) \<Longrightarrow> length (datagrams (rt_remove t i)) = length (datagrams t) - 1"
  by (simp add: rt_remove_def)

text \<open>The scan of \<open>expire\<close> and \<open>invalidate_interface\<close>: a removal is followed by a look at the same index.\<close>

function purge_from :: "('m datagram \<Rightarrow> bool) \<Rightarrow> nat \<Rightarrow> 'm reassembly_table \<Rightarrow> 'm reassembly_table" where
  "purge_from P i t =
     (if i < length (datagrams t) then
        (if P (datagrams t ! i) then purge_from P i (rt_remove t i) else purge_from P (i + 1) t)
      else t)"
  by pat_completeness auto
termination
  by (relation "measure (\<lambda>(P, i, t). length (datagrams t) - i)") (auto simp: rt_remove_length)

definition expire :: "'m reassembly_table \<Rightarrow> nat \<Rightarrow> nat \<times> 'm reassembly_table" where
  "expire t now =
     (let t' = purge_from (\<lambda>e. REASSEMBLY_TIMEOUT_NS \<le> saturating_sub now (updated_ns e)) 0 t
      in (length (datagrams t) - length (datagrams t'), t'))"

definition invalidate_interface :: "'m reassembly_table \<Rightarrow> nat \<Rightarrow> nat \<times> 'm reassembly_table" where
  "invalidate_interface t ifc =
     (let t' = purge_from (\<lambda>e. rk_interface (dg_key e) = ifc) 0 t
      in (length (datagrams t) - length (datagrams t'), t'))"

section \<open>Limits\<close>

definition interface_count :: "'m reassembly_table \<Rightarrow> nat \<Rightarrow> nat" where
  "interface_count t ifc = length (filter (\<lambda>e. rk_interface (dg_key e) = ifc) (datagrams t))"

definition source_count :: "'m reassembly_table \<Rightarrow> nat \<Rightarrow> ip_addr \<Rightarrow> nat" where
  "source_count t ifc src =
     length (filter (\<lambda>e. rk_interface (dg_key e) = ifc \<and> rk_source (dg_key e) = src) (datagrams t))"

definition interface_bytes :: "'m reassembly_table \<Rightarrow> nat \<Rightarrow> nat" where
  "interface_bytes t ifc =
     sum_list (map dg_payload_bytes (filter (\<lambda>e. rk_interface (dg_key e) = ifc) (datagrams t)))"

function make_room :: "reassembly_key \<Rightarrow> 'm reassembly_table \<Rightarrow> bool \<times> 'm reassembly_table" where
  "make_room key t =
     (if MAX_DATAGRAMS_PER_INTERFACE \<le> interface_count t (rk_interface key) \<or>
         MAX_DATAGRAMS_PER_SOURCE \<le> source_count t (rk_interface key) (rk_source key)
      then
        (let source_full = MAX_DATAGRAMS_PER_SOURCE \<le> source_count t (rk_interface key) (rk_source key)
         in case evict_oldest_matching t (\<lambda>e. rk_interface (dg_key e) = rk_interface key \<and>
                  (\<not> source_full \<or> rk_source (dg_key e) = rk_source key)) of
              None \<Rightarrow> (False, t)
            | Some t' \<Rightarrow> make_room key t')
      else (True, t))"
  by pat_completeness auto
termination
  by (relation "measure (\<lambda>(key, t). length (datagrams t))")
    (auto dest!: evict_oldest_Some simp: rt_remove_length)

definition empty_datagram :: "reassembly_key \<Rightarrow> nat \<Rightarrow> bool \<Rightarrow> 'm datagram" where
  "empty_datagram key now ipv6 =
     \<lparr>dg_key = key, created_ns = now, updated_ns = now, dg_header = None, dg_metadata = None,
      fragments = [], final_len = None, dg_payload_bytes = 0, dg_ipv6 = ipv6\<rparr>"

definition insert_datagram ::
  "'m reassembly_table \<Rightarrow> reassembly_key \<Rightarrow> nat \<Rightarrow> bool \<Rightarrow> nat option \<times> 'm reassembly_table" where
  "insert_datagram t key now ipv6 =
     (case make_room key t of
        (False, t') \<Rightarrow> (None, t')
      | (True, t') \<Rightarrow>
          (Some (length (datagrams t')), t'\<lparr>datagrams := datagrams t' @ [empty_datagram key now ipv6]\<rparr>))"

function ensure_payload_capacity :: "reassembly_key \<Rightarrow> nat \<Rightarrow> 'm reassembly_table \<Rightarrow> bool \<times> 'm reassembly_table" where
  "ensure_payload_capacity key additional t =
     (if saturating_add (interface_bytes t (rk_interface key)) additional \<le> MAX_BYTES_PER_INTERFACE then (True, t)
      else case evict_oldest_matching t (\<lambda>e. rk_interface (dg_key e) = rk_interface key \<and> dg_key e \<noteq> key) of
          None \<Rightarrow> (False, remove_key t key)
        | Some t' \<Rightarrow> ensure_payload_capacity key additional t')"
  by pat_completeness auto
termination
  by (relation "measure (\<lambda>(key, additional, t). length (datagrams t))")
    (auto dest!: evict_oldest_Some simp: rt_remove_length)

declare purge_from.simps [simp del] make_room.simps [simp del] ensure_payload_capacity.simps [simp del]

section \<open>Completion\<close>

fun contiguous_end :: "nat \<Rightarrow> fragment_bytes list \<Rightarrow> nat option" where
  "contiguous_end expected [] = Some expected"
| "contiguous_end expected (f # fs) =
     (if fb_offset f \<noteq> expected then None else contiguous_end (expected + length (fb_bytes f)) fs)"

definition is_complete :: "'m datagram \<Rightarrow> bool" where
  "is_complete d =
     (case (final_len d, dg_header d) of
        (Some n, Some _) \<Rightarrow> contiguous_end 0 (fragments d) = Some n
      | _ \<Rightarrow> False)"

definition put_bytes :: "8 word list \<Rightarrow> nat \<Rightarrow> 8 word list \<Rightarrow> 8 word list" where
  "put_bytes bytes i xs = take i bytes @ xs @ drop (i + length xs) bytes"

definition finish_ipv6 :: "8 word list \<Rightarrow> nat \<Rightarrow> 8 word list option" where
  "finish_ipv6 bytes n =
     (if length bytes < 62 \<or> 65535 < length bytes - 54 then None
      else let b1 = put_bytes bytes 18 (be_bytes16 (of_nat (length bytes - 54))) in
        (case checked_sub (length b1) (n + 6) of
           None \<Rightarrow> None
         | Some field \<Rightarrow> if field + 2 \<le> length b1 then Some (put_bytes b1 field [0, 0]) else None))"

definition finish_ipv4 :: "8 word list \<Rightarrow> 8 word list option" where
  "finish_ipv4 bytes =
     (let ip_len = saturating_sub (length bytes) 14 in
      if 65535 < ip_len \<or> length bytes < 34 then None
      else let b1 = put_bytes bytes 16 (be_bytes16 (of_nat ip_len));
               b2 = put_bytes b1 20 [0, 0];
               b3 = put_bytes b2 24 [0, 0];
               header_len = unat (b3 ! 14 AND 0x0f) * 4
           in if \<not> (20 \<le> header_len \<and> header_len \<le> 60) \<or> length b3 < 14 + header_len then None
              else Some (put_bytes b3 24 (be_bytes16 (checksum_bytes (take header_len (drop 14 b3))))))"

definition build_packet :: "'m packet_metadata \<Rightarrow> 'm datagram \<Rightarrow> 'm reassembly_result" where
  "build_packet default_metadata d =
     (case (dg_header d, final_len d) of
        (Some header, Some n) \<Rightarrow>
          (let bytes = header @ concat (map fb_bytes (fragments d)) in
           case (if dg_ipv6 d then finish_ipv6 bytes n else finish_ipv4 bytes) of
             None \<Rightarrow> Drop FragmentMalformed
           | Some out \<Rightarrow>
               Complete out ((case dg_metadata d of Some m \<Rightarrow> m | None \<Rightarrow> default_metadata)
                 \<lparr>md_frame_len := length out mod 2 ^ 32, md_rss_hash := None\<rparr>))
      | _ \<Rightarrow> Drop FragmentMalformed)"

section \<open>Ingest\<close>

definition is_v6 :: "ip_addr \<Rightarrow> bool" where
  "is_v6 a = (case a of V6 _ \<Rightarrow> True | V4 _ \<Rightarrow> False)"

text \<open>
  What one accepted fragment changes in its datagram; \<open>None\<close> where the code drops the datagram as
  malformed.
\<close>

definition add_fragment ::
  "nat \<Rightarrow> 'm frontend_packet \<Rightarrow> ip_packet \<Rightarrow> ip_fragment \<Rightarrow> 'm datagram \<Rightarrow> 'm datagram option" where
  "add_fragment now packet ip fragment d =
     (let payload_len = ip_payload_len ip; offset = saturating_mul (fr_offset fragment) 8; end = offset + payload_len in
      case copy_out (fp_chain packet) (ip_payload_offset ip) payload_len of
        None \<Rightarrow> None
      | Some bytes \<Rightarrow>
          case (if offset = 0 then
                  map_option (\<lambda>header. d\<lparr>dg_header := Some header, dg_metadata := Some (fp_metadata packet)\<rparr>)
                    (copy_out (fp_chain packet) 0 (ip_payload_offset ip))
                else Some d) of
            None \<Rightarrow> None
          | Some d1 \<Rightarrow>
              if \<not> fr_more fragment \<and> (case final_len d1 of Some current \<Rightarrow> current \<noteq> end | None \<Rightarrow> False) then None
              else let d2 = (if \<not> fr_more fragment then d1\<lparr>final_len := Some end\<rparr> else d1)
                   in Some (d2\<lparr>fragments := sort_key fb_offset (fragments d2 @ [\<lparr>fb_offset = offset, fb_bytes = bytes\<rparr>]),
                              dg_payload_bytes := dg_payload_bytes d2 + payload_len, updated_ns := now\<rparr>))"

definition fragment_overlaps :: "nat \<Rightarrow> nat \<Rightarrow> fragment_bytes list \<Rightarrow> bool" where
  "fragment_overlaps offset end parts =
     list_ex (\<lambda>part. offset < fb_offset part + length (fb_bytes part) \<and> fb_offset part < end) parts"

definition store_fragment ::
  "'m packet_metadata \<Rightarrow> nat \<Rightarrow> 'm frontend_packet \<Rightarrow> ip_packet \<Rightarrow> ip_fragment \<Rightarrow> 'm reassembly_table \<Rightarrow> nat \<Rightarrow>
   'm reassembly_result \<times> 'm reassembly_table" where
  "store_fragment default_metadata now packet ip fragment t i =
     (case add_fragment now packet ip fragment (datagrams t ! i) of
        None \<Rightarrow> (Drop FragmentMalformed, rt_remove t i)
      | Some d \<Rightarrow>
          (let t' = t\<lparr>datagrams := (datagrams t)[i := d], rt_payload_bytes := rt_payload_bytes t + ip_payload_len ip\<rparr>
           in if \<not> is_complete d then (Pending, t')
              else case rt_take t' i of (whole, t'') \<Rightarrow> (build_packet default_metadata whole, t'')))"

definition ingest ::
  "'m packet_metadata \<Rightarrow> 'm reassembly_table \<Rightarrow> nat \<Rightarrow> nat \<Rightarrow> 'm frontend_packet \<Rightarrow>
   'm reassembly_result \<times> 'm reassembly_table" where
  "ingest default_metadata t ifc now packet =
     (let t0 = snd (expire t now) in
      case fp_ip packet of None \<Rightarrow> (Drop FragmentMalformed, t0) | Some ip \<Rightarrow>
      (case ip_fragment_info ip of None \<Rightarrow> (Drop FragmentMalformed, t0) | Some fragment \<Rightarrow>
       (let payload_len = ip_payload_len ip; offset = saturating_mul (fr_offset fragment) 8; end = offset + payload_len in
        if payload_len = 0 \<or> (fr_more fragment \<and> payload_len mod 8 \<noteq> 0) \<or> MAX_PACKET_BYTES < end
        then (Drop FragmentMalformed, t0)
        else
          (let key = \<lparr>rk_interface = ifc, rk_source = ip_source ip, rk_destination = ip_destination ip,
                      rk_protocol = ip_next_header ip, rk_identification = fr_identification fragment\<rparr> in
           case (case key_position t0 key of
                   Some i \<Rightarrow> (Some i, t0)
                 | None \<Rightarrow> insert_datagram t0 key now (is_v6 (ip_source ip))) of
             (None, t1) \<Rightarrow> (Drop FragmentLimit, t1)
           | (Some i, t1) \<Rightarrow>
               if fragment_overlaps offset end (fragments (datagrams t1 ! i))
               then (Drop FragmentOverlap, rt_remove t1 i)
               else (case ensure_payload_capacity key payload_len t1 of
                   (False, t2) \<Rightarrow> (Drop FragmentLimit, t2)
                 | (True, t2) \<Rightarrow>
                     (case key_position t2 key of
                        None \<Rightarrow> (Drop FragmentLimit, t2)
                      | Some j \<Rightarrow> store_fragment default_metadata now packet ip fragment t2 j))))))"

end
