(* ===== verification/ReassemblyProps.thy ===== *)
theory ReassemblyProps
  imports Reassembly
begin

text \<open>
  Invariants of the reassembly table (consistent accounting, disjoint fragments, the limits on
  datagrams and bytes) and correctness of a completed packet.
\<close>

section \<open>The invariant, independent of the order of datagrams\<close>

definition fragments_ok :: "fragment_bytes list \<Rightarrow> bool" where
  "fragments_ok fs \<longleftrightarrow> sorted_wrt (\<lambda>a b. fb_offset a + length (fb_bytes a) \<le> fb_offset b) fs \<and>
     (\<forall>f\<in>set fs. fb_bytes f \<noteq> [] \<and> fb_offset f + length (fb_bytes f) \<le> MAX_PACKET_BYTES)"

definition datagram_ok :: "'m datagram \<Rightarrow> bool" where
  "datagram_ok d \<longleftrightarrow> fragments_ok (fragments d) \<and>
     dg_payload_bytes d = sum_list (map (length \<circ> fb_bytes) (fragments d)) \<and>
     (\<forall>h. dg_header d = Some h \<longrightarrow> 34 \<le> length h) \<and> dg_ipv6 d = is_v6 (rk_source (dg_key d))"

definition on_interface :: "nat \<Rightarrow> 'm datagram \<Rightarrow> bool" where
  "on_interface ifc e \<longleftrightarrow> rk_interface (dg_key e) = ifc"

definition from_source :: "nat \<Rightarrow> ip_addr \<Rightarrow> 'm datagram \<Rightarrow> bool" where
  "from_source ifc src e \<longleftrightarrow> rk_interface (dg_key e) = ifc \<and> rk_source (dg_key e) = src"

definition list_ok :: "'m datagram list \<Rightarrow> nat \<Rightarrow> bool" where
  "list_ok xs n \<longleftrightarrow> (\<forall>d\<in>set xs. datagram_ok d) \<and> distinct (map dg_key xs) \<and>
     n = sum_list (map dg_payload_bytes xs) \<and>
     (\<forall>ifc. length (filter (on_interface ifc) xs) \<le> MAX_DATAGRAMS_PER_INTERFACE \<and>
            sum_list (map dg_payload_bytes (filter (on_interface ifc) xs)) \<le> MAX_BYTES_PER_INTERFACE) \<and>
     (\<forall>ifc src. length (filter (from_source ifc src) xs) \<le> MAX_DATAGRAMS_PER_SOURCE)"

definition reass_ok :: "'m reassembly_table \<Rightarrow> bool" where
  "reass_ok t \<longleftrightarrow> list_ok (datagrams t) (rt_payload_bytes t)"

lemma counts [simp]:
  "interface_count t ifc = length (filter (on_interface ifc) (datagrams t))"
  "source_count t ifc src = length (filter (from_source ifc src) (datagrams t))"
  "interface_bytes t ifc = sum_list (map dg_payload_bytes (filter (on_interface ifc) (datagrams t)))"
  by (simp_all add: interface_count_def source_count_def interface_bytes_def on_interface_def [abs_def]
      from_source_def [abs_def])

lemma list_ok_perm:
  assumes "mset xs = mset ys"
  shows "list_ok xs n \<longleftrightarrow> list_ok ys n"
proof -
  have "set xs = set ys" using assms by (rule mset_eq_setD)
  moreover have "distinct (map dg_key xs) = distinct (map dg_key ys)"
    using assms by (intro mset_eq_imp_distinct_iff) simp
  moreover have "sum_list (map dg_payload_bytes xs) = sum_list (map dg_payload_bytes ys)"
    using sum_list_perm [OF assms, of dg_payload_bytes "\<lambda>_. True"] by simp
  moreover note length_filter_perm [OF assms] sum_list_perm [OF assms, of dg_payload_bytes]
  ultimately show ?thesis by (simp add: list_ok_def)
qed

lemma list_ok_tail: "list_ok (d # xs) n \<Longrightarrow> list_ok xs (saturating_sub n (dg_payload_bytes d))"
proof -
  assume ok: "list_ok (d # xs) n"
  have le: "length (filter P xs) \<le> length (filter P (d # xs))"
    "sum_list (map dg_payload_bytes (filter P xs)) \<le> sum_list (map dg_payload_bytes (filter P (d # xs)))" for P
    by simp_all
  have "\<forall>ifc. length (filter (on_interface ifc) xs) \<le> MAX_DATAGRAMS_PER_INTERFACE \<and>
            sum_list (map dg_payload_bytes (filter (on_interface ifc) xs)) \<le> MAX_BYTES_PER_INTERFACE"
    using ok unfolding list_ok_def using le(1)[of "on_interface _"] le(2)[of "on_interface _"] order_trans by blast
  moreover have "\<forall>ifc src. length (filter (from_source ifc src) xs) \<le> MAX_DATAGRAMS_PER_SOURCE"
    using ok unfolding list_ok_def using le(1)[of "from_source _ _"] order_trans by blast
  ultimately show ?thesis using ok by (simp add: list_ok_def)
qed

lemma reass_ok_remove:
  assumes "reass_ok t" "i < length (datagrams t)"
  shows "reass_ok (rt_remove t i)"
  using assms list_ok_perm [OF swap_remove_perm [OF assms(2)]] list_ok_tail
  by (simp add: reass_ok_def rt_remove_def)

lemma rt_remove_subset: "i < length (datagrams t) \<Longrightarrow> set (datagrams (rt_remove t i)) \<subseteq> set (datagrams t)"
  by (simp add: rt_remove_def swap_remove_set_subset)

lemma key_unique:
  "reass_ok t \<Longrightarrow> d \<in> set (datagrams t) \<Longrightarrow> e \<in> set (datagrams t) \<Longrightarrow> dg_key d = dg_key e \<Longrightarrow> d = e"
  unfolding reass_ok_def list_ok_def by (meson distinct_map inj_onD)

lemma rt_remove_keeps:
  assumes "i < length (datagrams t)" "d \<in> set (datagrams t)" "d \<noteq> datagrams t ! i"
  shows "d \<in> set (datagrams (rt_remove t i))"
proof -
  have "set (datagrams t) = insert (datagrams t ! i) (set (swap_remove i (datagrams t)))"
    using mset_eq_setD [OF swap_remove_perm [OF assms(1)]] by simp
  with assms(2,3) show ?thesis by (auto simp: rt_remove_def)
qed

section \<open>The loops\<close>

lemma evict_oldest_exists:
  assumes "\<exists>e\<in>set (datagrams t). P e"
  shows "\<exists>t'. evict_oldest_matching t P = Some t'"
proof -
  obtain i where "i < length (datagrams t)" "P (datagrams t ! i)" using assms by (metis in_set_conv_nth)
  then have "(i, datagrams t ! i) \<in> set (filter (\<lambda>(i, e). P e) (List.enumerate 0 (datagrams t)))"
    by (simp add: in_set_enumerate_eq)
  then have ne: "filter (\<lambda>(i, e). P e) (List.enumerate 0 (datagrams t)) \<noteq> []"
    by (metis length_pos_if_in_set length_greater_0_conv)
  show ?thesis
  proof (cases "min_by_key (\<lambda>(i, e). (updated_ns e, created_ns e))
      (filter (\<lambda>(i, e). P e) (List.enumerate 0 (datagrams t)))")
    case None
    with ne show ?thesis by (simp only: min_by_key_None)
  next
    case (Some p)
    then show ?thesis by (cases p) (simp add: evict_oldest_matching_def)
  qed
qed

lemma purge_ok: "reass_ok t \<Longrightarrow> reass_ok (purge_from P i t) \<and> set (datagrams (purge_from P i t)) \<subseteq> set (datagrams t)"
proof (induction P i t rule: purge_from.induct)
  case (1 P i t)
  show ?case
  proof (cases "i < length (datagrams t)")
    case True
    show ?thesis
    proof (cases "P (datagrams t ! i)")
      case P: True
      from "1.IH"(1) [OF True P reass_ok_remove [OF "1.prems" True]] rt_remove_subset [OF True]
      show ?thesis using True P by (simp add: purge_from.simps [of P i t]) blast
    next
      case False
      with "1.IH"(2) [OF True False "1.prems"] True show ?thesis by (simp add: purge_from.simps [of P i t])
    qed
  qed (simp add: purge_from.simps [of P i t] "1.prems")
qed

lemma make_room_ok:
  "reass_ok t \<Longrightarrow> \<exists>t'. make_room key t = (True, t') \<and> reass_ok t' \<and> set (datagrams t') \<subseteq> set (datagrams t) \<and>
     length (filter (on_interface (rk_interface key)) (datagrams t')) < MAX_DATAGRAMS_PER_INTERFACE \<and>
     length (filter (from_source (rk_interface key) (rk_source key)) (datagrams t')) < MAX_DATAGRAMS_PER_SOURCE"
proof (induction key t rule: make_room.induct)
  case (1 key t)
  let ?full = "MAX_DATAGRAMS_PER_INTERFACE \<le> interface_count t (rk_interface key) \<or>
         MAX_DATAGRAMS_PER_SOURCE \<le> source_count t (rk_interface key) (rk_source key)"
  let ?sf = "MAX_DATAGRAMS_PER_SOURCE \<le> source_count t (rk_interface key) (rk_source key)"
  let ?P = "\<lambda>e. rk_interface (dg_key e) = rk_interface key \<and> (\<not> ?sf \<or> rk_source (dg_key e) = rk_source key)"
  show ?case
  proof (cases ?full)
    case False
    then show ?thesis using "1.prems" by (simp add: make_room.simps [of key t] not_le)
  next
    case True
    have "\<exists>e\<in>set (datagrams t). ?P e"
    proof (cases ?sf)
      case True
      then have "filter (from_source (rk_interface key) (rk_source key)) (datagrams t) \<noteq> []"
        by (auto simp: MAX_DATAGRAMS_PER_SOURCE_def)
      then obtain e where "e \<in> set (datagrams t)" "from_source (rk_interface key) (rk_source key) e"
        by (auto simp only: filter_empty_conv)
      then show ?thesis by (intro bexI [of _ e]) (simp_all add: from_source_def)
    next
      case False
      with True have "filter (on_interface (rk_interface key)) (datagrams t) \<noteq> []"
        by (auto simp: MAX_DATAGRAMS_PER_INTERFACE_def)
      then obtain e where "e \<in> set (datagrams t)" "on_interface (rk_interface key) e"
        by (auto simp only: filter_empty_conv)
      with False show ?thesis by (intro bexI [of _ e]) (simp_all add: on_interface_def)
    qed
    then obtain t' where e: "evict_oldest_matching t ?P = Some t'" by (rule evict_oldest_exists [THEN exE])
    from evict_oldest_Some [OF e] obtain i where i: "i < length (datagrams t)" "t' = rt_remove t i" by blast
    have ok': "reass_ok t'" unfolding i(2) by (rule reass_ok_remove [OF "1.prems" i(1)])
    from "1.IH" [OF True refl e ok'] rt_remove_subset [OF i(1)]
    show ?thesis unfolding make_room.simps [of key t] using True e i(2) by (auto simp: Let_def)
  qed
qed

lemma ensure_ok:
  assumes "reass_ok t" "ensure_payload_capacity key add t = (b, t')"
  shows "reass_ok t' \<and> set (datagrams t') \<subseteq> set (datagrams t) \<and>
    (b \<longrightarrow> sum_list (map dg_payload_bytes (filter (on_interface (rk_interface key)) (datagrams t'))) + add
              \<le> MAX_BYTES_PER_INTERFACE \<and>
           (\<forall>d\<in>set (datagrams t). dg_key d = key \<longrightarrow> d \<in> set (datagrams t')))"
  using assms
proof (induction key add t rule: ensure_payload_capacity.induct)
  case (1 key add t)
  let ?P = "\<lambda>e. rk_interface (dg_key e) = rk_interface key \<and> dg_key e \<noteq> key"
  show ?case
  proof (cases "saturating_add (interface_bytes t (rk_interface key)) add \<le> MAX_BYTES_PER_INTERFACE")
    case True
    have "interface_bytes t (rk_interface key) + add \<le> MAX_BYTES_PER_INTERFACE"
      using True by (simp add: saturating_add_def MAX_BYTES_PER_INTERFACE_def min_def split: if_splits)
    with True "1.prems" show ?thesis by (simp add: ensure_payload_capacity.simps [of key add t])
  next
    case full: False
    show ?thesis
    proof (cases "evict_oldest_matching t ?P")
      case None
      then have r: "b = False" "t' = remove_key t key"
        using "1.prems"(2) full by (simp_all add: ensure_payload_capacity.simps [of key add t])
      have "reass_ok t' \<and> set (datagrams t') \<subseteq> set (datagrams t)"
      proof (cases "key_position t key")
        case None
        then show ?thesis using "1.prems"(1) r by (simp add: remove_key_def)
      next
        case (Some i)
        then have "i < length (datagrams t)" by (simp add: key_position_def position_Some)
        then show ?thesis using reass_ok_remove [OF "1.prems"(1)] rt_remove_subset r Some by (simp add: remove_key_def)
      qed
      with r show ?thesis by simp
    next
      case (Some t1)
      from evict_oldest_Some [OF Some] obtain i where i: "i < length (datagrams t)" "?P (datagrams t ! i)"
        "t1 = rt_remove t i" by blast
      have ok1: "reass_ok t1" unfolding i(3) by (rule reass_ok_remove [OF "1.prems"(1) i(1)])
      have e1: "ensure_payload_capacity key add t1 = (b, t')"
        using "1.prems"(2) full Some by (simp add: ensure_payload_capacity.simps [of key add t])
      have keep: "\<forall>d\<in>set (datagrams t). dg_key d = key \<longrightarrow> d \<in> set (datagrams t1)"
        using rt_remove_keeps [OF i(1)] i(2,3) by blast
      from "1.IH" [OF full Some ok1 e1] keep rt_remove_subset [OF i(1)] i(3) show ?thesis by blast
    qed
  qed
qed

section \<open>One fragment\<close>

lemma fragments_ok_insert:
  assumes ok: "fragments_ok fs" and no: "\<not> fragment_overlaps off (off + length bs) fs"
    and bs: "bs \<noteq> []" "off + length bs \<le> MAX_PACKET_BYTES"
  shows "fragments_ok (sort_key fb_offset (fs @ [\<lparr>fb_offset = off, fb_bytes = bs\<rparr>]))"
proof -
  let ?new = "\<lparr>fb_offset = off, fb_bytes = bs\<rparr>"
  let ?R = "\<lambda>a b. fb_offset a + length (fb_bytes a) \<le> fb_offset b \<or> fb_offset b + length (fb_bytes b) \<le> fb_offset a"
  have sym: "?R a b \<Longrightarrow> ?R b a" for a b by blast
  have ne: "\<forall>f\<in>set (fs @ [?new]). fb_bytes f \<noteq> []" using ok bs by (auto simp: fragments_ok_def)
  have "sorted_wrt ?R (fs @ [?new])"
    using ok no by (fastforce simp: fragments_ok_def sorted_wrt_append fragment_overlaps_def list_ex_iff
        elim: sorted_wrt_mono_rel [rotated])
  then have R: "sorted_wrt ?R (sort_key fb_offset (fs @ [?new]))"
    by (simp add: sorted_wrt_sort_key_sym [of ?R, OF sym])
  have "sorted_wrt (\<lambda>a b. fb_offset a \<le> fb_offset b) (sort_key fb_offset (fs @ [?new]))"
    using sorted_sort_key [of fb_offset "fs @ [?new]"] by (simp add: sorted_map)
  with R have "sorted_wrt (\<lambda>a b. ?R a b \<and> fb_offset a \<le> fb_offset b) (sort_key fb_offset (fs @ [?new]))"
    by (simp add: sorted_wrt_iff_nth_less)
  then have "sorted_wrt (\<lambda>a b. fb_offset a + length (fb_bytes a) \<le> fb_offset b) (sort_key fb_offset (fs @ [?new]))"
  proof (rule sorted_wrt_mono_rel [rotated])
    fix a b
    assume "a \<in> set (sort_key fb_offset (fs @ [?new]))" "b \<in> set (sort_key fb_offset (fs @ [?new]))"
      and r: "?R a b \<and> fb_offset a \<le> fb_offset b"
    then have "fb_bytes b \<noteq> []" using ne by (simp only: set_sort) blast
    then have "0 < length (fb_bytes b)" by simp
    with r show "fb_offset a + length (fb_bytes a) \<le> fb_offset b" by linarith
  qed
  moreover have "\<forall>f\<in>set (sort_key fb_offset (fs @ [?new])). fb_bytes f \<noteq> [] \<and>
      fb_offset f + length (fb_bytes f) \<le> MAX_PACKET_BYTES"
    using ok bs by (auto simp: fragments_ok_def)
  ultimately show ?thesis by (simp add: fragments_ok_def)
qed

text \<open>The parser places the payload of an IP packet behind at least an Ethernet and an IPv4 header.\<close>

definition packet_wf :: "'m frontend_packet \<Rightarrow> bool" where
  "packet_wf p \<longleftrightarrow> (\<forall>ip. fp_ip p = Some ip \<longrightarrow> 34 \<le> ip_payload_offset ip)"

lemma copy_out_length: "copy_out c off n = Some bs \<Longrightarrow> length bs = n"
  by (auto simp: copy_out_def split: if_splits)

lemma add_fragment_Some:
  assumes "add_fragment now p ip fr d = Some d'"
  defines "off \<equiv> saturating_mul (fr_offset fr) 8"
  obtains bs where "copy_out (fp_chain p) (ip_payload_offset ip) (ip_payload_len ip) = Some bs"
    "fragments d' = sort_key fb_offset (fragments d @ [\<lparr>fb_offset = off, fb_bytes = bs\<rparr>])"
    "dg_key d' = dg_key d" "dg_ipv6 d' = dg_ipv6 d"
    "dg_payload_bytes d' = dg_payload_bytes d + ip_payload_len ip"
    "dg_header d' = dg_header d \<or> copy_out (fp_chain p) 0 (ip_payload_offset ip) = dg_header d'"
proof -
  obtain bs where bs: "copy_out (fp_chain p) (ip_payload_offset ip) (ip_payload_len ip) = Some bs"
    using assms(1) by (auto simp: add_fragment_def Let_def split: option.splits)
  show thesis
    by (rule that [OF bs]; use assms(1) bs in \<open>auto simp: add_fragment_def off_def Let_def split: option.splits if_splits\<close>)
qed

lemma add_fragment_ok:
  assumes ok: "datagram_ok d" and add: "add_fragment now p ip fr d = Some d'"
    and wf: "34 \<le> ip_payload_offset ip" and len: "ip_payload_len ip \<noteq> 0"
    and lim: "saturating_mul (fr_offset fr) 8 + ip_payload_len ip \<le> MAX_PACKET_BYTES"
    and no: "\<not> fragment_overlaps (saturating_mul (fr_offset fr) 8) (saturating_mul (fr_offset fr) 8 + ip_payload_len ip) (fragments d)"
  shows "datagram_ok d'"
proof -
  from add obtain bs where bs: "copy_out (fp_chain p) (ip_payload_offset ip) (ip_payload_len ip) = Some bs"
    "fragments d' = sort_key fb_offset (fragments d @ [\<lparr>fb_offset = saturating_mul (fr_offset fr) 8, fb_bytes = bs\<rparr>])"
    "dg_payload_bytes d' = dg_payload_bytes d + ip_payload_len ip"
    "dg_header d' = dg_header d \<or> copy_out (fp_chain p) 0 (ip_payload_offset ip) = dg_header d'"
    "dg_key d' = dg_key d" "dg_ipv6 d' = dg_ipv6 d"
    by (rule add_fragment_Some)
  have lb: "length bs = ip_payload_len ip" using copy_out_length [OF bs(1)] .
  have f: "fragments_ok (fragments d')"
    unfolding bs(2) using ok no lb len lim by (intro fragments_ok_insert) (auto simp: datagram_ok_def)
  have perm: "mset (fragments d') = mset (fragments d @ [\<lparr>fb_offset = saturating_mul (fr_offset fr) 8, fb_bytes = bs\<rparr>])"
    unfolding bs(2) by simp
  have "sum_list (map (length \<circ> fb_bytes) (fragments d')) =
      sum_list (map (length \<circ> fb_bytes) (fragments d @ [\<lparr>fb_offset = saturating_mul (fr_offset fr) 8, fb_bytes = bs\<rparr>]))"
    using sum_list_perm [OF perm, of "length \<circ> fb_bytes" "\<lambda>_. True"] by simp
  then have s: "dg_payload_bytes d' = sum_list (map (length \<circ> fb_bytes) (fragments d'))"
    using ok lb bs(3) by (simp add: datagram_ok_def)
  have "\<forall>h. dg_header d' = Some h \<longrightarrow> 34 \<le> length h"
    using bs(4) ok wf copy_out_length by (auto simp: datagram_ok_def)
  with f s bs(5,6) ok show ?thesis by (simp add: datagram_ok_def)
qed

lemma list_ok_replace:
  assumes ok: "list_ok (d # ys) n" and d': "datagram_ok d'" "dg_key d' = dg_key d"
    and len: "dg_payload_bytes d' = dg_payload_bytes d + add"
    and cap: "sum_list (map dg_payload_bytes (filter (on_interface (rk_interface (dg_key d))) (d # ys))) + add \<le> MAX_BYTES_PER_INTERFACE"
  shows "list_ok (d' # ys) (n + add)"
proof -
  have p: "on_interface ifc d' = on_interface ifc d" "from_source ifc src d' = from_source ifc src d" for ifc src
    by (simp_all add: on_interface_def from_source_def d'(2))
  have b: "sum_list (map dg_payload_bytes (filter (on_interface ifc) (d' # ys))) \<le> MAX_BYTES_PER_INTERFACE" for ifc
  proof (cases "on_interface ifc d")
    case True
    then have "rk_interface (dg_key d) = ifc" by (simp add: on_interface_def)
    then show ?thesis using cap True p len by (simp add: add.commute add.left_commute)
  next
    case False
    moreover have "sum_list (map dg_payload_bytes (filter (on_interface ifc) (d # ys))) \<le> MAX_BYTES_PER_INTERFACE"
      using ok unfolding list_ok_def by blast
    ultimately show ?thesis using p by simp
  qed
  have c: "length (filter (on_interface ifc) (d' # ys)) \<le> MAX_DATAGRAMS_PER_INTERFACE"
    "length (filter (from_source ifc src) (d' # ys)) \<le> MAX_DATAGRAMS_PER_SOURCE" for ifc src
  proof -
    have "length (filter (on_interface ifc) (d # ys)) \<le> MAX_DATAGRAMS_PER_INTERFACE"
      "length (filter (from_source ifc src) (d # ys)) \<le> MAX_DATAGRAMS_PER_SOURCE"
      using ok unfolding list_ok_def by blast+
    then show "length (filter (on_interface ifc) (d' # ys)) \<le> MAX_DATAGRAMS_PER_INTERFACE"
      "length (filter (from_source ifc src) (d' # ys)) \<le> MAX_DATAGRAMS_PER_SOURCE" using p by (simp_all split: if_splits)
  qed
  have "(\<forall>e\<in>set (d' # ys). datagram_ok e) \<and> distinct (map dg_key (d' # ys)) \<and>
      n + add = sum_list (map dg_payload_bytes (d' # ys))"
    using ok d' len by (simp add: list_ok_def)
  with b c show ?thesis unfolding list_ok_def by blast
qed

lemma rt_take_remove: "snd (rt_take t i) = rt_remove t i" "fst (rt_take t i) = datagrams t ! i"
  by (simp_all add: rt_take_def rt_remove_def)

lemma store_updated_ok:
  assumes ok: "reass_ok t" and j: "j < length (datagrams t)" and d': "datagram_ok d'" "dg_key d' = dg_key (datagrams t ! j)"
    "dg_payload_bytes d' = dg_payload_bytes (datagrams t ! j) + n"
    and cap: "interface_bytes t (rk_interface (dg_key (datagrams t ! j))) + n \<le> MAX_BYTES_PER_INTERFACE"
  shows "reass_ok (t\<lparr>datagrams := (datagrams t)[j := d'], rt_payload_bytes := rt_payload_bytes t + n\<rparr>)"
proof -
  have p: "mset (datagrams t) = mset (datagrams t ! j # swap_remove j (datagrams t))" by (rule swap_remove_perm [OF j])
  have "list_ok (datagrams t ! j # swap_remove j (datagrams t)) (rt_payload_bytes t)"
    using ok unfolding reass_ok_def list_ok_perm [OF p] .
  moreover have "sum_list (map dg_payload_bytes (filter (on_interface (rk_interface (dg_key (datagrams t ! j))))
      (datagrams t ! j # swap_remove j (datagrams t)))) + n \<le> MAX_BYTES_PER_INTERFACE"
    using cap unfolding counts sum_list_perm [OF p] .
  ultimately have "list_ok (d' # swap_remove j (datagrams t)) (rt_payload_bytes t + n)"
    using d' by (intro list_ok_replace)
  then show ?thesis using list_ok_perm [OF list_update_perm [OF j, of d']] by (simp add: reass_ok_def)
qed

definition fragment_limits :: "ip_packet \<Rightarrow> ip_fragment \<Rightarrow> bool" where
  "fragment_limits ip fr \<longleftrightarrow> 34 \<le> ip_payload_offset ip \<and> ip_payload_len ip \<noteq> 0 \<and>
     saturating_mul (fr_offset fr) 8 + ip_payload_len ip \<le> MAX_PACKET_BYTES"

lemma store_fragment_ok:
  assumes ok: "reass_ok t" and j: "j < length (datagrams t)" and lim: "fragment_limits ip fr"
    and cap: "interface_bytes t (rk_interface (dg_key (datagrams t ! j))) + ip_payload_len ip \<le> MAX_BYTES_PER_INTERFACE"
    and no: "\<not> fragment_overlaps (saturating_mul (fr_offset fr) 8) (saturating_mul (fr_offset fr) 8 + ip_payload_len ip)
        (fragments (datagrams t ! j))"
  shows "reass_ok (snd (store_fragment dm now p ip fr t j))"
proof (cases "add_fragment now p ip fr (datagrams t ! j)")
  case None
  then show ?thesis using reass_ok_remove [OF ok j] by (simp add: store_fragment_def)
next
  case (Some d')
  let ?t = "t\<lparr>datagrams := (datagrams t)[j := d'], rt_payload_bytes := rt_payload_bytes t + ip_payload_len ip\<rparr>"
  have "datagram_ok (datagrams t ! j)" using ok j by (simp add: reass_ok_def list_ok_def)
  then have d': "datagram_ok d'"
    using lim by (intro add_fragment_ok [OF _ Some _ _ _ no]) (simp_all add: fragment_limits_def)
  from Some have "dg_key d' = dg_key (datagrams t ! j) \<and>
      dg_payload_bytes d' = dg_payload_bytes (datagrams t ! j) + ip_payload_len ip"
    by (rule add_fragment_Some) simp
  then have ok': "reass_ok ?t" using d' cap by (intro store_updated_ok [OF ok j]) simp_all
  have "reass_ok (rt_remove ?t j)" using j by (intro reass_ok_remove [OF ok']) simp
  then show ?thesis using ok' Some
    by (simp add: store_fragment_def Let_def case_prod_beta rt_take_remove)
qed

section \<open>The whole handler\<close>

lemma expire_ok: "reass_ok t \<Longrightarrow> reass_ok (snd (expire t now)) \<and> set (datagrams (snd (expire t now))) \<subseteq> set (datagrams t)"
  using purge_ok by (simp add: expire_def Let_def)

lemma invalidate_ok: "reass_ok t \<Longrightarrow> reass_ok (snd (invalidate_interface t ifc))"
  using conjunct1 [OF purge_ok] by (simp add: invalidate_interface_def Let_def)

lemma list_ok_empty_datagram:
  fixes xs :: "'m datagram list"
  assumes ok: "list_ok xs n" and key: "\<forall>e\<in>set xs. dg_key e \<noteq> key"
    and room: "length (filter (on_interface (rk_interface key)) xs) < MAX_DATAGRAMS_PER_INTERFACE"
      "length (filter (from_source (rk_interface key) (rk_source key)) xs) < MAX_DATAGRAMS_PER_SOURCE"
  shows "list_ok (xs @ [empty_datagram key now (is_v6 (rk_source key))]) n"
proof -
  let ?e = "empty_datagram key now (is_v6 (rk_source key)) :: 'm datagram"
  have e: "datagram_ok ?e" "dg_key ?e = key" "dg_payload_bytes ?e = 0"
    by (simp_all add: datagram_ok_def empty_datagram_def fragments_ok_def)
  have "length (filter (on_interface ifc) (xs @ [?e])) \<le> MAX_DATAGRAMS_PER_INTERFACE" for ifc
    using ok room(1) by (cases "ifc = rk_interface key") (simp_all add: on_interface_def e(2) list_ok_def)
  moreover have "length (filter (from_source ifc src) (xs @ [?e])) \<le> MAX_DATAGRAMS_PER_SOURCE" for ifc src
    using ok room(2) by (cases "ifc = rk_interface key \<and> src = rk_source key") (auto simp: from_source_def e(2) list_ok_def)
  moreover have "sum_list (map dg_payload_bytes (filter (on_interface ifc) (xs @ [?e]))) \<le> MAX_BYTES_PER_INTERFACE" for ifc
    using ok by (simp add: e(3) list_ok_def)
  moreover have "distinct (map dg_key (xs @ [?e]))" using ok key e(2) by (auto simp: list_ok_def)
  moreover have "(\<forall>d\<in>set (xs @ [?e]). datagram_ok d) \<and> n = sum_list (map dg_payload_bytes (xs @ [?e]))"
    using ok e by (simp add: list_ok_def)
  ultimately show ?thesis unfolding list_ok_def by blast
qed

lemma insert_ok:
  assumes ok: "reass_ok t" and new: "key_position t key = None"
  obtains t' where "insert_datagram t key now (is_v6 (rk_source key)) = (Some (length (datagrams t') - 1), t')" "reass_ok t'"
    "datagrams t' \<noteq> []" "last (datagrams t') = empty_datagram key now (is_v6 (rk_source key))"
proof -
  obtain t1 where t1: "make_room key t = (True, t1)" "reass_ok t1" "set (datagrams t1) \<subseteq> set (datagrams t)"
    "length (filter (on_interface (rk_interface key)) (datagrams t1)) < MAX_DATAGRAMS_PER_INTERFACE"
    "length (filter (from_source (rk_interface key) (rk_source key)) (datagrams t1)) < MAX_DATAGRAMS_PER_SOURCE"
    using make_room_ok [OF ok] by metis
  have "\<forall>e\<in>set (datagrams t1). dg_key e \<noteq> key" using new t1(3) by (auto simp: key_position_def position_None)
  with t1 have "list_ok (datagrams t1 @ [empty_datagram key now (is_v6 (rk_source key))]) (rt_payload_bytes t1)"
    by (intro list_ok_empty_datagram) (simp_all add: reass_ok_def)
  then show thesis
    by (intro that [of "t1\<lparr>datagrams := datagrams t1 @ [empty_datagram key now (is_v6 (rk_source key))]\<rparr>"])
      (simp_all add: insert_datagram_def t1(1) reass_ok_def)
qed

definition packet_key :: "nat \<Rightarrow> ip_packet \<Rightarrow> ip_fragment \<Rightarrow> reassembly_key" where
  "packet_key ifc ip fr =
     \<lparr>rk_interface = ifc, rk_source = ip_source ip, rk_destination = ip_destination ip,
      rk_protocol = ip_next_header ip, rk_identification = fr_identification fr\<rparr>"

lemma packet_key_source: "rk_source (packet_key ifc ip fr) = ip_source ip"
  by (simp add: packet_key_def)

text \<open>The datagram a fragment goes to: the one with its key, or a fresh one at the end of the table.\<close>

lemma locate_ok:
  assumes ok: "reass_ok t"
    and loc: "(case key_position t key of Some i \<Rightarrow> (Some i, t) | None \<Rightarrow> insert_datagram t key now (is_v6 (rk_source key))) = r"
  obtains i t1 where "r = (Some i, t1)" "reass_ok t1" "i < length (datagrams t1)" "dg_key (datagrams t1 ! i) = key"
    "\<forall>d\<in>set (datagrams t). dg_key d = key \<longrightarrow> datagrams t1 ! i = d"
proof (cases "key_position t key")
  case None
  from ok None obtain t1 where t1: "insert_datagram t key now (is_v6 (rk_source key)) = (Some (length (datagrams t1) - 1), t1)"
    "reass_ok t1" "datagrams t1 \<noteq> []" "last (datagrams t1) = empty_datagram key now (is_v6 (rk_source key))"
    by (rule insert_ok)
  have none: "\<forall>d\<in>set (datagrams t). dg_key d \<noteq> key" using None by (simp add: key_position_def position_None)
  show thesis
    by (rule that [of "length (datagrams t1) - 1" t1])
      (use t1 loc None none in \<open>auto simp: last_conv_nth empty_datagram_def\<close>)
next
  case (Some i)
  then have i: "i < length (datagrams t)" "dg_key (datagrams t ! i) = key" by (simp_all add: key_position_def position_Some)
  show thesis
    by (rule that [of i t]) (use i loc Some ok key_unique [OF ok] in auto)
qed

text \<open>Either the fragment is refused, or it is stored in the unique datagram with its key.\<close>

lemma ingest_cases:
  assumes ok: "reass_ok t" and wf: "packet_wf p"
  obtains (refused) r t' where "ingest dm t ifc now p = (Drop r, t')" "reass_ok t'"
  | (stored) ip fr t2 j where "fp_ip p = Some ip" "ip_fragment_info ip = Some fr" "fragment_limits ip fr"
      "reass_ok t2" "j < length (datagrams t2)" "dg_key (datagrams t2 ! j) = packet_key ifc ip fr"
      "interface_bytes t2 ifc + ip_payload_len ip \<le> MAX_BYTES_PER_INTERFACE"
      "\<not> fragment_overlaps (saturating_mul (fr_offset fr) 8) (saturating_mul (fr_offset fr) 8 + ip_payload_len ip)
          (fragments (datagrams t2 ! j))"
      "\<forall>d\<in>set (datagrams (snd (expire t now))). dg_key d = packet_key ifc ip fr \<longrightarrow> datagrams t2 ! j = d"
      "ingest dm t ifc now p = store_fragment dm now p ip fr t2 j"
proof -
  let ?t0 = "snd (expire t now)"
  have ok0: "reass_ok ?t0" using expire_ok [OF ok] by blast
  consider (none) "fp_ip p = None" | (nofrag) ip where "fp_ip p = Some ip" "ip_fragment_info ip = None"
    | (frag) ip fr where "fp_ip p = Some ip" "ip_fragment_info ip = Some fr"
    by (metis option.exhaust)
  then show thesis
  proof cases
    case none
    then show thesis by (intro refused [OF _ ok0]) (simp add: ingest_def Let_def)
  next
    case nofrag
    then show thesis by (intro refused [OF _ ok0]) (simp add: ingest_def Let_def)
  next
    case frag
    let ?off = "saturating_mul (fr_offset fr) 8" and ?n = "ip_payload_len ip" and ?key = "packet_key ifc ip fr"
    show thesis
    proof (cases "?n = 0 \<or> (fr_more fr \<and> ?n mod 8 \<noteq> 0) \<or> MAX_PACKET_BYTES < ?off + ?n")
      case True
      then show thesis using frag by (intro refused [OF _ ok0]) (simp add: ingest_def Let_def)
    next
      case False
      then have lim: "fragment_limits ip fr" using wf frag by (auto simp: fragment_limits_def packet_wf_def)
      from ok0 refl obtain i t1 where loc: "(case key_position ?t0 ?key of Some i \<Rightarrow> (Some i, ?t0)
            | None \<Rightarrow> insert_datagram ?t0 ?key now (is_v6 (rk_source ?key))) = (Some i, t1)" "reass_ok t1"
          "i < length (datagrams t1)" "dg_key (datagrams t1 ! i) = ?key"
          "\<forall>d\<in>set (datagrams ?t0). dg_key d = ?key \<longrightarrow> datagrams t1 ! i = d"
        by (rule locate_ok)
      have ing: "ingest dm t ifc now p =
          (if fragment_overlaps ?off (?off + ?n) (fragments (datagrams t1 ! i)) then (Drop FragmentOverlap, rt_remove t1 i)
           else (case ensure_payload_capacity ?key ?n t1 of
                   (False, t2) \<Rightarrow> (Drop FragmentLimit, t2)
                 | (True, t2) \<Rightarrow>
                     (case key_position t2 ?key of
                        None \<Rightarrow> (Drop FragmentLimit, t2)
                      | Some j \<Rightarrow> store_fragment dm now p ip fr t2 j)))"
        using loc(1) False unfolding ingest_def Let_def frag option.case packet_key_def [symmetric] packet_key_source
        by (simp only: if_False option.case prod.case)
      obtain b t2 where e: "ensure_payload_capacity ?key ?n t1 = (b, t2)" by fastforce
      note en = ensure_ok [OF loc(2) e]
      show thesis
      proof (cases "fragment_overlaps ?off (?off + ?n) (fragments (datagrams t1 ! i)) \<or> \<not> b")
        case True
        then show thesis using refused ing e en reass_ok_remove [OF loc(2,3)] by (auto split: if_splits)
      next
        case no: False
        have "datagrams t1 ! i \<in> set (datagrams t2)" using en no loc(3,4) by auto
        then have "key_position t2 ?key \<noteq> None" using loc(4) by (auto simp: key_position_def position_None)
        then obtain j where j: "key_position t2 ?key = Some j" by blast
        then have jl: "j < length (datagrams t2)" "dg_key (datagrams t2 ! j) = ?key" by (simp_all add: key_position_def position_Some)
        then have same: "datagrams t2 ! j = datagrams t1 ! i"
          using en loc(3,4) by (intro key_unique [OF loc(2)]) auto
        show thesis
          by (rule stored [OF frag lim _ jl]) (use en no e ing j loc(5) same in \<open>simp_all add: packet_key_def\<close>)
      qed
    qed
  qed
qed

lemma ingest_ok:
  assumes "reass_ok t" "packet_wf p"
  shows "reass_ok (snd (ingest dm t ifc now p))"
  using assms
proof (cases rule: ingest_cases [where dm = dm and ifc = ifc and now = now])
  case (stored ip fr t2 j)
  have "interface_bytes t2 (rk_interface (dg_key (datagrams t2 ! j))) + ip_payload_len ip \<le> MAX_BYTES_PER_INTERFACE"
    using stored(6,7) by (simp add: packet_key_def)
  then show ?thesis using stored(10) store_fragment_ok [OF stored(4,5,3) _ stored(8)] by simp
qed simp

section \<open>The completed packet\<close>

lemma put_bytes_length [simp]: "i + length xs \<le> length b \<Longrightarrow> length (put_bytes b i xs) = length b"
  by (simp add: put_bytes_def)

lemma put_bytes_drop [simp]: "i + length xs \<le> n \<Longrightarrow> i + length xs \<le> length b \<Longrightarrow> drop n (put_bytes b i xs) = drop n b"
  by (simp add: put_bytes_def)

lemma be_bytes16_length [simp]: "length (be_bytes16 w) = 2"
  by (simp add: be_bytes16_def)

lemma contiguous_end_length: "contiguous_end k fs = Some n \<Longrightarrow> n = k + length (concat (map fb_bytes fs))"
  by (induction fs arbitrary: k) (fastforce split: if_splits)+

lemma contiguous_bytes:
  "contiguous_end k fs = Some n \<Longrightarrow> f \<in> set fs \<Longrightarrow>
     k \<le> fb_offset f \<and> take (length (fb_bytes f)) (drop (fb_offset f - k) (concat (map fb_bytes fs))) = fb_bytes f"
proof (induction fs arbitrary: k)
  case (Cons g fs)
  have g: "fb_offset g = k" "contiguous_end (k + length (fb_bytes g)) fs = Some n"
    using Cons.prems(1) by (simp_all split: if_splits)
  show ?case
  proof (cases "f = g")
    case False
    then have "k + length (fb_bytes g) \<le> fb_offset f \<and>
        take (length (fb_bytes f)) (drop (fb_offset f - (k + length (fb_bytes g))) (concat (map fb_bytes fs))) = fb_bytes f"
      using Cons.prems(2) by (intro Cons.IH [OF g(2)]) simp
    then show ?thesis by (simp add: diff_diff_left) linarith
  qed (simp add: g(1))
qed simp

lemma finish_ipv6_keeps:
  assumes "finish_ipv6 (h @ bs) (length bs) = Some out" "34 \<le> length h"
  shows "length out = length (h @ bs) \<and> drop (length h) out = bs \<and> length out \<le> 65589"
  using assms by (auto simp: finish_ipv6_def Let_def checked_sub_def split: if_splits option.splits)

text \<open>The four stores of the IPv4 branch stay in the header, and the last one makes the header verify.\<close>

lemma put_checksum_verifies:
  assumes "10 + 2 \<le> n" "o' + n \<le> length b" "take 2 (drop (o' + 10) b) = [0, 0]"
  shows "checksum_bytes (take n (drop o' (put_bytes b (o' + 10) (be_bytes16 (checksum_bytes (take n (drop o' b))))))) = 0"
proof -
  obtain m where n: "n = 10 + (2 + m)" using assms(1) by (metis add.assoc le_add_diff_inverse)
  define a where "a = take 10 (drop o' b)"
  define c where "c = take m (drop (o' + 12) b)"
  have la: "length a = 10" using assms by (simp add: a_def)
  have "take n (drop o' b) = a @ take 2 (drop (o' + 10) b) @ c"
    unfolding n take_add a_def c_def by (simp add: add.commute)
  then have whole: "take n (drop o' b) = a @ [0, 0] @ c" by (simp only: assms(3))
  have "take n (drop o' (put_bytes b (o' + 10) x)) = a @ x @ c" if x: "length x = 2" for x
  proof -
    have "drop o' (put_bytes b (o' + 10) x) = a @ x @ drop (o' + 12) b"
      using assms(1,2) x by (simp add: put_bytes_def a_def drop_take add.commute)
    then show ?thesis unfolding n using la x by (simp add: c_def)
  qed
  then show ?thesis unfolding whole using checksum_verifies_aux [of a c] la by simp
qed

lemma finish_ipv4_keeps:
  assumes f: "finish_ipv4 (h @ bs) = Some out" and h: "34 \<le> length h"
  shows "length out = length (h @ bs) \<and> drop (length h) out = bs \<and> length out \<le> 65589 \<and>
    checksum_bytes (take (unat (out ! 14 AND 0x0f) * 4) (drop 14 out)) = 0"
proof -
  let ?b = "h @ bs"
  define b2 where "b2 = put_bytes (put_bytes ?b 16 (be_bytes16 (of_nat (length ?b - 14)))) 20 [0, 0]"
  define b3 where "b3 = put_bytes b2 24 [0, 0]"
  have l2: "length b2 = length ?b" "drop (length h) b2 = bs" using h by (simp_all add: b2_def)
  have l3: "length b3 = length ?b" "drop (length h) b3 = bs" using h l2 by (simp_all add: b3_def)
  have z: "take 2 (drop (14 + 10) b3) = [0, 0]" using h l2 by (simp add: b3_def put_bytes_def)
  let ?n = "unat (b3 ! 14 AND 0x0f) * 4"
  have n: "20 \<le> ?n" "14 + ?n \<le> length b3" and len: "length ?b - 14 \<le> 65535"
    and out: "out = put_bytes b3 (14 + 10) (be_bytes16 (checksum_bytes (take ?n (drop 14 b3))))"
    using f unfolding finish_ipv4_def b3_def b2_def saturating_sub_def Let_def by (auto split: if_splits)
  have "out ! 14 = b3 ! 14" using h l3 by (simp add: out put_bytes_def nth_append)
  moreover have "checksum_bytes (take ?n (drop 14 out)) = 0"
    unfolding out by (rule put_checksum_verifies [OF _ n(2) z]) (use n(1) in simp)
  ultimately show ?thesis using h l3 len by (simp add: out)
qed

lemma swap_remove_keys:
  assumes "reass_ok t" "j < length (datagrams t)"
  shows "\<forall>e\<in>set (swap_remove j ((datagrams t)[j := d])). dg_key e \<noteq> dg_key (datagrams t ! j)"
proof -
  have upd: "swap_remove j ((datagrams t)[j := d]) = swap_remove j (datagrams t)"
    using assms(2) by (simp add: swap_remove_update)
  have "distinct (map dg_key (datagrams t ! j # swap_remove j (datagrams t)))"
    using assms list_ok_perm [OF swap_remove_perm [OF assms(2)]] unfolding reass_ok_def list_ok_def by blast
  then show ?thesis unfolding upd by (auto simp: rev_image_eqI)
qed

lemma store_complete:
  assumes "store_fragment dm now p ip fr t j = (Complete out md, t')" "j < length (datagrams t)"
  obtains d where "add_fragment now p ip fr (datagrams t ! j) = Some d" "is_complete d" "build_packet dm d = Complete out md"
    "datagrams t' = swap_remove j ((datagrams t)[j := d])"
proof (cases "add_fragment now p ip fr (datagrams t ! j)")
  case None
  then show thesis using assms by (simp add: store_fragment_def)
next
  case (Some d)
  then show thesis using assms
    by (intro that [of d]) (auto simp: store_fragment_def Let_def rt_take_def split: if_splits)
qed

lemma build_complete:
  assumes ok: "datagram_ok d" and comp: "is_complete d" and b: "build_packet dm d = Complete out md"
  obtains h where "34 \<le> h" "length out = h + dg_payload_bytes d" "length out \<le> 65589" "md_frame_len md = length out"
    "\<forall>f\<in>set (fragments d). take (length (fb_bytes f)) (drop (h + fb_offset f) out) = fb_bytes f"
    "\<not> dg_ipv6 d \<longrightarrow> checksum_bytes (take (unat (out ! 14 AND 0x0f) * 4) (drop 14 out)) = 0"
proof -
  let ?bs = "concat (map fb_bytes (fragments d))"
  obtain hd n where h: "dg_header d = Some hd" "final_len d = Some n" and c: "contiguous_end 0 (fragments d) = Some n"
    using comp by (auto simp: is_complete_def split: option.splits)
  have n: "n = length ?bs" using contiguous_end_length [OF c] by simp
  have h34: "34 \<le> length hd" and bytes: "dg_payload_bytes d = length ?bs"
    using ok h by (simp_all add: datagram_ok_def length_concat)
  have fin: "(if dg_ipv6 d then finish_ipv6 (hd @ ?bs) n else finish_ipv4 (hd @ ?bs)) = Some out"
    and md: "md_frame_len md = length out mod 2 ^ 32"
    using b h by (auto simp: build_packet_def Let_def split: option.splits if_splits)
  have out: "length out = length (hd @ ?bs) \<and> drop (length hd) out = ?bs \<and> length out \<le> 65589"
  proof (cases "dg_ipv6 d")
    case True
    then have "finish_ipv6 (hd @ ?bs) (length ?bs) = Some out" using fin n by simp
    from finish_ipv6_keeps [OF this h34] show ?thesis .
  next
    case False
    then have "finish_ipv4 (hd @ ?bs) = Some out" using fin by simp
    from finish_ipv4_keeps [OF this h34] show ?thesis by blast
  qed
  have "take (length (fb_bytes f)) (drop (length hd + fb_offset f) out) = fb_bytes f" if "f \<in> set (fragments d)" for f
  proof -
    have "drop (length hd + fb_offset f) out = drop (fb_offset f) ?bs"
      using out by (metis add.commute drop_drop)
    with contiguous_bytes [OF c that] show ?thesis by simp
  qed
  moreover have "checksum_bytes (take (unat (out ! 14 AND 0x0f) * 4) (drop 14 out)) = 0" if "\<not> dg_ipv6 d"
    using fin that finish_ipv4_keeps [OF _ h34] by simp
  ultimately show thesis using out md bytes h34 by (intro that [of "length hd"]) simp_all
qed

section \<open>Properties\<close>

inductive reass_step :: "'m reassembly_table \<Rightarrow> 'm reassembly_table \<Rightarrow> bool" where
  step_ingest: "packet_wf p \<Longrightarrow> ingest dm t ifc now p = (r, t') \<Longrightarrow> reass_step t t'"
| step_expire: "expire t now = (n, t') \<Longrightarrow> reass_step t t'"
| step_invalidate: "invalidate_interface t ifc = (n, t') \<Longrightarrow> reass_step t t'"

definition reass_init :: "'m reassembly_table \<Rightarrow> bool" where
  "reass_init t \<longleftrightarrow> t = reassembly_new"

lemma reass_step_ok:
  assumes "reass_ok t" "reass_step t t'"
  shows "reass_ok t'"
  using assms(2)
proof cases
  case (step_ingest p dm ifc now r)
  then show ?thesis using ingest_ok [OF assms(1) step_ingest(1), of dm ifc now] by simp
next
  case (step_expire now n)
  then show ?thesis using expire_ok [OF assms(1), of now] by simp
next
  case (step_invalidate ifc n)
  then show ?thesis using invalidate_ok [OF assms(1), of ifc] by simp
qed

interpretation reass: inductive_invariant reass_init reass_step reass_ok
proof unfold_locales
  fix s :: "'a reassembly_table"
  assume "reass_init s"
  then show "reass_ok s" by (simp add: reass_init_def reassembly_new_def reass_ok_def list_ok_def)
qed (rule reass_step_ok)

text \<open>Two fragments of one IPv4 datagram, behind an Ethernet and a 20-byte IPv4 header.\<close>

definition example_packet :: "nat \<Rightarrow> bool \<Rightarrow> 8 word list \<Rightarrow> unit frontend_packet" where
  "example_packet off mf payload =
     \<lparr>fp_ip = Some \<lparr>ip_source = V4 [10, 0, 0, 1], ip_destination = V4 [10, 0, 0, 2], ip_next_header = 17,
        ip_header_len = 20, ip_payload_offset = 34, ip_payload_len = length payload, ip_hop_limit = 64, ip_traffic_class = 0,
        ip_fragment_info = Some \<lparr>fr_identification = 7, fr_offset = off, fr_more = mf\<rparr>\<rparr>,
      fp_chain = replicate 14 0 @ 0x45 # replicate 19 0 @ payload,
      fp_metadata = \<lparr>md_frame_len = 0, md_rss_hash = None, md_other = ()\<rparr>\<rparr>"

definition example_table :: "unit reassembly_table" where
  "example_table = snd (ingest \<lparr>md_frame_len = 0, md_rss_hash = None, md_other = ()\<rparr> reassembly_new 1 0
     (example_packet 0 True [1, 2, 3, 4, 5, 6, 7, 8]))"

lemma example_expire: "snd (expire reassembly_new now) = reassembly_new"
  by (simp add: expire_def purge_from.simps reassembly_new_def)

lemma example_insert:
  "insert_datagram \<lparr>datagrams = [], rt_payload_bytes = 0\<rparr> k now b =
     (Some 0, \<lparr>datagrams = [empty_datagram k now b], rt_payload_bytes = 0\<rparr>)"
  by (simp add: insert_datagram_def make_room.simps [of k] MAX_DATAGRAMS_PER_INTERFACE_def MAX_DATAGRAMS_PER_SOURCE_def)

lemmas capacity_eval = fragment_overlaps_def ensure_payload_capacity.simps saturating_add_def MAX_BYTES_PER_INTERFACE_def
  on_interface_def key_position_def

lemmas store_eval = key_position_def store_fragment_def add_fragment_def copy_out_def saturating_mul_def is_complete_def

lemma example_table_eval:
  "example_table =
     \<lparr>datagrams = [\<lparr>dg_key = \<lparr>rk_interface = 1, rk_source = V4 [10, 0, 0, 1], rk_destination = V4 [10, 0, 0, 2],
          rk_protocol = 17, rk_identification = 7\<rparr>, created_ns = 0, updated_ns = 0,
        dg_header = Some (replicate 14 0 @ 0x45 # replicate 19 0),
        dg_metadata = Some \<lparr>md_frame_len = 0, md_rss_hash = None, md_other = ()\<rparr>,
        fragments = [\<lparr>fb_offset = 0, fb_bytes = [1, 2, 3, 4, 5, 6, 7, 8]\<rparr>], final_len = None,
        dg_payload_bytes = 8, dg_ipv6 = False\<rparr>], rt_payload_bytes = 8\<rparr>"
  apply (simp add: example_table_def ingest_def Let_def example_expire example_packet_def key_position_def)
  apply (simp add: reassembly_new_def example_insert saturating_mul_def MAX_PACKET_BYTES_def)
  apply (simp add: empty_datagram_def is_v6_def capacity_eval)
  apply (simp add: store_eval)
  done

lemma example_completes:
  "\<exists>out md t'. ingest \<lparr>md_frame_len = 0, md_rss_hash = None, md_other = ()\<rparr> example_table 1 5
     (example_packet 1 False [9, 10, 11]) = (Complete out md, t')"
  apply (simp add: example_table_eval ingest_def Let_def expire_def purge_from.simps saturating_sub_def
      REASSEMBLY_TIMEOUT_NS_def example_packet_def key_position_def saturating_mul_def MAX_PACKET_BYTES_def)
  apply (simp add: capacity_eval)
  apply (simp add: store_eval)
  apply (simp add: rt_take_def build_packet_def finish_ipv4_def Let_def saturating_sub_def)
  apply (simp add: put_bytes_def be_bytes16_def nth_append)
  done

lemma example_packet_wf: "packet_wf (example_packet off mf payload)"
  by (simp add: packet_wf_def example_packet_def)

lemma example_reachable: "reachable reass_init reass_step example_table"
proof (rule reachable.intros(2))
  show "reachable reass_init reass_step (reassembly_new :: unit reassembly_table)"
    by (rule reachable.intros) (simp add: reass_init_def)
  show "reass_step reassembly_new example_table"
    unfolding example_table_def by (rule step_ingest [OF example_packet_wf]) (rule prod.collapse [symmetric])
qed

text \<open>
  C31. In every reachable reassembly table the limits hold: at most 64 datagrams and 256 KiB of payload
  per interface and at most 8 datagrams per source. The byte counter of the table is the sum over its
  datagrams, no two datagrams share a key, and the fragments of each datagram are non-empty, sorted,
  pairwise disjoint and inside the largest packet, with their lengths adding up to its counter.
\<close>

theorem reassembly_bounded:
  assumes "reachable reass_init reass_step t"
  shows "interface_count t ifc \<le> 64 \<and> source_count t ifc src \<le> 8 \<and> interface_bytes t ifc \<le> 256 * 1024 \<and>
    rt_payload_bytes t = sum_list (map dg_payload_bytes (datagrams t)) \<and> distinct (map dg_key (datagrams t)) \<and>
    list_all datagram_ok (datagrams t)"
proof -
  have "list_ok (datagrams t) (rt_payload_bytes t)" using reass.reachable_inv [OF assms] unfolding reass_ok_def .
  then show ?thesis unfolding list_ok_def counts list_all_iff MAX_DATAGRAMS_PER_INTERFACE_def
    MAX_DATAGRAMS_PER_SOURCE_def MAX_BYTES_PER_INTERFACE_def by blast
qed

theorem reassembly_bounded_witness:
  "interface_count example_table 1 = 1 \<and> interface_count example_table 1 \<le> 64 \<and>
   source_count example_table 1 (V4 [10, 0, 0, 1]) \<le> 8 \<and> interface_bytes example_table 1 \<le> 256 * 1024 \<and>
   rt_payload_bytes example_table = sum_list (map dg_payload_bytes (datagrams example_table)) \<and>
   list_all datagram_ok (datagrams example_table)"
proof -
  have "interface_count example_table 1 = 1" by (simp add: example_table_eval on_interface_def)
  with reassembly_bounded [OF example_reachable, of 1 "V4 [10, 0, 0, 1]"] show ?thesis by blast
qed

text \<open>
  C32. A fragment that completes its datagram yields the whole packet: behind a header of some length
  \<open>h\<close> the payload of every stored fragment and of this one is found at its own offset, the lengths add
  up to the packet's length and to the frame length of the metadata, an IPv4 header verifies under the
  Internet checksum, and the datagram has left the table.
\<close>

theorem reassembly_complete:
  assumes "reachable reass_init reass_step t" "packet_wf p" "fp_ip p = Some ip" "ip_fragment_info ip = Some fr"
    and "ingest dm t ifc now p = (Complete out md, t')"
  shows "\<exists>h\<ge>34. md_frame_len md = length out \<and>
    take (ip_payload_len ip) (drop (h + saturating_mul (fr_offset fr) 8) out) =
      take (ip_payload_len ip) (drop (ip_payload_offset ip) (fp_chain p)) \<and>
    (\<forall>d\<in>set (datagrams (snd (expire t now))). dg_key d = packet_key ifc ip fr \<longrightarrow>
       length out = h + dg_payload_bytes d + ip_payload_len ip \<and>
       (\<forall>f\<in>set (fragments d). take (length (fb_bytes f)) (drop (h + fb_offset f) out) = fb_bytes f)) \<and>
    (\<not> is_v6 (ip_source ip) \<longrightarrow> checksum_bytes (take (unat (out ! 14 AND 0x0f) * 4) (drop 14 out)) = 0) \<and>
    (\<forall>d\<in>set (datagrams t'). dg_key d \<noteq> packet_key ifc ip fr)"
  using reass.reachable_inv [OF assms(1)] assms(2)
proof (cases rule: ingest_cases [where dm = dm and ifc = ifc and now = now])
  case (refused r t1)
  then show ?thesis using assms(5) by simp
next
  case (stored ip' fr' t2 j)
  have same: "ip' = ip" "fr' = fr" using stored(1,2) assms(3,4) by simp_all
  note st = stored [unfolded same]
  from st(10) assms(5) have "store_fragment dm now p ip fr t2 j = (Complete out md, t')" by simp
  from this st(5) obtain d where d: "add_fragment now p ip fr (datagrams t2 ! j) = Some d" "is_complete d"
    "build_packet dm d = Complete out md" "datagrams t' = swap_remove j ((datagrams t2)[j := d])"
    by (rule store_complete)
  from d(1) obtain bs where bs: "copy_out (fp_chain p) (ip_payload_offset ip) (ip_payload_len ip) = Some bs"
    "fragments d = sort_key fb_offset (fragments (datagrams t2 ! j) @ [\<lparr>fb_offset = saturating_mul (fr_offset fr) 8, fb_bytes = bs\<rparr>])"
    "dg_key d = dg_key (datagrams t2 ! j)" "dg_payload_bytes d = dg_payload_bytes (datagrams t2 ! j) + ip_payload_len ip"
    by (rule add_fragment_Some)
  have old: "datagram_ok (datagrams t2 ! j)" using st(4,5) by (simp add: reass_ok_def list_ok_def)
  have ok: "datagram_ok d"
    using st(3) by (intro add_fragment_ok [OF old d(1) _ _ _ st(8)]) (simp_all add: fragment_limits_def)
  from ok d(2,3) obtain h where h: "34 \<le> h" "length out = h + dg_payload_bytes d" "md_frame_len md = length out"
    "\<forall>f\<in>set (fragments d). take (length (fb_bytes f)) (drop (h + fb_offset f) out) = fb_bytes f"
    "\<not> dg_ipv6 d \<longrightarrow> checksum_bytes (take (unat (out ! 14 AND 0x0f) * 4) (drop 14 out)) = 0"
    by (rule build_complete)
  have cp: "bs = take (ip_payload_len ip) (drop (ip_payload_offset ip) (fp_chain p))" "length bs = ip_payload_len ip"
    using bs(1) copy_out_length [OF bs(1)] by (auto simp: copy_out_def split: if_splits)
  have own: "take (ip_payload_len ip) (drop (h + saturating_mul (fr_offset fr) 8) out) = bs"
    using h(4) bs(2) cp(2) by (auto simp: set_sort)
  have v6: "dg_ipv6 d = is_v6 (ip_source ip)"
    using ok bs(3) st(6) by (simp add: datagram_ok_def packet_key_def)
  have gone: "\<forall>e\<in>set (datagrams t'). dg_key e \<noteq> packet_key ifc ip fr"
    using swap_remove_keys [OF st(4,5)] d(4) st(6) bs(3) by simp
  have frs: "\<forall>e\<in>set (datagrams (snd (expire t now))). dg_key e = packet_key ifc ip fr \<longrightarrow>
       length out = h + dg_payload_bytes e + ip_payload_len ip \<and>
       (\<forall>f\<in>set (fragments e). take (length (fb_bytes f)) (drop (h + fb_offset f) out) = fb_bytes f)"
    using st(9) h(2,4) bs(2,4) by (auto simp: set_sort)
  show ?thesis using h(1,3,5) own cp(1) frs v6 gone by (intro exI [of _ h]) simp
qed

theorem reassembly_complete_witness:
  "\<exists>out md t'. ingest \<lparr>md_frame_len = 0, md_rss_hash = None, md_other = ()\<rparr> example_table 1 5 (example_packet 1 False [9, 10, 11])
       = (Complete out md, t') \<and> (\<exists>h\<ge>34. take 3 (drop (h + 8) out) = [9, 10, 11]) \<and>
     checksum_bytes (take (unat (out ! 14 AND 0x0f) * 4) (drop 14 out)) = 0"
proof -
  let ?p = "example_packet 1 False [9, 10, 11]"
  let ?r = "ingest \<lparr>md_frame_len = 0, md_rss_hash = None, md_other = ()\<rparr> example_table 1 5 ?p"
  obtain out md t' where r: "?r = (Complete out md, t')" using example_completes by blast
  have ip: "fp_ip ?p = Some (the (fp_ip ?p))" "ip_fragment_info (the (fp_ip ?p)) = Some (the (ip_fragment_info (the (fp_ip ?p))))"
    by (simp_all add: example_packet_def)
  have vals: "ip_payload_len (the (fp_ip ?p)) = 3" "fr_offset (the (ip_fragment_info (the (fp_ip ?p)))) = 1"
    "take 3 (drop (ip_payload_offset (the (fp_ip ?p))) (fp_chain ?p)) = [9, 10, 11]"
    "\<not> is_v6 (ip_source (the (fp_ip ?p)))" "saturating_mul 1 8 = 8"
    by (simp_all add: example_packet_def is_v6_def saturating_mul_def)
  from reassembly_complete [OF example_reachable example_packet_wf ip r] r vals show ?thesis by (metis (no_types, lifting))
qed

end
