(* ===== verification/DeadlineAdmission.thy ===== *)
theory DeadlineAdmission
  imports Prelude
begin

text \<open>
  Bandwidth admission of deadline tasks: \<open>libs/sched/src/deadline_admission.rs\<close>. A task is the
  identity behind its \<open>Arc\<close>; \<open>alive\<close> tells for which identities the strong count is not zero when the
  operation runs, and every operation holds the admission lock from its first look at the ledger to
  its return, so it is one step. The closures that the callers pass are represented by their result.
\<close>

section \<open>Attributes\<close>

datatype sched_policy = Fair | RtFifo | RtRoundRobin | Deadline | Idle | Batch

record sched_attr =
  policy :: sched_policy
  nice :: int
  slice_ns :: nat
  priority :: nat
  runtime_ns :: nat
  deadline_ns :: nat
  period_ns :: nat

definition SCHED_CAPACITY_SCALE :: nat where "SCHED_CAPACITY_SCALE = 1024"

definition MAX_CPUS :: nat where "MAX_CPUS = 12"

definition utilization_of :: "sched_attr \<Rightarrow> nat" where
  "utilization_of attr =
     (if policy attr \<noteq> Deadline \<or> runtime_ns attr = 0 \<or> period_ns attr = 0 then 0
      else min ((runtime_ns attr * SCHED_CAPACITY_SCALE) div period_ns attr) U64_MAX)"

section \<open>The ledger\<close>

record reservation =
  rs_task :: nat
  rs_cpu :: nat
  rs_utilization :: nat

record admission_state =
  totals :: "nat list"
  reservations :: "reservation list"

definition admission_new :: admission_state where
  "admission_new = \<lparr>totals = replicate MAX_CPUS 0, reservations = []\<rparr>"

text \<open>\<open>totals[cpu] = totals[cpu].saturating_sub(u)\<close> and its counterpart.\<close>

definition sub_total :: "nat \<Rightarrow> nat \<Rightarrow> admission_state \<Rightarrow> admission_state" where
  "sub_total cpu u s = s\<lparr>totals := (totals s)[cpu := saturating_sub (totals s ! cpu) u]\<rparr>"

definition add_total :: "nat \<Rightarrow> nat \<Rightarrow> admission_state \<Rightarrow> admission_state" where
  "add_total cpu u s = s\<lparr>totals := (totals s)[cpu := saturating_add (totals s ! cpu) u]\<rparr>"

definition take_reservation :: "nat \<Rightarrow> admission_state \<Rightarrow> admission_state" where
  "take_reservation i s =
     (let r = reservations s ! i in
      sub_total (rs_cpu r) (rs_utilization r) (s\<lparr>reservations := swap_remove i (reservations s)\<rparr>))"

lemma take_reservation_length:
  "length (reservations (take_reservation i s)) = length (reservations s) - 1"
  by (simp add: take_reservation_def sub_total_def Let_def)

function prune_from :: "(nat \<Rightarrow> bool) \<Rightarrow> nat \<Rightarrow> admission_state \<Rightarrow> admission_state" where
  "prune_from alive i s =
     (if i < length (reservations s) then
        (if alive (rs_task (reservations s ! i)) then prune_from alive (i + 1) s
         else prune_from alive i (take_reservation i s))
      else s)"
  by pat_completeness auto
termination
  by (relation "measure (\<lambda>(alive, i, s). length (reservations s) - i)") (auto simp: take_reservation_length)

declare prune_from.simps [simp del]

definition prune_dead :: "(nat \<Rightarrow> bool) \<Rightarrow> admission_state \<Rightarrow> admission_state" where
  "prune_dead alive s = prune_from alive 0 s"

definition find_reservation :: "admission_state \<Rightarrow> nat \<Rightarrow> nat option" where
  "find_reservation s task = position (\<lambda>r. rs_task r = task) (reservations s)"

definition fits :: "admission_state \<Rightarrow> nat \<Rightarrow> nat \<Rightarrow> nat \<Rightarrow> nat \<Rightarrow> bool" where
  "fits s cpu replacing requested capacity \<longleftrightarrow>
     saturating_add (saturating_sub (totals s ! cpu) replacing) requested \<le> capacity"

definition replace_reservation :: "admission_state \<Rightarrow> nat \<Rightarrow> nat \<Rightarrow> nat \<Rightarrow> admission_state" where
  "replace_reservation s task cpu utilization =
     (case find_reservation s task of
        Some i \<Rightarrow>
          (let old = reservations s ! i; s1 = sub_total (rs_cpu old) (rs_utilization old) s in
           if utilization = 0 then s1\<lparr>reservations := swap_remove i (reservations s1)\<rparr>
           else add_total cpu utilization
             (s1\<lparr>reservations := (reservations s1)[i := old\<lparr>rs_cpu := cpu, rs_utilization := utilization\<rparr>]\<rparr>))
      | None \<Rightarrow>
          if utilization \<noteq> 0 then
            add_total cpu utilization
              (s\<lparr>reservations := reservations s @ [\<lparr>rs_task = task, rs_cpu = cpu, rs_utilization = utilization\<rparr>]\<rparr>)
          else s)"

section \<open>Operations\<close>

definition update_attr ::
  "(nat \<Rightarrow> bool) \<Rightarrow> admission_state \<Rightarrow> nat \<Rightarrow> nat \<Rightarrow> sched_attr \<Rightarrow> nat \<Rightarrow> bool \<Rightarrow> (errno + unit) \<times> admission_state" where
  "update_attr alive s task owner_cpu attr capacity apply_ok =
     (let requested = utilization_of attr; s1 = prune_dead alive s;
          (target_cpu, replacing) =
            (case find_reservation s1 task of
               Some i \<Rightarrow> (rs_cpu (reservations s1 ! i), rs_utilization (reservations s1 ! i))
             | None \<Rightarrow> (owner_cpu, 0))
      in if \<not> fits s1 target_cpu replacing requested capacity then (Inl EBUSY, s1)
         else if \<not> apply_ok then (Inl EBUSY, s1)
         else (Inr (), replace_reservation s1 task target_cpu requested))"

text \<open>What \<open>migrate\<close> and \<open>can_migrate\<close> read: the utilization of the task and its share of the target.\<close>

definition migration_load :: "admission_state \<Rightarrow> nat \<Rightarrow> sched_attr \<Rightarrow> nat \<Rightarrow> nat \<times> nat" where
  "migration_load s task attr target_cpu =
     (case find_reservation s task of
        Some i \<Rightarrow> (rs_utilization (reservations s ! i),
                   if rs_cpu (reservations s ! i) = target_cpu then rs_utilization (reservations s ! i) else 0)
      | None \<Rightarrow> (utilization_of attr, 0))"

text \<open>\<open>None\<close> is the failure of the debug assertion on the source CPU.\<close>

definition migrate ::
  "(nat \<Rightarrow> bool) \<Rightarrow> admission_state \<Rightarrow> nat \<Rightarrow> sched_attr \<Rightarrow> nat \<Rightarrow> nat \<Rightarrow> nat \<Rightarrow> errno + unit \<Rightarrow>
   ((errno + unit) \<times> admission_state) option" where
  "migrate alive s task attr source_cpu target_cpu target_capacity apply_result =
     (let s1 = prune_dead alive s; (utilization, replacing) = migration_load s1 task attr target_cpu in
      if utilization \<noteq> 0 \<and> \<not> fits s1 target_cpu replacing utilization target_capacity then Some (Inl EBUSY, s1)
      else case apply_result of
          Inl e \<Rightarrow> Some (Inl e, s1)
        | Inr _ \<Rightarrow>
            if utilization \<noteq> 0 then
              (let accounted_source =
                     (case find_reservation s1 task of Some i \<Rightarrow> rs_cpu (reservations s1 ! i) | None \<Rightarrow> source_cpu)
               in if accounted_source \<noteq> source_cpu then None
                  else Some (Inr (), replace_reservation s1 task target_cpu utilization))
            else Some (Inr (), s1))"

definition can_migrate ::
  "(nat \<Rightarrow> bool) \<Rightarrow> admission_state \<Rightarrow> nat \<Rightarrow> sched_attr \<Rightarrow> nat \<Rightarrow> nat \<Rightarrow> bool \<times> admission_state" where
  "can_migrate alive s task attr target_cpu target_capacity =
     (let s1 = prune_dead alive s; (utilization, replacing) = migration_load s1 task attr target_cpu
      in (fits s1 target_cpu replacing utilization target_capacity, s1))"

definition release_reservation :: "(nat \<Rightarrow> bool) \<Rightarrow> admission_state \<Rightarrow> nat \<Rightarrow> admission_state" where
  "release_reservation alive s task =
     (let s1 = prune_dead alive s in
      case find_reservation s1 task of Some i \<Rightarrow> take_reservation i s1 | None \<Rightarrow> s1)"

definition reserved :: "(nat \<Rightarrow> bool) \<Rightarrow> admission_state \<Rightarrow> nat \<Rightarrow> nat \<times> admission_state" where
  "reserved alive s cpu = (let s1 = prune_dead alive s in (totals s1 ! cpu, s1))"

definition read_totals :: "(nat \<Rightarrow> bool) \<Rightarrow> admission_state \<Rightarrow> nat list \<times> admission_state" where
  "read_totals alive s = (let s1 = prune_dead alive s in (totals s1, s1))"

definition fits_capacities :: "(nat \<Rightarrow> bool) \<Rightarrow> admission_state \<Rightarrow> nat list \<Rightarrow> bool \<times> admission_state" where
  "fits_capacities alive s capacities =
     (let s1 = prune_dead alive s
      in (list_all (\<lambda>(reserved, capacity). reserved \<le> capacity) (zip (totals s1) capacities), s1))"

definition tasks_on_cpu :: "(nat \<Rightarrow> bool) \<Rightarrow> admission_state \<Rightarrow> nat \<Rightarrow> nat list \<times> admission_state" where
  "tasks_on_cpu alive s cpu =
     (let s1 = prune_dead alive s
      in (filter alive (map rs_task (filter (\<lambda>r. rs_cpu r = cpu) (reservations s1))), s1))"

definition reservation_of :: "(nat \<Rightarrow> bool) \<Rightarrow> admission_state \<Rightarrow> nat \<Rightarrow> (nat \<times> nat) option \<times> admission_state" where
  "reservation_of alive s task =
     (let s1 = prune_dead alive s
      in (map_option (\<lambda>i. (rs_cpu (reservations s1 ! i), rs_utilization (reservations s1 ! i)))
            (find_reservation s1 task), s1))"

end
