(* ===== verification/DeadlineProps.thy ===== *)
theory DeadlineProps
  imports DeadlineAdmission
begin

text \<open>
  The ledger of deadline reservations against an abstract one, a partial map from tasks to a CPU and a
  utilization: the cached totals are exact, and attribute updates, migrations and releases act on the
  abstract ledger as one update that is admitted exactly when the load stays within the capacity.
\<close>

section \<open>The abstract ledger\<close>

type_synonym ledger = "nat \<Rightarrow> (nat \<times> nat) option"

definition load :: "ledger \<Rightarrow> nat \<Rightarrow> nat" where
  "load L c = (\<Sum>t\<in>{t \<in> dom L. fst (the (L t)) = c}. snd (the (L t)))"

definition ledger_of :: "reservation list \<Rightarrow> ledger" where
  "ledger_of rs = map_of (map (\<lambda>r. (rs_task r, (rs_cpu r, rs_utilization r))) rs)"

definition ledger :: "admission_state \<Rightarrow> ledger" where
  "ledger s = ledger_of (reservations s)"

definition live_ledger :: "(nat \<Rightarrow> bool) \<Rightarrow> admission_state \<Rightarrow> ledger" where
  "live_ledger alive s = ledger s |` {t. alive t}"

definition cpu_sum :: "nat \<Rightarrow> reservation list \<Rightarrow> nat" where
  "cpu_sum c rs = sum_list (map rs_utilization (filter (\<lambda>r. rs_cpu r = c) rs))"

definition adm_list :: "nat list \<Rightarrow> reservation list \<Rightarrow> bool" where
  "adm_list ts rs \<longleftrightarrow> length ts = MAX_CPUS \<and> distinct (map rs_task rs) \<and>
     (\<forall>r\<in>set rs. rs_cpu r < MAX_CPUS \<and> rs_utilization r \<noteq> 0) \<and> (\<forall>c<MAX_CPUS. ts ! c = cpu_sum c rs)"

definition adm_ok :: "admission_state \<Rightarrow> bool" where
  "adm_ok s \<longleftrightarrow> adm_list (totals s) (reservations s)"

lemma cpu_sum_simps [simp]:
  "cpu_sum c [] = 0"
  "cpu_sum c (r # rs) = (if rs_cpu r = c then rs_utilization r else 0) + cpu_sum c rs"
  by (simp_all add: cpu_sum_def)

lemma ledger_of_Nil [simp]: "ledger_of [] = Map.empty"
  by (simp add: ledger_of_def)

lemma ledger_of_Cons [simp]: "ledger_of (r # rs) = (ledger_of rs)(rs_task r \<mapsto> (rs_cpu r, rs_utilization r))"
  by (simp add: ledger_of_def)

lemma dom_ledger_of: "dom (ledger_of rs) = rs_task ` set rs"
  by (induction rs) (simp_all only: ledger_of_Cons ledger_of_Nil dom_fun_upd, simp_all)

lemma ledger_of_fresh: "t \<notin> rs_task ` set rs \<Longrightarrow> (ledger_of rs)(t := None) = ledger_of rs"
  by (metis dom_ledger_of domIff fun_upd_idem)

lemma ledger_of_Some:
  "distinct (map rs_task rs) \<Longrightarrow>
     ledger_of rs t = Some (c, u) \<longleftrightarrow> (\<exists>r\<in>set rs. rs_task r = t \<and> rs_cpu r = c \<and> rs_utilization r = u)"
  unfolding ledger_of_def by (subst map_of_eq_Some_iff) (auto simp: comp_def)

lemma ledger_of_cong:
  assumes "distinct (map rs_task rs)" "distinct (map rs_task rs')" "set rs = set rs'"
  shows "ledger_of rs = ledger_of rs'"
proof
  fix t
  have "ledger_of rs t = Some p \<longleftrightarrow> ledger_of rs' t = Some p" for p
    using assms by (cases p) (simp add: ledger_of_Some)
  then show "ledger_of rs t = ledger_of rs' t" by (metis not_None_eq)
qed

lemma load_update:
  assumes "finite (dom L)" "L t = None"
  shows "load (L(t \<mapsto> (c', u))) c = load L c + (if c' = c then u else 0)"
proof -
  let ?A = "{x \<in> dom L. fst (the (L x)) = c}"
  have t: "t \<notin> ?A" using assms(2) by auto
  have fin: "finite ?A" using assms(1) by simp
  have set: "{x \<in> dom (L(t \<mapsto> (c', u))). fst (the ((L(t \<mapsto> (c', u))) x)) = c} = (if c' = c then insert t ?A else ?A)"
    using assms(2) by auto
  have "(\<Sum>x\<in>?A. snd (the ((L(t \<mapsto> (c', u))) x))) = (\<Sum>x\<in>?A. snd (the (L x)))"
    using t by (intro sum.cong) auto
  then show ?thesis using t fin unfolding load_def set by simp
qed

lemma cpu_sum_load: "distinct (map rs_task rs) \<Longrightarrow> cpu_sum c rs = load (ledger_of rs) c"
proof (induction rs)
  case Nil
  then show ?case by (simp add: load_def)
next
  case (Cons r rs)
  have "ledger_of rs (rs_task r) = None" using Cons.prems dom_ledger_of [of rs] by (auto simp: domIff)
  moreover have "finite (dom (ledger_of rs))" by (simp add: dom_ledger_of)
  ultimately have "load (ledger_of (r # rs)) c = load (ledger_of rs) c + (if rs_cpu r = c then rs_utilization r else 0)"
    unfolding ledger_of_Cons by (rule load_update [rotated])
  then show ?case using Cons by (simp del: ledger_of_Cons)
qed

section \<open>The list invariant\<close>

lemma adm_list_perm: "mset rs = mset rs' \<Longrightarrow> adm_list ts rs \<longleftrightarrow> adm_list ts rs'"
proof -
  assume p: "mset rs = mset rs'"
  have "distinct (map rs_task rs) = distinct (map rs_task rs')" using p by (intro mset_eq_imp_distinct_iff) simp
  moreover have "cpu_sum c rs = cpu_sum c rs'" for c unfolding cpu_sum_def by (rule sum_list_perm [OF p])
  ultimately show ?thesis using mset_eq_setD [OF p] by (simp add: adm_list_def)
qed

lemma adm_list_tail:
  "adm_list ts (r # rs) \<Longrightarrow> adm_list (ts[rs_cpu r := saturating_sub (ts ! rs_cpu r) (rs_utilization r)]) rs"
  by (auto simp: adm_list_def nth_list_update)

lemma adm_list_add:
  assumes "adm_list ts rs" "rs_task r \<notin> rs_task ` set rs" "rs_cpu r < MAX_CPUS" "rs_utilization r \<noteq> 0"
    and "ts ! rs_cpu r + rs_utilization r \<le> U64_MAX"
  shows "adm_list (ts[rs_cpu r := saturating_add (ts ! rs_cpu r) (rs_utilization r)]) (r # rs)"
  using assms saturating_add_exact [OF assms(5)] by (auto simp: adm_list_def nth_list_update)

lemma ledger_of_perm: "adm_list ts rs \<Longrightarrow> mset rs = mset rs' \<Longrightarrow> ledger_of rs = ledger_of rs'"
  by (metis adm_list_def adm_list_perm ledger_of_cong mset_eq_setD)

text \<open>Taking the entry of a task out of the ledger, where it has one.\<close>

lemma split_task:
  assumes ok: "adm_ok s" and i: "i < length (reservations s)"
  defines "rest \<equiv> swap_remove i (reservations s)" and "r \<equiv> reservations s ! i"
  shows "adm_list (totals s) (r # rest)" "rs_task r \<notin> rs_task ` set rest"
    "ledger s (rs_task r) = Some (rs_cpu r, rs_utilization r)" "ledger_of rest = (ledger s)(rs_task r := None)"
proof -
  have p: "mset (reservations s) = mset (r # rest)" unfolding r_def rest_def by (rule swap_remove_perm [OF i])
  show a: "adm_list (totals s) (r # rest)" using ok unfolding adm_ok_def adm_list_perm [OF p] .
  show f: "rs_task r \<notin> rs_task ` set rest" using a by (auto simp: adm_list_def)
  have l: "ledger s = ledger_of (r # rest)"
    unfolding ledger_def by (rule ledger_of_perm [OF ok [unfolded adm_ok_def] p])
  show "ledger s (rs_task r) = Some (rs_cpu r, rs_utilization r)" by (simp add: l)
  show "ledger_of rest = (ledger s)(rs_task r := None)" by (simp add: l ledger_of_fresh [OF f])
qed

lemma totals_load: "adm_ok s \<Longrightarrow> c < MAX_CPUS \<Longrightarrow> totals s ! c = load (ledger s) c"
  by (simp add: adm_ok_def adm_list_def ledger_def cpu_sum_load)

lemma take_ok:
  assumes "adm_ok s" "i < length (reservations s)"
  shows "adm_ok (take_reservation i s)"
    "ledger (take_reservation i s) = (ledger s)(rs_task (reservations s ! i) := None)"
  using adm_list_tail [OF split_task(1) [OF assms]] split_task(4) [OF assms]
  by (simp_all add: adm_ok_def ledger_def take_reservation_def sub_total_def Let_def)

section \<open>Pruning\<close>

lemma nth_swap_remove: "j < i \<Longrightarrow> i < length xs \<Longrightarrow> swap_remove i xs ! j = xs ! j"
  by (simp add: swap_remove_def nth_butlast)

lemma prune_from_ok:
  "adm_ok s \<Longrightarrow> \<forall>j<i. j < length (reservations s) \<longrightarrow> alive (rs_task (reservations s ! j)) \<Longrightarrow>
     adm_ok (prune_from alive i s) \<and> ledger (prune_from alive i s) = ledger s |` {t. alive t}"
proof (induction alive i s rule: prune_from.induct)
  case (1 alive i s)
  show ?case
  proof (cases "i < length (reservations s)")
    case len: True
    show ?thesis
    proof (cases "alive (rs_task (reservations s ! i))")
      case True
      then have "\<forall>j<i + 1. j < length (reservations s) \<longrightarrow> alive (rs_task (reservations s ! j))"
        using "1.prems"(2) by (metis Suc_eq_plus1 less_Suc_eq)
      from "1.IH"(1) [OF len True "1.prems"(1) this] show ?thesis
        using len True by (simp add: prune_from.simps [of alive i s])
    next
      case False
      have res: "reservations (take_reservation i s) = swap_remove i (reservations s)"
        by (simp add: take_reservation_def sub_total_def Let_def)
      have "\<forall>j<i. j < length (reservations (take_reservation i s)) \<longrightarrow> alive (rs_task (reservations (take_reservation i s) ! j))"
        unfolding res using "1.prems"(2) len by (simp add: nth_swap_remove)
      from "1.IH"(2) [OF len False take_ok(1) [OF "1.prems"(1) len] this]
      show ?thesis using len False take_ok(2) [OF "1.prems"(1) len]
        by (auto simp: prune_from.simps [of alive i s] restrict_map_def fun_eq_iff)
    qed
  next
    case False
    have "dom (ledger s) \<subseteq> {t. alive t}"
      using "1.prems"(2) False by (auto simp: ledger_def dom_ledger_of in_set_conv_nth)
    then have "ledger s |` {t. alive t} = ledger s" by (intro ext) (metis domIff restrict_in restrict_out subsetD)
    with False "1.prems"(1) show ?thesis by (simp add: prune_from.simps [of alive i s])
  qed
qed

lemma prune_ok:
  assumes "adm_ok s"
  shows "adm_ok (prune_dead alive s)" "ledger (prune_dead alive s) = live_ledger alive s"
  using prune_from_ok [OF assms, of 0 alive] by (simp_all add: prune_dead_def live_ledger_def)

section \<open>Replacing an entry\<close>

lemma find_Some:
  "find_reservation s task = Some i \<Longrightarrow> i < length (reservations s) \<and> rs_task (reservations s ! i) = task"
  by (simp add: find_reservation_def position_Some)

lemma find_None: "find_reservation s task = None \<Longrightarrow> task \<notin> rs_task ` set (reservations s) \<and> ledger s task = None"
  unfolding find_reservation_def position_None ledger_def using dom_ledger_of [of "reservations s"]
  by (metis domIff imageE)

text \<open>What \<open>find\<close> gives is the entry of the abstract ledger.\<close>

lemma find_ledger:
  assumes "adm_ok s"
  shows "map_option (\<lambda>i. (rs_cpu (reservations s ! i), rs_utilization (reservations s ! i))) (find_reservation s task) = ledger s task"
proof (cases "find_reservation s task")
  case None
  then show ?thesis using find_None by simp
next
  case (Some i)
  then show ?thesis using find_Some [OF Some] split_task(3) [OF assms, of i] by simp
qed

text \<open>The load a CPU has without the task, as \<open>fits\<close> computes it.\<close>

definition share :: "ledger \<Rightarrow> nat \<Rightarrow> nat \<Rightarrow> nat" where
  "share L task c = (case L task of Some (c', u) \<Rightarrow> if c' = c then u else 0 | None \<Rightarrow> 0)"

lemma load_split: "finite (dom L) \<Longrightarrow> load L c = load (L(task := None)) c + share L task c"
proof (cases "L task")
  case None
  then have "L(task := None) = L" by (simp add: fun_upd_idem)
  with None show ?thesis by (simp add: share_def)
next
  case (Some p)
  assume fin: "finite (dom L)"
  obtain c' u where p: "p = (c', u)" by fastforce
  then have "L = (L(task := None))(task \<mapsto> (c', u))" using Some by (simp add: fun_upd_idem)
  moreover have "load ((L(task := None))(task \<mapsto> (c', u))) c = load (L(task := None)) c + (if c' = c then u else 0)"
    using fin by (intro load_update) simp_all
  ultimately show ?thesis using Some p by (simp add: share_def)
qed

lemma finite_ledger: "finite (dom (ledger s))"
  by (simp add: ledger_def dom_ledger_of)

lemma fits_load:
  assumes "adm_ok s" "c < MAX_CPUS" "capacity < U64_MAX"
  shows "fits s c (share (ledger s) task c) requested capacity \<longleftrightarrow> load ((ledger s)(task := None)) c + requested \<le> capacity"
  using load_split [OF finite_ledger, of s c task] totals_load [OF assms(1,2)] assms(3)
  by (auto simp: fits_def saturating_add_def)

lemma replace_ok:
  assumes ok: "adm_ok s" and c: "c < MAX_CPUS" and room: "load ((ledger s)(task := None)) c + u \<le> U64_MAX"
  shows "adm_ok (replace_reservation s task c u) \<and>
    ledger (replace_reservation s task c u) = (ledger s)(task := (if u = 0 then None else Some (c, u)))"
proof (cases "find_reservation s task")
  case None
  note new = find_None [OF None]
  have L: "(ledger s)(task := None) = ledger s" using new by (simp add: fun_upd_idem)
  let ?new = "\<lparr>rs_task = task, rs_cpu = c, rs_utilization = u\<rparr>"
  have p: "mset (reservations s @ [?new]) = mset (?new # reservations s)" by simp
  have le: "totals s ! c + u \<le> U64_MAX" using room L totals_load [OF ok c] by simp
  show ?thesis
  proof (cases "u = 0")
    case True
    then show ?thesis using None ok L by (simp add: replace_reservation_def)
  next
    case False
    have "adm_list ((totals s)[c := saturating_add (totals s ! c) u]) (reservations s @ [?new])"
      unfolding adm_list_perm [OF p] using adm_list_add [of "totals s" "reservations s" ?new] ok c new le False
      by (simp add: adm_ok_def)
    moreover from this have "ledger_of (reservations s @ [?new]) = ledger_of (?new # reservations s)"
      by (rule ledger_of_perm [OF _ p])
    ultimately show ?thesis using None False
      by (simp add: replace_reservation_def adm_ok_def ledger_def add_total_def)
  qed
next
  case (Some i)
  note i = find_Some [OF Some, THEN conjunct1] find_Some [OF Some, THEN conjunct2]
  let ?r = "reservations s ! i" and ?rest = "swap_remove i (reservations s)"
  let ?new = "?r\<lparr>rs_cpu := c, rs_utilization := u\<rparr>"
  let ?ts = "(totals s)[rs_cpu ?r := saturating_sub (totals s ! rs_cpu ?r) (rs_utilization ?r)]"
  note sp = split_task [OF ok i(1), unfolded i(2)]
  have tail: "adm_list ?ts ?rest" using adm_list_tail [OF sp(1)] .
  have "?ts ! c = load ((ledger s)(task := None)) c"
    using tail c sp(4) by (simp add: adm_list_def cpu_sum_load)
  then have add: "u \<noteq> 0 \<Longrightarrow> adm_list (?ts[c := saturating_add (?ts ! c) u]) (?new # ?rest)"
    using adm_list_add [OF tail, of ?new] sp(2) room c i(2) by simp
  have p: "mset ((reservations s)[i := ?new]) = mset (?new # ?rest)" by (rule list_update_perm [OF i(1)])
  show ?thesis
  proof (cases "u = 0")
    case True
    then show ?thesis using Some tail sp(4)
      by (simp add: replace_reservation_def Let_def adm_ok_def ledger_def sub_total_def)
  next
    case False
    have "adm_list (?ts[c := saturating_add (?ts ! c) u]) ((reservations s)[i := ?new])"
      using add [OF False] unfolding adm_list_perm [OF p] .
    moreover from this have "ledger_of ((reservations s)[i := ?new]) = ledger_of (?new # ?rest)"
      by (rule ledger_of_perm [OF _ p])
    ultimately show ?thesis using Some False sp(4) i(2)
      by (simp add: replace_reservation_def Let_def adm_ok_def ledger_def sub_total_def add_total_def)
  qed
qed

section \<open>The operations on the abstract ledger\<close>

lemma ledger_entry: "adm_ok s \<Longrightarrow> ledger s t = Some (c, u) \<Longrightarrow> c < MAX_CPUS \<and> u \<noteq> 0"
  by (auto simp: adm_ok_def adm_list_def ledger_def ledger_of_Some)

definition home_cpu :: "ledger \<Rightarrow> nat \<Rightarrow> nat \<Rightarrow> nat" where
  "home_cpu L task owner = (case L task of Some (c, _) \<Rightarrow> c | None \<Rightarrow> owner)"

definition demand :: "ledger \<Rightarrow> nat \<Rightarrow> sched_attr \<Rightarrow> nat" where
  "demand L task attr = (case L task of Some (_, u) \<Rightarrow> u | None \<Rightarrow> utilization_of attr)"

lemma home_cpu_bound: "adm_ok s \<Longrightarrow> owner < MAX_CPUS \<Longrightarrow> home_cpu (ledger s) task owner < MAX_CPUS"
  by (auto simp: home_cpu_def dest: ledger_entry split: option.splits)

lemma update_target:
  assumes "adm_ok s"
  shows "(case find_reservation s task of
       Some i \<Rightarrow> (rs_cpu (reservations s ! i), rs_utilization (reservations s ! i)) | None \<Rightarrow> (owner, 0)) =
     (home_cpu (ledger s) task owner, share (ledger s) task (home_cpu (ledger s) task owner))"
  using find_ledger [OF assms, of task]
  by (cases "find_reservation s task") (auto simp: home_cpu_def share_def split: option.splits)

lemma migration_load_eq:
  assumes "adm_ok s"
  shows "migration_load s task attr c = (demand (ledger s) task attr, share (ledger s) task c)"
  using find_ledger [OF assms, of task]
  by (cases "find_reservation s task") (auto simp: migration_load_def demand_def share_def split: option.splits)

lemma accounted_source:
  assumes "adm_ok s"
  shows "(case find_reservation s task of Some i \<Rightarrow> rs_cpu (reservations s ! i) | None \<Rightarrow> source) = home_cpu (ledger s) task source"
  using find_ledger [OF assms, of task]
  by (cases "find_reservation s task") (auto simp: home_cpu_def split: option.splits)

lemma update_attr_spec:
  assumes ok: "adm_ok s" and c: "owner < MAX_CPUS" and cap: "capacity < U64_MAX"
    and up: "update_attr alive s task owner attr capacity ap = (r, s')"
  defines "L \<equiv> live_ledger alive s" and "u \<equiv> utilization_of attr"
  defines "h \<equiv> home_cpu L task owner"
  shows "adm_ok s' \<and> r = (if ap \<and> load (L(task := None)) h + u \<le> capacity then Inr () else Inl EBUSY) \<and>
    ledger s' = (if r = Inr () then L(task := (if u = 0 then None else Some (h, u))) else L)"
proof -
  let ?s = "prune_dead alive s"
  note pr = prune_ok [OF ok, of alive]
  have L: "ledger ?s = L" using pr(2) by (simp add: L_def)
  have h: "h < MAX_CPUS" unfolding h_def using home_cpu_bound [OF pr(1) c] by (simp add: L)
  have fits: "fits ?s h (share L task h) u capacity \<longleftrightarrow> load (L(task := None)) h + u \<le> capacity"
    using fits_load [OF pr(1) h cap, of task u] by (simp add: L)
  have up': "(r, s') = (if \<not> fits ?s h (share L task h) u capacity then (Inl EBUSY, ?s)
      else if \<not> ap then (Inl EBUSY, ?s) else (Inr (), replace_reservation ?s task h u))"
    using up unfolding update_attr_def Let_def update_target [OF pr(1)] L h_def u_def by simp
  have "load (L(task := None)) h + u \<le> capacity \<Longrightarrow> adm_ok (replace_reservation ?s task h u) \<and>
      ledger (replace_reservation ?s task h u) = L(task := (if u = 0 then None else Some (h, u)))"
    using replace_ok [OF pr(1) h, of task u] cap by (simp add: L)
  then show ?thesis using up' fits pr(1) L by (auto split: if_splits)
qed

lemma migrate_spec:
  assumes ok: "adm_ok s" and c: "target < MAX_CPUS" and cap: "capacity < U64_MAX"
    and mig: "migrate alive s task attr source target capacity ap = Some (r, s')"
  defines "L \<equiv> live_ledger alive s"
  defines "u \<equiv> demand L task attr"
  shows "adm_ok s' \<and> r = (if u \<noteq> 0 \<and> capacity < load (L(task := None)) target + u then Inl EBUSY else ap) \<and>
    ledger s' = (if r = Inr () \<and> u \<noteq> 0 then L(task \<mapsto> (target, u)) else L)"
proof -
  let ?s = "prune_dead alive s"
  note pr = prune_ok [OF ok, of alive]
  have L: "ledger ?s = L" using pr(2) by (simp add: L_def)
  have fits: "fits ?s target (share L task target) u capacity \<longleftrightarrow> load (L(task := None)) target + u \<le> capacity"
    using fits_load [OF pr(1) c cap, of task u] by (simp add: L)
  have mig': "Some (r, s') =
     (if u \<noteq> 0 \<and> \<not> fits ?s target (share L task target) u capacity then Some (Inl EBUSY, ?s)
      else case ap of Inl e \<Rightarrow> Some (Inl e, ?s)
        | Inr _ \<Rightarrow> if u \<noteq> 0 then (if home_cpu L task source \<noteq> source then None
                    else Some (Inr (), replace_reservation ?s task target u)) else Some (Inr (), ?s))"
    using mig unfolding migrate_def Let_def migration_load_eq [OF pr(1)] accounted_source [OF pr(1)] L u_def by simp
  have "load (L(task := None)) target + u \<le> capacity \<Longrightarrow> u \<noteq> 0 \<Longrightarrow> adm_ok (replace_reservation ?s task target u) \<and>
      ledger (replace_reservation ?s task target u) = L(task \<mapsto> (target, u))"
    using replace_ok [OF pr(1) c, of task u] cap by (simp add: L)
  then show ?thesis using mig' fits pr(1) L by (auto split: if_splits sum.splits)
qed

lemma release_spec:
  assumes ok: "adm_ok s"
  shows "adm_ok (release_reservation alive s task) \<and>
    ledger (release_reservation alive s task) = (live_ledger alive s)(task := None)"
proof (cases "find_reservation (prune_dead alive s) task")
  case None
  then show ?thesis using prune_ok [OF ok, of alive] find_None [OF None]
    by (simp add: release_reservation_def fun_upd_idem)
next
  case (Some i)
  then show ?thesis using prune_ok [OF ok, of alive] find_Some [OF Some] take_ok [OF prune_ok(1) [OF ok], of i alive]
    by (simp add: release_reservation_def)
qed

section \<open>Reachable ledgers\<close>

inductive adm_step :: "admission_state \<Rightarrow> admission_state \<Rightarrow> bool" where
  adm_update: "owner < MAX_CPUS \<Longrightarrow> capacity < U64_MAX \<Longrightarrow>
     update_attr alive s task owner attr capacity ap = (r, s') \<Longrightarrow> adm_step s s'"
| adm_migrate: "target < MAX_CPUS \<Longrightarrow> capacity < U64_MAX \<Longrightarrow>
     migrate alive s task attr source target capacity apr = Some (r, s') \<Longrightarrow> adm_step s s'"
| adm_release: "adm_step s (release_reservation alive s task)"
| adm_can_migrate: "can_migrate alive s task attr target capacity = (b, s') \<Longrightarrow> adm_step s s'"
| adm_reserved: "reserved alive s cpu = (n, s') \<Longrightarrow> adm_step s s'"
| adm_totals: "read_totals alive s = (ts, s') \<Longrightarrow> adm_step s s'"
| adm_fits: "fits_capacities alive s caps = (b, s') \<Longrightarrow> adm_step s s'"
| adm_tasks: "tasks_on_cpu alive s cpu = (tasks, s') \<Longrightarrow> adm_step s s'"
| adm_reservation: "reservation_of alive s task = (p, s') \<Longrightarrow> adm_step s s'"

definition adm_init :: "admission_state \<Rightarrow> bool" where
  "adm_init s \<longleftrightarrow> s = admission_new"

lemmas query_defs = can_migrate_def reserved_def read_totals_def fits_capacities_def tasks_on_cpu_def reservation_of_def

lemma adm_step_ok: "adm_ok s \<Longrightarrow> adm_step s s' \<Longrightarrow> adm_ok s'"
  by (erule adm_step.cases)
    (auto simp: query_defs Let_def split: prod.splits intro: prune_ok dest: update_attr_spec migrate_spec release_spec)

interpretation adm: inductive_invariant adm_init adm_step adm_ok
proof unfold_locales
  fix s
  assume "adm_init s"
  then show "adm_ok s" by (simp add: adm_init_def admission_new_def adm_ok_def adm_list_def)
qed (rule adm_step_ok)

section \<open>Properties\<close>

text \<open>A deadline task that takes half of CPU 0, and a smaller request.\<close>

definition example_attr :: "nat \<Rightarrow> sched_attr" where
  "example_attr runtime = \<lparr>policy = Deadline, nice = 0, slice_ns = 0, priority = 0, runtime_ns = runtime,
     deadline_ns = 8000000, period_ns = 8000000\<rparr>"

definition example_state :: admission_state where
  "example_state = snd (update_attr (\<lambda>_. True) admission_new 1 0 (example_attr 4000000) 1024 True)"

lemma example_utilization: "utilization_of (example_attr 4000000) = 512" "utilization_of (example_attr 2000000) = 256"
  by (simp_all add: utilization_of_def example_attr_def SCHED_CAPACITY_SCALE_def)

lemma replicate_12: "replicate 12 (0::nat) = 0 # replicate 11 0"
  by (simp add: numeral_eq_Suc)

lemma example_state_eval:
  "example_state = \<lparr>totals = 512 # replicate 11 0, reservations = [\<lparr>rs_task = 1, rs_cpu = 0, rs_utilization = 512\<rparr>]\<rparr>"
  by (simp add: example_state_def update_attr_def example_utilization admission_new_def prune_dead_def prune_from.simps
      find_reservation_def fits_def replace_reservation_def add_total_def saturating_add_def MAX_CPUS_def replicate_12)

lemma example_state_reachable: "reachable adm_init adm_step example_state"
proof (rule reachable.intros(2))
  show "reachable adm_init adm_step admission_new" by (rule reachable.intros) (simp add: adm_init_def)
  show "adm_step admission_new example_state"
    unfolding example_state_def by (rule adm_update [OF _ _ prod.collapse [symmetric]]) (simp_all add: MAX_CPUS_def)
qed

text \<open>
  C33. The cached totals of the deadline ledger are exact: whatever sequence of updates, migrations,
  releases and queries led here, the bandwidth reported as reserved on a CPU is the sum of the
  utilizations that tasks still alive hold there, and each task is reported with its own entry.
\<close>

theorem deadline_totals_exact:
  assumes "reachable adm_init adm_step s" "c < MAX_CPUS"
  shows "fst (reserved alive s c) = load (live_ledger alive s) c \<and> fst (reservation_of alive s task) = live_ledger alive s task"
proof -
  have "adm_ok s" using assms(1) by (rule adm.reachable_inv)
  note pr = prune_ok [OF this, of alive]
  show ?thesis using totals_load [OF pr(1) assms(2)] find_ledger [OF pr(1), of task] pr(2)
    by (simp add: reserved_def reservation_of_def)
qed

theorem deadline_totals_exact_witness:
  "fst (reserved (\<lambda>t. t = 1) example_state 0) = load (live_ledger (\<lambda>t. t = 1) example_state) 0 \<and>
   fst (reservation_of (\<lambda>t. t = 1) example_state 1) = live_ledger (\<lambda>t. t = 1) example_state 1 \<and>
   live_ledger (\<lambda>t. t = 1) example_state 1 = Some (0, 512)"
  using deadline_totals_exact [OF example_state_reachable, of 0 "\<lambda>t. t = 1" 1]
  by (simp add: MAX_CPUS_def) (simp add: live_ledger_def ledger_def example_state_eval)

text \<open>
  C34. An attribute update refines one update of the abstract ledger: it succeeds exactly when the
  caller's commit does and the load of the other tasks on the task's CPU plus the request stays within
  the capacity, it then records the request (or drops the entry of a task that leaves the deadline
  class) and the CPU is not overcommitted; a refused update leaves the ledger of the live tasks as it was.
\<close>

theorem update_attr_refines:
  assumes "reachable adm_init adm_step s" "owner < MAX_CPUS" "capacity < U64_MAX"
    and "update_attr alive s task owner attr capacity ap = (r, s')"
  shows "let L = live_ledger alive s; u = utilization_of attr; h = home_cpu L task owner in
    r = (if ap \<and> load (L(task := None)) h + u \<le> capacity then Inr () else Inl EBUSY) \<and>
    ledger s' = (if r = Inr () then L(task := (if u = 0 then None else Some (h, u))) else L) \<and>
    (r = Inr () \<longrightarrow> load (ledger s') h \<le> capacity)"
proof -
  let ?L = "live_ledger alive s" and ?u = "utilization_of attr"
  let ?h = "home_cpu ?L task owner"
  have ok: "adm_ok s" using assms(1) by (rule adm.reachable_inv)
  note spec = update_attr_spec [OF ok assms(2-4)]
  have fin: "finite (dom ?L)" using finite_ledger [of s] by (simp add: live_ledger_def)
  have "load (?L(task := (if ?u = 0 then None else Some (?h, ?u)))) ?h = load (?L(task := None)) ?h + ?u"
    using load_update [of "?L(task := None)" task ?h ?u ?h] fin by simp
  with spec show ?thesis unfolding Let_def by (auto split: if_splits)
qed

theorem update_attr_refines_witness:
  "fst (update_attr (\<lambda>_. True) example_state 2 0 (example_attr 2000000) 1024 True) = Inr () \<and>
   load (ledger (snd (update_attr (\<lambda>_. True) example_state 2 0 (example_attr 2000000) 1024 True))) 0 \<le> 1024"
proof -
  let ?r = "update_attr (\<lambda>_. True) example_state 2 0 (example_attr 2000000) 1024 True"
  have L: "live_ledger (\<lambda>_. True) example_state = [1 \<mapsto> (0, 512)]"
    by (simp add: live_ledger_def ledger_def example_state_eval)
  have "load [1 \<mapsto> (0, 512)] 0 = 512"
    using load_update [of Map.empty "1::nat" 0 512 0] by (simp add: load_def)
  moreover have "home_cpu [1 \<mapsto> (0, 512)] 2 0 = 0" "([1 \<mapsto> (0, 512)])(2 := None) = [1::nat \<mapsto> (0::nat, 512::nat)]"
    by (simp_all add: home_cpu_def fun_eq_iff)
  moreover have "load [1 \<mapsto> (0, 512), 2 \<mapsto> (0, 256)] 0 = load [1 \<mapsto> (0, 512)] 0 + 256"
    using load_update [of "[1 \<mapsto> (0, 512)]" 2 0 256 0] by simp
  ultimately show ?thesis
    using update_attr_refines [OF example_state_reachable, where owner = 0 and capacity = 1024 and alive = "\<lambda>_. True"
        and task = 2 and attr = "example_attr 2000000" and ap = True and r = "fst ?r" and s' = "snd ?r"] unfolding L
    by (simp add: MAX_CPUS_def example_utilization Let_def)
qed

text \<open>
  C35. A migration moves the reservation as a whole: it is refused with \<open>EBUSY\<close> exactly when the task has
  bandwidth and the load of the other tasks on the target plus that bandwidth exceeds the capacity,
  otherwise it returns what the caller's commit returned; on success the task is charged to the target
  and nowhere else, on failure nothing moves. \<open>can_migrate\<close> answers whether that sum fits the capacity, with
  the bandwidth zero included: the two differ only for a task without bandwidth on a target that is
  already over its capacity, which \<open>can_migrate\<close> refuses and \<open>migrate\<close> lets pass. The debug assertion
  cannot fail when the caller names the CPU the task is charged to.
\<close>

theorem migrate_refines:
  assumes "reachable adm_init adm_step s" "target < MAX_CPUS" "capacity < U64_MAX"
  shows "let L = live_ledger alive s; u = demand L task attr; m = migrate alive s task attr source target capacity ap in
    (\<forall>r s'. m = Some (r, s') \<longrightarrow>
       r = (if u \<noteq> 0 \<and> capacity < load (L(task := None)) target + u then Inl EBUSY else ap) \<and>
       ledger s' = (if r = Inr () \<and> u \<noteq> 0 then L(task \<mapsto> (target, u)) else L)) \<and>
    (fst (can_migrate alive s task attr target capacity) \<longleftrightarrow> load (L(task := None)) target + u \<le> capacity) \<and>
    (home_cpu L task source = source \<longrightarrow> m \<noteq> None)"
proof -
  let ?s = "prune_dead alive s" and ?L = "live_ledger alive s"
  let ?u = "demand ?L task attr"
  have ok: "adm_ok s" using assms(1) by (rule adm.reachable_inv)
  note pr = prune_ok [OF ok, of alive]
  have can: "fst (can_migrate alive s task attr target capacity) \<longleftrightarrow> load (?L(task := None)) target + ?u \<le> capacity"
    using fits_load [OF pr(1) assms(2,3), of task ?u] by (simp add: can_migrate_def migration_load_eq [OF pr(1)] pr(2))
  have "home_cpu ?L task source = source \<Longrightarrow> migrate alive s task attr source target capacity ap \<noteq> None"
    unfolding migrate_def Let_def migration_load_eq [OF pr(1)] accounted_source [OF pr(1)] pr(2)
    by (simp split: sum.splits)
  moreover have "r = (if ?u \<noteq> 0 \<and> capacity < load (?L(task := None)) target + ?u then Inl EBUSY else ap) \<and>
       ledger s' = (if r = Inr () \<and> ?u \<noteq> 0 then ?L(task \<mapsto> (target, ?u)) else ?L)"
    if "migrate alive s task attr source target capacity ap = Some (r, s')" for r s'
    using migrate_spec [OF ok assms(2,3) that] by (elim conjE, intro conjI) (assumption | simp add: not_less)+
  ultimately show ?thesis unfolding Let_def using can by blast
qed

theorem migrate_refines_witness:
  "\<exists>s'. migrate (\<lambda>_. True) example_state 1 (example_attr 4000000) 0 3 1024 (Inr ()) = Some (Inr (), s') \<and>
     ledger s' = [1 \<mapsto> (3, 512)]"
proof -
  have L: "live_ledger (\<lambda>_. True) example_state = [1 \<mapsto> (0, 512)]"
    by (simp add: live_ledger_def ledger_def example_state_eval)
  have v: "demand [1 \<mapsto> (0, 512)] 1 (example_attr 4000000) = 512" "home_cpu [1 \<mapsto> (0, 512)] 1 0 = 0"
    "load (Map.empty :: ledger) 3 = 0" "([1 \<mapsto> (0, 512)])(1 := None) = (Map.empty :: ledger)"
    by (simp_all add: demand_def home_cpu_def load_def fun_eq_iff)
  show ?thesis
    using migrate_refines [OF example_state_reachable, where target = 3 and capacity = 1024 and alive = "\<lambda>_. True"
        and task = 1 and attr = "example_attr 4000000" and source = 0 and ap = "Inr ()"] v unfolding L
    by (auto simp: MAX_CPUS_def Let_def)
qed

end
