(* ===== verification/FlowExecution.thy ===== *)
theory FlowExecution
  imports Prelude "HOL-Library.Word"
begin

unbundle bit_operations_syntax

text \<open>
  The transferable execution lease of a protocol state: \<open>libs/net/src/flow/execution.rs\<close>. The atomic
  word is a 64-bit word. Each operation is cut at its atomic accesses: a load, one compare-and-exchange
  of a retry loop (which may fail spuriously), a fetch-or. Any number of calling contexts interleave.
\<close>

section \<open>The state word\<close>

definition BUSY :: "64 word" where "BUSY = push_bit 0 1"
definition PENDING :: "64 word" where "PENDING = push_bit 1 1"
definition EXECUTOR_KIND_SHIFT :: nat where "EXECUTOR_KIND_SHIFT = 8"
definition EXECUTOR_CPU_SHIFT :: nat where "EXECUTOR_CPU_SHIFT = 16"
definition GENERATION_SHIFT :: nat where "GENERATION_SHIFT = 32"
definition EXECUTOR_KIND_MASK :: "64 word" where "EXECUTOR_KIND_MASK = push_bit EXECUTOR_KIND_SHIFT 0xff"
definition EXECUTOR_CPU_MASK :: "64 word" where "EXECUTOR_CPU_MASK = push_bit EXECUTOR_CPU_SHIFT 0xff"
definition GENERATION_MASK :: "64 word" where "GENERATION_MASK = push_bit GENERATION_SHIFT (ucast (- 1 :: 32 word))"

datatype flow_executor_kind = Worker | Syscall | Recovery

fun kind_code :: "flow_executor_kind \<Rightarrow> 8 word" where
  "kind_code Worker = 1"
| "kind_code Syscall = 2"
| "kind_code Recovery = 3"

record flow_snapshot =
  sn_generation :: "32 word"
  sn_kind :: "flow_executor_kind option"
  sn_cpu :: "8 word option"
  sn_busy :: bool
  sn_pending :: bool

definition generation_of :: "64 word \<Rightarrow> 32 word" where
  "generation_of state = ucast (drop_bit GENERATION_SHIFT (state AND GENERATION_MASK))"

definition flow_new :: "64 word" where "flow_new = 0"

text \<open>\<open>compare_exchange_weak\<close> on a word that currently holds \<open>w\<close>; \<open>spurious\<close> is the permitted failure.\<close>

definition compare_exchange_weak :: "64 word \<Rightarrow> 64 word \<Rightarrow> 64 word \<Rightarrow> bool \<Rightarrow> 64 word \<times> bool" where
  "compare_exchange_weak w current new spurious = (if w = current \<and> \<not> spurious then (new, True) else (w, False))"

section \<open>Operations, cut at their atomic accesses\<close>

text \<open>
  Where a calling context stands: between calls, in a retry loop with the value it last observed,
  holding the lease, at the last load of a release, or stopped by a failed assertion.
\<close>

datatype flow_pc =
    Returned bool
  | Installing "32 word" "64 word"
  | Acquiring "32 word" flow_executor_kind "8 word" "64 word"
  | Holding "32 word"
  | Releasing "32 word" "64 word"
  | Rechecking
  | Panicked

definition install_start :: "64 word \<Rightarrow> nat \<Rightarrow> flow_pc" where
  "install_start w generation =
     (if U32_MAX < generation then Returned False
      else if generation = 0 then Returned False
      else Installing (of_nat generation) w)"

definition install_next :: "32 word \<Rightarrow> 64 word" where
  "install_next generation = push_bit GENERATION_SHIFT (ucast generation)"

definition install_iterate :: "64 word \<Rightarrow> 32 word \<Rightarrow> 64 word \<Rightarrow> bool \<Rightarrow> 64 word \<times> flow_pc" where
  "install_iterate w generation observed spurious =
     (if observed AND BUSY \<noteq> 0 then (w, Returned False)
      else case compare_exchange_weak w observed (install_next generation) spurious of
          (w', True) \<Rightarrow> (w', Returned True)
        | (w', False) \<Rightarrow> (w', Installing generation w'))"

definition acquire_start :: "64 word \<Rightarrow> nat \<Rightarrow> flow_executor_kind \<Rightarrow> nat \<Rightarrow> flow_pc" where
  "acquire_start w expected_generation executor_kind executor_cpu =
     (if U32_MAX < expected_generation then Returned False
      else if 255 < executor_cpu then Returned False
      else if expected_generation = 0 then Returned False
      else Acquiring (of_nat expected_generation) executor_kind (of_nat executor_cpu) w)"

definition acquire_next :: "64 word \<Rightarrow> flow_executor_kind \<Rightarrow> 8 word \<Rightarrow> 64 word" where
  "acquire_next observed executor_kind cpu =
     (observed AND GENERATION_MASK) OR BUSY
       OR push_bit EXECUTOR_KIND_SHIFT (ucast (kind_code executor_kind)) OR push_bit EXECUTOR_CPU_SHIFT (ucast cpu)"

definition acquire_iterate ::
  "64 word \<Rightarrow> 32 word \<Rightarrow> flow_executor_kind \<Rightarrow> 8 word \<Rightarrow> 64 word \<Rightarrow> bool \<Rightarrow> 64 word \<times> flow_pc" where
  "acquire_iterate w generation executor_kind cpu observed spurious =
     (if observed AND BUSY \<noteq> 0 \<or> generation_of observed \<noteq> generation then (w, Returned False)
      else case compare_exchange_weak w observed (acquire_next observed executor_kind cpu) spurious of
          (w', True) \<Rightarrow> (w', Holding generation)
        | (w', False) \<Rightarrow> (w', Acquiring generation executor_kind cpu w'))"

definition mark_pending :: "64 word \<Rightarrow> 64 word" where
  "mark_pending w = w OR PENDING"

definition has_pending :: "64 word \<Rightarrow> bool" where
  "has_pending w \<longleftrightarrow> w AND PENDING \<noteq> 0"

text \<open>\<open>None\<close> is the \<open>unreachable!\<close> of the match on the executor kind.\<close>

definition snapshot :: "64 word \<Rightarrow> flow_snapshot option" where
  "snapshot state =
     (let busy = state AND BUSY \<noteq> 0;
          kind = ucast (drop_bit EXECUTOR_KIND_SHIFT (state AND EXECUTOR_KIND_MASK)) :: 8 word;
          snap = (\<lambda>k. \<lparr>sn_generation = generation_of state, sn_kind = k,
            sn_cpu = (if busy then Some (ucast (drop_bit EXECUTOR_CPU_SHIFT (state AND EXECUTOR_CPU_MASK))) else None),
            sn_busy = busy, sn_pending = state AND PENDING \<noteq> 0\<rparr>)
      in if \<not> busy then Some (snap None)
         else if kind = 1 then Some (snap (Some Worker))
         else if kind = 2 then Some (snap (Some Syscall))
         else if kind = 3 then Some (snap (Some Recovery))
         else None)"

definition release_next :: "64 word \<Rightarrow> 64 word" where
  "release_next observed = (observed AND GENERATION_MASK) OR (observed AND PENDING)"

definition release_iterate :: "64 word \<Rightarrow> 32 word \<Rightarrow> 64 word \<Rightarrow> bool \<Rightarrow> 64 word \<times> flow_pc" where
  "release_iterate w generation observed spurious =
     (if generation_of observed \<noteq> generation then (w, Panicked)
      else if observed AND BUSY = 0 then (w, Panicked)
      else case compare_exchange_weak w observed (release_next observed) spurious of
          (w', True) \<Rightarrow> (w', Rechecking)
        | (w', False) \<Rightarrow> (w', Releasing generation w'))"

section \<open>Interleaving\<close>

text \<open>
  The ghost \<open>fw_work\<close> is true when work was published since the last successful acquisition or
  installation. A lease that is dropped instead of released runs the same code and ignores the result.
\<close>

record flow_world =
  fw_word :: "64 word"
  fw_pc :: "nat \<Rightarrow> flow_pc"
  fw_work :: bool

definition at_pc :: "flow_world \<Rightarrow> nat \<Rightarrow> 64 word \<times> flow_pc \<Rightarrow> flow_world" where
  "at_pc s t r = s\<lparr>fw_word := fst r, fw_pc := (fw_pc s)(t := snd r)\<rparr>"

inductive flow_step :: "flow_world \<Rightarrow> flow_world \<Rightarrow> bool" where
  fs_install: "fw_pc s t = Returned b \<Longrightarrow> flow_step s (at_pc s t (fw_word s, install_start (fw_word s) g))"
| fs_install_loop: "fw_pc s t = Installing g obs \<Longrightarrow> install_iterate (fw_word s) g obs spurious = (w', pc') \<Longrightarrow>
     flow_step s ((at_pc s t (w', pc'))\<lparr>fw_work := (fw_work s \<and> pc' \<noteq> Returned True)\<rparr>)"
| fs_acquire: "fw_pc s t = Returned b \<Longrightarrow> flow_step s (at_pc s t (fw_word s, acquire_start (fw_word s) g k cpu))"
| fs_acquire_loop: "fw_pc s t = Acquiring g k cpu obs \<Longrightarrow> acquire_iterate (fw_word s) g k cpu obs spurious = (w', pc') \<Longrightarrow>
     flow_step s ((at_pc s t (w', pc'))\<lparr>fw_work := (fw_work s \<and> pc' \<noteq> Holding g)\<rparr>)"
| fs_pending: "flow_step s (s\<lparr>fw_word := mark_pending (fw_word s), fw_work := True\<rparr>)"
| fs_release: "fw_pc s t = Holding g \<Longrightarrow> flow_step s (at_pc s t (fw_word s, Releasing g (fw_word s)))"
| fs_release_loop: "fw_pc s t = Releasing g obs \<Longrightarrow> release_iterate (fw_word s) g obs spurious = (w', pc') \<Longrightarrow>
     flow_step s (at_pc s t (w', pc'))"
| fs_recheck: "fw_pc s t = Rechecking \<Longrightarrow> flow_step s (at_pc s t (fw_word s, Returned (has_pending (fw_word s))))"

definition flow_init :: "flow_world \<Rightarrow> bool" where
  "flow_init s \<longleftrightarrow> fw_word s = flow_new \<and> (\<forall>t. fw_pc s t = Returned False) \<and> \<not> fw_work s"

end
