(* ===== verification/FlowExecutionProps.thy ===== *)
theory FlowExecutionProps
  imports FlowExecution
begin

text \<open>
  The execution lease under every interleaving: one holder at a time, no assertion fails, and work
  published while the lease is held is seen by whoever releases it.
\<close>

section \<open>Fields of the state word\<close>

named_theorems flow_masks

lemma busy_bit [flow_masks]: "w AND BUSY = 0 \<longleftrightarrow> \<not> bit w 0"
  by (simp add: BUSY_def bit_iff_and_push_bit_not_eq_0 [symmetric] bit_iff_and_push_bit_not_eq_0)

lemma pending_bit [flow_masks]: "w AND PENDING = 0 \<longleftrightarrow> \<not> bit w 1"
  by (simp add: PENDING_def bit_iff_and_push_bit_not_eq_0)

lemma generation_bit: "bit (generation_of w) n \<longleftrightarrow> n < 32 \<and> bit w (n + 32)"
  by (auto simp: generation_of_def GENERATION_SHIFT_def GENERATION_MASK_def bit_simps add.commute)

lemma generation_eq: "generation_of w = generation_of v \<longleftrightarrow> (\<forall>n<32. bit w (n + 32) = bit v (n + 32))"
  by (auto simp: bit_eq_iff generation_bit)

definition kind_of :: "64 word \<Rightarrow> 8 word" where
  "kind_of w = ucast (drop_bit EXECUTOR_KIND_SHIFT (w AND EXECUTOR_KIND_MASK))"

lemma ff_bit: "bit (0xff :: 64 word) n \<longleftrightarrow> n < 8"
proof -
  have m: "(0xff :: 64 word) = mask 8" by (simp add: mask_eq_exp_minus_1)
  show ?thesis unfolding m bit_mask_iff by auto
qed

lemma kind_mask_bit: "bit EXECUTOR_KIND_MASK n \<longleftrightarrow> 8 \<le> n \<and> n < 16"
  unfolding EXECUTOR_KIND_MASK_def EXECUTOR_KIND_SHIFT_def bit_push_bit_iff ff_bit by auto

lemma kind_bit: "bit (kind_of w) n \<longleftrightarrow> n < 8 \<and> bit w (n + 8)"
  by (auto simp: kind_of_def EXECUTOR_KIND_SHIFT_def bit_simps kind_mask_bit add.commute)

lemma kind_of_eq: "kind_of w = k \<longleftrightarrow> (\<forall>n<8. bit w (n + 8) = bit k n)"
  by (auto simp: bit_eq_iff kind_bit)

lemma mask_bits:
  "bit GENERATION_MASK n \<longleftrightarrow> 32 \<le> n \<and> n < 64" "bit BUSY n \<longleftrightarrow> n = 0" "bit PENDING n \<longleftrightarrow> n = 1"
  by (auto simp: GENERATION_MASK_def GENERATION_SHIFT_def BUSY_def PENDING_def bit_simps)

lemma install_fields:
  "\<not> bit (install_next g) 0" "\<not> bit (install_next g) 1" "generation_of (install_next g) = g"
  by (simp_all add: install_next_def GENERATION_SHIFT_def bit_simps)
    (rule bit_word_eqI, simp add: generation_bit bit_simps)

lemma acquire_fields:
  "bit (acquire_next w k c) 0" "\<not> bit (acquire_next w k c) 1" "generation_of (acquire_next w k c) = generation_of w"
  "kind_of (acquire_next w k c) = kind_code k"
proof -
  have high: "\<not> bit x n" if "8 \<le> n" for x :: "8 word" and n using that bit_imp_le_length [of x n] by auto
  show "bit (acquire_next w k c) 0" "\<not> bit (acquire_next w k c) 1"
    by (simp_all add: acquire_next_def bit_simps mask_bits EXECUTOR_KIND_SHIFT_def EXECUTOR_CPU_SHIFT_def)
  show "generation_of (acquire_next w k c) = generation_of w"
    unfolding generation_eq by (simp add: acquire_next_def bit_simps mask_bits EXECUTOR_KIND_SHIFT_def EXECUTOR_CPU_SHIFT_def high)
  show "kind_of (acquire_next w k c) = kind_code k"
    unfolding kind_of_eq by (simp add: acquire_next_def bit_simps mask_bits EXECUTOR_KIND_SHIFT_def EXECUTOR_CPU_SHIFT_def high)
qed

lemma release_fields:
  "\<not> bit (release_next w) 0" "bit (release_next w) 1 = bit w 1" "generation_of (release_next w) = generation_of w"
  by (auto simp: release_next_def bit_simps mask_bits generation_eq)

lemma pending_fields:
  "bit (mark_pending w) 0 = bit w 0" "bit (mark_pending w) 1" "generation_of (mark_pending w) = generation_of w"
  "kind_of (mark_pending w) = kind_of w"
  by (auto simp: mark_pending_def bit_simps mask_bits generation_eq kind_of_eq kind_bit)

lemmas flow_fields = install_fields [unfolded One_nat_def] acquire_fields [unfolded One_nat_def]
  release_fields [unfolded One_nat_def] pending_fields [unfolded One_nat_def]

section \<open>The invariant\<close>

fun lease_of :: "flow_pc \<Rightarrow> 32 word option" where
  "lease_of (Holding g) = Some g"
| "lease_of (Releasing g obs) = Some g"
| "lease_of _ = None"

fun pc_ok :: "flow_pc \<Rightarrow> bool" where
  "pc_ok (Releasing g obs) = (bit obs 0 \<and> generation_of obs = g)"
| "pc_ok Panicked = False"
| "pc_ok _ = True"

definition lease_ok :: "64 word \<Rightarrow> (nat \<Rightarrow> flow_pc) \<Rightarrow> bool" where
  "lease_ok w pcs \<longleftrightarrow>
     (\<forall>t g. lease_of (pcs t) = Some g \<longrightarrow> bit w 0 \<and> generation_of w = g) \<and>
     (\<forall>t u. lease_of (pcs t) \<noteq> None \<longrightarrow> lease_of (pcs u) \<noteq> None \<longrightarrow> t = u) \<and>
     (bit w 0 \<longrightarrow> (\<exists>t. lease_of (pcs t) \<noteq> None) \<and> kind_of w \<in> {1, 2, 3})"

definition flow_ok :: "flow_world \<Rightarrow> bool" where
  "flow_ok s \<longleftrightarrow> lease_ok (fw_word s) (fw_pc s) \<and> (\<forall>t. pc_ok (fw_pc s t)) \<and> fw_work s = bit (fw_word s) 1"

text \<open>The five ways a step acts on the lease.\<close>

lemma lease_same:
  assumes "lease_ok w pcs" "lease_of pc' = lease_of (pcs t)"
  shows "lease_ok w (pcs(t := pc'))"
proof -
  have "lease_of ((pcs(t := pc')) u) = lease_of (pcs u)" for u using assms(2) by simp
  then show ?thesis using assms(1) by (simp only: lease_ok_def)
qed

lemma lease_pending: "lease_ok w pcs \<Longrightarrow> lease_ok (mark_pending w) pcs"
  by (simp add: lease_ok_def pending_fields)

lemma lease_install:
  "lease_ok w pcs \<Longrightarrow> \<not> bit w 0 \<Longrightarrow> lease_of (pcs t) = None \<Longrightarrow> lease_of pc' = None \<Longrightarrow> lease_ok (install_next g) (pcs(t := pc'))"
  by (auto simp: lease_ok_def install_fields)

lemma lease_acquire:
  assumes "lease_ok w pcs" "\<not> bit w 0"
  shows "lease_ok (acquire_next w k c) (pcs(t := Holding (generation_of w)))"
proof -
  have "lease_of (pcs u) = None" for u using assms unfolding lease_ok_def by (metis not_None_eq)
  moreover have "kind_code k \<in> {1, 2, 3}" by (cases k) simp_all
  ultimately show ?thesis by (auto simp: lease_ok_def acquire_fields)
qed

lemma lease_release:
  assumes "lease_ok w pcs" "lease_of (pcs t) \<noteq> None"
  shows "lease_ok (release_next w) (pcs(t := Rechecking))"
proof -
  have "lease_of (pcs u) = None" if "u \<noteq> t" for u using assms that unfolding lease_ok_def by metis
  then show ?thesis by (auto simp: lease_ok_def release_fields)
qed

lemma flow_step_ok:
  assumes ok: "flow_ok s" and st: "flow_step s s'"
  shows "flow_ok s'"
proof -
  have l: "lease_ok (fw_word s) (fw_pc s)" and p: "\<And>t. pc_ok (fw_pc s t)" and w: "fw_work s = bit (fw_word s) 1"
    using ok by (simp_all add: flow_ok_def)
  show ?thesis using st
  proof cases
    case (fs_install t b g)
    then show ?thesis using l p w lease_same [OF l, of _ t]
      by (auto simp: flow_ok_def at_pc_def install_start_def)
  next
    case (fs_install_loop t g obs spurious w' pc')
    then show ?thesis using l p w lease_same [OF l, of _ t] lease_install [OF l, of t]
      by (auto simp: flow_ok_def at_pc_def install_iterate_def compare_exchange_weak_def flow_masks flow_fields split: if_splits)
  next
    case (fs_acquire t b g k cpu)
    then show ?thesis using l p w lease_same [OF l, of _ t]
      by (auto simp: flow_ok_def at_pc_def acquire_start_def)
  next
    case (fs_acquire_loop t g k cpu obs spurious w' pc')
    then show ?thesis using l p w lease_same [OF l, of _ t] lease_acquire [OF l]
      by (auto simp: flow_ok_def at_pc_def acquire_iterate_def compare_exchange_weak_def flow_masks flow_fields split: if_splits)
  next
    case fs_pending
    then show ?thesis using p lease_pending [OF l] by (simp add: flow_ok_def flow_fields)
  next
    case (fs_release t g)
    then have "bit (fw_word s) 0 \<and> generation_of (fw_word s) = g" using l unfolding lease_ok_def by (metis lease_of.simps(1))
    with fs_release show ?thesis using l p w lease_same [OF l, of _ t] by (simp add: flow_ok_def at_pc_def)
  next
    case (fs_release_loop t g obs spurious w' pc')
    have cur: "bit (fw_word s) 0 \<and> generation_of (fw_word s) = g"
      using l fs_release_loop(2) unfolding lease_ok_def by (metis lease_of.simps(2))
    have obs: "bit obs 0" "generation_of obs = g" using p [of t] fs_release_loop(2) by simp_all
    have ls: "lease_ok (fw_word s) ((fw_pc s)(t := Releasing g (fw_word s)))"
      using fs_release_loop(2) by (intro lease_same [OF l]) simp
    have lr: "lease_ok (release_next (fw_word s)) ((fw_pc s)(t := Rechecking))"
      using fs_release_loop(2) by (intro lease_release [OF l]) simp
    show ?thesis using fs_release_loop cur obs p w ls lr
      by (auto simp: flow_ok_def at_pc_def release_iterate_def compare_exchange_weak_def flow_masks flow_fields split: if_splits)
  next
    case (fs_recheck t)
    then show ?thesis using l p w lease_same [OF l, of _ t] by (simp add: flow_ok_def at_pc_def)
  qed
qed

interpretation flow: inductive_invariant flow_init flow_step flow_ok
proof unfold_locales
  fix s
  assume "flow_init s"
  then show "flow_ok s" by (simp add: flow_init_def flow_ok_def lease_ok_def flow_new_def)
qed (rule flow_step_ok)

section \<open>Properties\<close>

lemma snapshot_busy: "kind_of w \<in> {1, 2, 3} \<Longrightarrow> snapshot w \<noteq> None"
  by (auto simp: snapshot_def kind_of_def Let_def)

text \<open>A run of context 0: it installs generation 1, acquires the lease, and releases it after a publication.\<close>

definition example_flow :: "64 word \<Rightarrow> flow_pc \<Rightarrow> bool \<Rightarrow> flow_world" where
  "example_flow w pc work = \<lparr>fw_word = w, fw_pc = (\<lambda>_. Returned False)(0 := pc), fw_work = work\<rparr>"

definition example_held :: flow_world where
  "example_held = example_flow (acquire_next (install_next 1) Worker 0) (Holding 1) False"

definition example_released :: flow_world where
  "example_released = example_flow (release_next (mark_pending (acquire_next (install_next 1) Worker 0))) Rechecking True"

lemma at_pc_example: "at_pc (example_flow w pc b) 0 r = example_flow (fst r) (snd r) b"
  by (simp add: at_pc_def example_flow_def)

lemma example_flow_pc [simp]: "fw_pc (example_flow w pc b) 0 = pc" "fw_word (example_flow w pc b) = w"
  "fw_work (example_flow w pc b) = b" "(example_flow w pc b)\<lparr>fw_work := b'\<rparr> = example_flow w pc b'"
  "(example_flow w pc b)\<lparr>fw_word := w', fw_work := b'\<rparr> = example_flow w' pc b'"
  by (simp_all add: example_flow_def)

lemma example_steps:
  "flow_step (example_flow 0 (Returned False) False) (example_flow 0 (Installing 1 0) False)"
  "flow_step (example_flow 0 (Installing 1 0) False) (example_flow (install_next 1) (Returned True) False)"
  "flow_step (example_flow (install_next 1) (Returned True) False)
     (example_flow (install_next 1) (Acquiring 1 Worker 0 (install_next 1)) False)"
  "flow_step (example_flow (install_next 1) (Acquiring 1 Worker 0 (install_next 1)) False) example_held"
  using fs_install [of "example_flow 0 (Returned False) False" 0 False 1]
    fs_install_loop [of "example_flow 0 (Installing 1 0) False" 0 1 0 False "install_next 1" "Returned True"]
    fs_acquire [of "example_flow (install_next 1) (Returned True) False" 0 True 1 Worker 0]
    fs_acquire_loop [of "example_flow (install_next 1) (Acquiring 1 Worker 0 (install_next 1)) False" 0 1 Worker 0
      "install_next 1" False "acquire_next (install_next 1) Worker 0" "Holding 1"]
  by (simp_all add: at_pc_example install_start_def install_iterate_def acquire_start_def acquire_iterate_def
      compare_exchange_weak_def flow_masks flow_fields example_held_def)

lemma example_held_reachable: "reachable flow_init flow_step example_held"
proof -
  have "reachable flow_init flow_step (example_flow 0 (Returned False) False)"
    by (rule reachable.intros) (simp add: flow_init_def example_flow_def flow_new_def)
  from reach_step [OF reach_step [OF reach_step [OF reach_step [OF this example_steps(1)] example_steps(2)]
      example_steps(3)] example_steps(4)] show ?thesis .
qed

lemma example_release_steps:
  fixes w :: "64 word"
  defines "w \<equiv> mark_pending (acquire_next (install_next 1) Worker 0)"
  shows "flow_step example_held (example_flow w (Holding 1) True)"
    "flow_step (example_flow w (Holding 1) True) (example_flow w (Releasing 1 w) True)"
    "flow_step (example_flow w (Releasing 1 w) True) example_released"
  using fs_pending [of example_held] fs_release [of "example_flow w (Holding 1) True" 0 1]
    fs_release_loop [of "example_flow w (Releasing 1 w) True" 0 1 w False "release_next w" Rechecking]
  by (simp_all add: at_pc_example release_iterate_def compare_exchange_weak_def flow_masks flow_fields
      example_held_def example_released_def w_def)

lemma example_released_reachable: "reachable flow_init flow_step example_released"
  using reach_step [OF reach_step [OF reach_step [OF example_held_reachable example_release_steps(1)]
      example_release_steps(2)] example_release_steps(3)] .

text \<open>
  C36. The execution lease is exclusive under every interleaving of installations, acquisitions, releases
  and publications with arbitrary spurious failures of the compare-and-exchange: at most one context
  holds it, the state word is busy exactly while one does and carries the generation it was acquired
  for, the assertions of the release never fail, and a snapshot never meets an unknown executor kind.
\<close>

theorem flow_lease_exclusive:
  assumes "reachable flow_init flow_step s"
  shows "(\<forall>t u. lease_of (fw_pc s t) \<noteq> None \<longrightarrow> lease_of (fw_pc s u) \<noteq> None \<longrightarrow> t = u) \<and>
    (fw_word s AND BUSY \<noteq> 0 \<longleftrightarrow> (\<exists>t. lease_of (fw_pc s t) \<noteq> None)) \<and>
    (\<forall>t g. lease_of (fw_pc s t) = Some g \<longrightarrow> generation_of (fw_word s) = g) \<and>
    (\<forall>t. fw_pc s t \<noteq> Panicked) \<and> snapshot (fw_word s) \<noteq> None"
proof -
  have ok: "flow_ok s" using assms by (rule flow.reachable_inv)
  have "snapshot (fw_word s) \<noteq> None"
  proof (cases "bit (fw_word s) 0")
    case True
    then show ?thesis using ok snapshot_busy by (simp add: flow_ok_def lease_ok_def)
  next
    case False
    then show ?thesis by (simp add: snapshot_def Let_def flow_masks)
  qed
  moreover have "\<forall>t. fw_pc s t \<noteq> Panicked" using ok unfolding flow_ok_def by (metis pc_ok.simps(2))
  moreover have "fw_word s AND BUSY \<noteq> 0 \<longleftrightarrow> (\<exists>t. lease_of (fw_pc s t) \<noteq> None)"
    using ok unfolding flow_ok_def lease_ok_def flow_masks by (metis not_None_eq)
  ultimately show ?thesis using ok unfolding flow_ok_def lease_ok_def by blast
qed

theorem flow_lease_exclusive_witness:
  "fw_pc example_held 0 = Holding 1 \<and> fw_word example_held AND BUSY \<noteq> 0 \<and> generation_of (fw_word example_held) = 1 \<and>
   lease_of (fw_pc example_held 7) = None \<and> fw_pc example_held 7 \<noteq> Panicked \<and> snapshot (fw_word example_held) \<noteq> None"
proof -
  have h: "fw_pc example_held 0 = Holding 1" by (simp add: example_held_def)
  then have l: "lease_of (fw_pc example_held 0) = Some 1" by simp
  then show ?thesis using flow_lease_exclusive [OF example_held_reachable] h
    by (metis option.distinct(1) zero_neq_numeral)
qed

text \<open>
  C37. No published work is lost: the pending bit is set exactly when work was published since the last
  successful acquisition or installation, so a release whose final load happens after a publication
  returns that there is work unless another executor has taken it over in between.
\<close>

theorem flow_pending_not_lost:
  assumes "reachable flow_init flow_step s"
  shows "has_pending (fw_word s) = fw_work s \<and>
    (fw_pc s t = Rechecking \<longrightarrow> flow_step s (at_pc s t (fw_word s, Returned (fw_work s))))"
proof -
  have "flow_ok s" using assms by (rule flow.reachable_inv)
  then have "has_pending (fw_word s) = fw_work s" by (simp add: flow_ok_def has_pending_def flow_masks)
  moreover from this have "fw_pc s t = Rechecking \<Longrightarrow> flow_step s (at_pc s t (fw_word s, Returned (fw_work s)))"
    using fs_recheck [of s t] by simp
  ultimately show ?thesis by blast
qed

theorem flow_pending_not_lost_witness:
  "has_pending (fw_word example_released) \<and> fw_pc example_released 0 = Rechecking \<and>
   flow_step example_released (at_pc example_released 0 (fw_word example_released, Returned True))"
  using flow_pending_not_lost [OF example_released_reachable, of 0] by (simp add: example_released_def)

end
