(* ===== verification/BindRegistry.thy ===== *)
theory BindRegistry
  imports NetAddress "HOL-Library.Product_Lexorder" "HOL-Library.Option_ord"
begin

text \<open>
  The port registry: \<open>libs/net/src/control/bind.rs\<close>. The ordered map of groups is the list of its entries
  in key order. Ports, cursors and strides are 16-bit values as natural numbers, token ids 64-bit ones;
  an outer \<open>None\<close> is the panic of an exhausted token counter. Each operation runs under the write lock.
\<close>

unbundle bit_operations_syntax

section \<open>Requests\<close>

definition EPHEMERAL_START :: nat where "EPHEMERAL_START = 49152"
definition EPHEMERAL_COUNT :: nat where "EPHEMERAL_COUNT = 16384"

datatype bind_address = AnyAddress | Specified ip_addr

record bind_options =
  reuse_address :: bool
  reuse_port :: bool
  v6_only :: bool
  multicast_or_broadcast :: bool
  free_bind :: bool

record bind_request =
  br_owner :: nat
  br_family :: address_family
  br_protocol :: transport_protocol
  br_address :: bind_address
  br_port :: nat
  br_interface :: "nat option"
  br_options :: bind_options

record bind_token =
  bt_id :: nat
  bt_port :: nat

datatype bind_error = InvalidAddress | AddressInUse | NoPorts | UnknownReservation

datatype bind_key =
  BindKey (bk_family: address_family) (bk_protocol: transport_protocol) (bk_port: nat) (bk_interface: "nat option")

definition key_tuple :: "bind_key \<Rightarrow> address_family \<times> transport_protocol \<times> nat \<times> nat option" where
  "key_tuple k = (bk_family k, bk_protocol k, bk_port k, bk_interface k)"

lemma key_tuple_inj: "key_tuple a = key_tuple b \<longleftrightarrow> a = b"
  by (auto simp: key_tuple_def bind_key.expand)

instantiation bind_key :: linorder
begin
definition less_eq_bind_key :: "bind_key \<Rightarrow> bind_key \<Rightarrow> bool" where
  "less_eq_bind_key a b \<longleftrightarrow> key_tuple a \<le> key_tuple b"
definition less_bind_key :: "bind_key \<Rightarrow> bind_key \<Rightarrow> bool" where
  "less_bind_key a b \<longleftrightarrow> key_tuple a < key_tuple b"
instance
  by standard (auto simp: less_eq_bind_key_def less_bind_key_def key_tuple_inj [symmetric])
end

record binding =
  bd_token :: bind_token
  bd_request :: bind_request

type_synonym bind_groups = "(bind_key \<times> binding list) list"

record bind_state =
  bs_groups :: bind_groups
  next_token :: nat
  cursors :: "nat list"
  strides :: "nat list"

section \<open>Conflicts\<close>

definition can_share :: "bind_request \<Rightarrow> bind_request \<Rightarrow> bool" where
  "can_share left right =
     (if br_protocol left = Udp \<and> br_protocol right = Udp \<and>
         reuse_address (br_options left) \<and> reuse_address (br_options right) then True
      else reuse_port (br_options left) \<and> reuse_port (br_options right))"

definition address_overlaps :: "bind_address \<Rightarrow> bind_address \<Rightarrow> bool" where
  "address_overlaps left right \<longleftrightarrow> left = AnyAddress \<or> right = AnyAddress \<or> left = right"

definition interface_overlaps :: "nat option \<Rightarrow> nat option \<Rightarrow> bool" where
  "interface_overlaps left right \<longleftrightarrow> left = None \<or> right = None \<or> left = right"

definition cross_family_wildcard :: "bind_request \<Rightarrow> bool" where
  "cross_family_wildcard r \<longleftrightarrow> br_family r = Ipv6 \<and> br_address r = AnyAddress \<and> \<not> v6_only (br_options r)"

definition family_overlaps :: "bind_key \<Rightarrow> binding list \<Rightarrow> bind_key \<Rightarrow> bind_request \<Rightarrow> bool" where
  "family_overlaps left_key left_group right_key right =
     (if bk_family left_key = bk_family right_key then True
      else cross_family_wildcard right \<or> list_ex (\<lambda>e. cross_family_wildcard (bd_request e)) left_group)"

definition address_matches_family :: "address_family \<Rightarrow> bind_address \<Rightarrow> bool" where
  "address_matches_family family address =
     (case (family, address) of
        (_, AnyAddress) \<Rightarrow> True
      | (Ipv4, Specified (V4 _)) \<Rightarrow> True
      | (Ipv6, Specified (V6 _)) \<Rightarrow> True
      | _ \<Rightarrow> False)"

section \<open>Operations\<close>

definition seed_raw :: "8 word list \<Rightarrow> nat \<Rightarrow> 16 word" where
  "seed_raw seed shard =
     (let offset = (shard * 2) mod length seed in
      ucast (seed ! offset) OR push_bit 8 (ucast (seed ! ((offset + 1) mod length seed))))"

definition registry_new :: "nat \<Rightarrow> 8 word list \<Rightarrow> bind_state" where
  "registry_new shards seed =
     (let raws = map (seed_raw seed) [0..<max shards 1] in
      \<lparr>bs_groups = [], next_token = 1,
       cursors = map (\<lambda>raw. unat raw mod EPHEMERAL_COUNT) raws,
       strides = map (\<lambda>raw. unat (of_nat (unat (word_rotl 5 raw OR 1) mod EPHEMERAL_COUNT) OR (1 :: 16 word))) raws\<rparr>)"

definition request_key :: "bind_request \<Rightarrow> bind_key" where
  "request_key r = BindKey (br_family r) (br_protocol r) (br_port r) (br_interface r)"

definition group_conflicts :: "bind_request \<Rightarrow> bind_key \<times> binding list \<Rightarrow> bool" where
  "group_conflicts request = (\<lambda>(existing_key, group).
     if bk_protocol existing_key \<noteq> br_protocol request \<or> bk_port existing_key \<noteq> br_port request \<or>
        \<not> interface_overlaps (bk_interface existing_key) (br_interface request) \<or>
        \<not> family_overlaps existing_key group (request_key request) request
     then False
     else list_ex (\<lambda>existing. address_overlaps (br_address (bd_request existing)) (br_address request) \<and>
            \<not> can_share (bd_request existing) request) group)"

fun group_push :: "bind_key \<Rightarrow> binding \<Rightarrow> bind_groups \<Rightarrow> bind_groups" where
  "group_push key b [] = [(key, [b])]"
| "group_push key b ((k, g) # gs) =
     (if k = key then (k, g @ [b]) # gs
      else if key < k then (key, [b]) # (k, g) # gs
      else (k, g) # group_push key b gs)"

definition reserve_locked :: "bind_state \<Rightarrow> bind_request \<Rightarrow> ((bind_error + bind_token) \<times> bind_state) option" where
  "reserve_locked s request =
     (if list_ex (group_conflicts request) (bs_groups s) then Some (Inl AddressInUse, s)
      else let token = \<lparr>bt_id = next_token s, bt_port = br_port request\<rparr> in
        case checked_add (next_token s) 1 of
          None \<Rightarrow> None
        | Some n \<Rightarrow> Some (Inr token, s\<lparr>next_token := n,
            bs_groups := group_push (request_key request) \<lparr>bd_token = token, bd_request = request\<rparr> (bs_groups s)\<rparr>))"

definition reserve :: "bind_state \<Rightarrow> bind_request \<Rightarrow> ((bind_error + bind_token) \<times> bind_state) option" where
  "reserve s request =
     (if \<not> address_matches_family (br_family request) (br_address request) \<or> br_port request = 0
      then Some (Inl InvalidAddress, s)
      else reserve_locked s request)"

text \<open>The search: \<open>n\<close> attempts are left.\<close>

fun search_port ::
  "nat \<Rightarrow> bind_state \<Rightarrow> bind_request \<Rightarrow> nat \<Rightarrow> nat \<Rightarrow> nat \<Rightarrow> ((bind_error + bind_token) \<times> bind_state) option" where
  "search_port 0 s request shard_index cursor stride = Some (Inl NoPorts, s)"
| "search_port (Suc n) s request shard_index cursor stride =
     (case reserve_locked s (request\<lparr>br_port := EPHEMERAL_START + cursor\<rparr>) of
        None \<Rightarrow> None
      | Some (Inr token, s') \<Rightarrow>
          Some (Inr token, s'\<lparr>cursors := (cursors s')[shard_index := ((cursor + stride) mod 65536) mod EPHEMERAL_COUNT]\<rparr>)
      | Some (Inl _, s') \<Rightarrow>
          search_port n s' request shard_index (((cursor + stride) mod 65536) mod EPHEMERAL_COUNT) stride)"

definition reserve_ephemeral ::
  "bind_state \<Rightarrow> bind_request \<Rightarrow> nat \<Rightarrow> ((bind_error + bind_token) \<times> bind_state) option" where
  "reserve_ephemeral s request shard =
     (if \<not> address_matches_family (br_family request) (br_address request) \<or> br_port request \<noteq> 0
      then Some (Inl InvalidAddress, s)
      else let shard_index = shard mod length (cursors s) in
        search_port EPHEMERAL_COUNT s request shard_index (cursors s ! shard_index) (strides s ! shard_index))"

definition release :: "bind_state \<Rightarrow> bind_token \<Rightarrow> (bind_error + unit) \<times> bind_state" where
  "release s token =
     (case List.find (\<lambda>(k, g). list_ex (\<lambda>e. bd_token e = token) g) (bs_groups s) of
        None \<Rightarrow> (Inl UnknownReservation, s)
      | Some (key, _) \<Rightarrow>
          (Inr (), s\<lparr>bs_groups :=
             filter (\<lambda>(k, g). \<not> (k = key \<and> g = []))
               (map (\<lambda>(k, g). if k = key then (k, filter (\<lambda>e. bd_token e \<noteq> token) g) else (k, g)) (bs_groups s))\<rparr>))"

end
