(* ===== verification/BindProps.thy ===== *)
theory BindProps
  imports BindRegistry
begin

text \<open>
  The port registry: whatever was reserved and released, no two bindings conflict, and the search for
  an ephemeral port fails only when every port of the range is taken.
\<close>

section \<open>Bindings and conflicts\<close>

definition bindings :: "bind_state \<Rightarrow> binding set" where
  "bindings s = (\<Union>(k, g)\<in>set (bs_groups s). set g)"

text \<open>
  Two bindings conflict when they want the same port of the same protocol on overlapping interfaces, in
  the same family or with a dual-stack wildcard on one side, for overlapping addresses, and at least
  one of them did not agree to share.
\<close>

definition clashes :: "binding \<Rightarrow> binding \<Rightarrow> bool" where
  "clashes a b \<longleftrightarrow> a \<noteq> b \<and> (let p = bd_request a; q = bd_request b in
     br_protocol p = br_protocol q \<and> br_port p = br_port q \<and> interface_overlaps (br_interface p) (br_interface q) \<and>
     (br_family p = br_family q \<or> cross_family_wildcard p \<or> cross_family_wildcard q) \<and>
     address_overlaps (br_address p) (br_address q) \<and> \<not> can_share p q)"

definition groups_ok :: "nat \<Rightarrow> bind_groups \<Rightarrow> bool" where
  "groups_ok n gs \<longleftrightarrow> (\<forall>(k, g)\<in>set gs. \<forall>b\<in>set g. request_key (bd_request b) = k \<and> bt_id (bd_token b) < n)"

definition cursors_ok :: "bind_state \<Rightarrow> bool" where
  "cursors_ok s \<longleftrightarrow> cursors s \<noteq> [] \<and> length (cursors s) = length (strides s) \<and>
     (\<forall>c\<in>set (cursors s). c < EPHEMERAL_COUNT) \<and> (\<forall>d\<in>set (strides s). odd d)"

definition bind_wf :: "bind_state \<Rightarrow> bool" where
  "bind_wf s \<longleftrightarrow> groups_ok (next_token s) (bs_groups s) \<and> inj_on (\<lambda>b. bt_id (bd_token b)) (bindings s) \<and> cursors_ok s"

lemma overlaps_sym:
  "interface_overlaps i j = interface_overlaps j i" "address_overlaps x y = address_overlaps y x" "can_share p q = can_share q p"
  by (auto simp: interface_overlaps_def address_overlaps_def can_share_def)

lemma clashes_sym: "clashes a b \<longleftrightarrow> clashes b a"
  unfolding clashes_def Let_def
  using overlaps_sym(1) [of "br_interface (bd_request a)"] overlaps_sym(2) [of "br_address (bd_request a)"]
    overlaps_sym(3) [of "bd_request a"] by metis

lemma group_push_bindings: "(\<Union>(k, g)\<in>set (group_push key b gs). set g) = insert b (\<Union>(k, g)\<in>set gs. set g)"
  by (induction key b gs rule: group_push.induct) auto

lemma groups_ok_push:
  "groups_ok n gs \<Longrightarrow> bt_id (bd_token b) = n \<Longrightarrow> request_key (bd_request b) = key \<Longrightarrow> groups_ok (n + 1) (group_push key b gs)"
proof (induction key b gs rule: group_push.induct)
  case (1 key b)
  then show ?case by (simp add: groups_ok_def)
next
  case (2 key b k g gs)
  have tail: "groups_ok n gs" and hd: "\<forall>x\<in>set g. request_key (bd_request x) = k \<and> bt_id (bd_token x) < n + 1"
    using "2.prems"(1) by (auto simp: groups_ok_def)
  have tail': "groups_ok (n + 1) gs" using tail by (fastforce simp: groups_ok_def)
  show ?case using "2.IH" tail tail' hd "2.prems"(2,3) by (auto simp: groups_ok_def)
qed

text \<open>The scan of the groups finds every conflict with a binding present.\<close>

definition port_taken :: "bind_state \<Rightarrow> bind_request \<Rightarrow> bool" where
  "port_taken s request = list_ex (group_conflicts request) (bs_groups s)"

lemma not_taken_no_clash:
  assumes "groups_ok n (bs_groups s)" "\<not> port_taken s (bd_request b)" "a \<in> bindings s"
  shows "\<not> clashes a b"
proof -
  obtain k g where kg: "(k, g) \<in> set (bs_groups s)" "a \<in> set g" using assms(3) by (auto simp: bindings_def)
  then have "request_key (bd_request a) = k" using assms(1) by (auto simp: groups_ok_def)
  then have k: "k = BindKey (br_family (bd_request a)) (br_protocol (bd_request a)) (br_port (bd_request a)) (br_interface (bd_request a))"
    by (simp add: request_key_def)
  have "\<not> group_conflicts (bd_request b) (k, g)" using assms(2) kg(1) by (auto simp: port_taken_def list_ex_iff)
  then show ?thesis using kg(2) unfolding k
    by (auto simp: group_conflicts_def clashes_def Let_def family_overlaps_def request_key_def list_ex_iff split: if_splits)
qed

lemma reserve_locked_cases:
  obtains (taken) "port_taken s r" "reserve_locked s r = Some (Inl AddressInUse, s)"
  | (panic) "\<not> port_taken s r" "U64_MAX \<le> next_token s" "reserve_locked s r = None"
  | (ok) "\<not> port_taken s r" "next_token s < U64_MAX"
      "reserve_locked s r = Some (Inr \<lparr>bt_id = next_token s, bt_port = br_port r\<rparr>,
         s\<lparr>next_token := next_token s + 1, bs_groups := group_push (request_key r)
            \<lparr>bd_token = \<lparr>bt_id = next_token s, bt_port = br_port r\<rparr>, bd_request = r\<rparr> (bs_groups s)\<rparr>)"
  by (cases "port_taken s r"; cases "next_token s < U64_MAX")
    (auto simp: reserve_locked_def port_taken_def checked_add_def Let_def)

lemma reserve_locked_ok:
  assumes wf: "bind_wf s" and res: "reserve_locked s r = Some (Inr token, s')"
  shows "bind_wf s' \<and> bt_port token = br_port r \<and> (compatible_table clashes (bindings s) \<longrightarrow> compatible_table clashes (bindings s'))"
proof (cases rule: reserve_locked_cases [of s r])
  case ok
  let ?b = "\<lparr>bd_token = token, bd_request = r\<rparr>"
  have s': "bs_groups s' = group_push (request_key r) ?b (bs_groups s)" "next_token s' = next_token s + 1"
    "cursors s' = cursors s" "strides s' = strides s" and tok: "bt_id token = next_token s" "bt_port token = br_port r"
    using ok(3) res by auto
  have b: "bindings s' = insert ?b (bindings s)" unfolding bindings_def s'(1) by (rule group_push_bindings)
  have g: "groups_ok (next_token s) (bs_groups s)" using wf by (simp add: bind_wf_def)
  have lt: "bt_id (bd_token x) < next_token s" if "x \<in> bindings s" for x
    using g that by (auto simp: groups_ok_def bindings_def)
  have "groups_ok (next_token s + 1) (bs_groups s')" unfolding s'(1) by (rule groups_ok_push [OF g]) (simp_all add: tok)
  moreover have "inj_on (\<lambda>b. bt_id (bd_token b)) (bindings s')"
    unfolding b using wf lt tok(1) by (fastforce simp: bind_wf_def inj_on_def)
  ultimately have wf': "bind_wf s'" using wf s' by (simp add: bind_wf_def cursors_ok_def)
  have "\<not> clashes x ?b \<and> \<not> clashes ?b x" if "x \<in> bindings s" for x
    using not_taken_no_clash [OF g, of ?b x] ok(1) that clashes_sym by simp
  moreover have "\<not> clashes ?b ?b" by (simp add: clashes_def)
  ultimately have "compatible_table clashes (bindings s) \<longrightarrow> compatible_table clashes (bindings s')"
    unfolding compatible_table_def b by blast
  with wf' tok(2) show ?thesis by blast
qed (use res in simp_all)

section \<open>The ephemeral search\<close>

definition orbit :: "nat \<Rightarrow> nat \<Rightarrow> nat \<Rightarrow> nat" where
  "orbit c d k = (c + k * d) mod EPHEMERAL_COUNT"

lemma orbit_step: "orbit (((c + d) mod 65536) mod EPHEMERAL_COUNT) d k = orbit c d (Suc k)"
proof -
  have "((c + d) mod 65536) mod EPHEMERAL_COUNT = (c + d) mod EPHEMERAL_COUNT"
    by (simp add: EPHEMERAL_COUNT_def mod_mod_cancel)
  then show ?thesis by (simp add: orbit_def mod_add_left_eq add.assoc)
qed

lemma cursor_bound: "x mod EPHEMERAL_COUNT < EPHEMERAL_COUNT"
  by (simp add: EPHEMERAL_COUNT_def)

lemma orbit_0: "c < EPHEMERAL_COUNT \<Longrightarrow> orbit c d 0 = c"
  by (simp add: orbit_def)

lemma orbit_inj_le:
  assumes "odd d" "k \<le> l" "l < EPHEMERAL_COUNT" "orbit c d k = orbit c d l"
  shows "k = l"
proof -
  have "EPHEMERAL_COUNT dvd (c + l * d) - (c + k * d)"
    using assms(2,4) mod_eq_dvd_iff_nat [of "c + k * d" "c + l * d" EPHEMERAL_COUNT] by (simp add: orbit_def)
  then have "EPHEMERAL_COUNT dvd (l - k) * d" by (simp add: diff_mult_distrib)
  moreover have "coprime EPHEMERAL_COUNT d"
  proof -
    have n: "EPHEMERAL_COUNT = 2 ^ 14" by (simp add: EPHEMERAL_COUNT_def)
    show ?thesis unfolding n using assms(1) by (simp only: coprime_power_left_iff coprime_left_2_iff_odd) simp
  qed
  ultimately have "EPHEMERAL_COUNT dvd l - k" by (simp add: coprime_dvd_mult_left_iff)
  then have "l - k = 0" using assms(3) by (meson dvd_imp_le le_less_trans diff_le_self not_less neq0_conv)
  then show ?thesis using assms(2) by simp
qed

lemma orbit_inj:
  "odd d \<Longrightarrow> k < EPHEMERAL_COUNT \<Longrightarrow> l < EPHEMERAL_COUNT \<Longrightarrow> orbit c d k = orbit c d l \<Longrightarrow> k = l"
  by (metis orbit_inj_le nat_le_linear)

lemma orbit_surj:
  assumes "odd d" "p < EPHEMERAL_COUNT"
  shows "\<exists>k<EPHEMERAL_COUNT. orbit c d k = p"
proof -
  have "inj_on (orbit c d) {..<EPHEMERAL_COUNT}" using orbit_inj [OF assms(1)] by (auto simp: inj_on_def)
  moreover have "orbit c d ` {..<EPHEMERAL_COUNT} \<subseteq> {..<EPHEMERAL_COUNT}" by (auto simp: orbit_def EPHEMERAL_COUNT_def)
  ultimately have "orbit c d ` {..<EPHEMERAL_COUNT} = {..<EPHEMERAL_COUNT}" by (intro endo_inj_surj) simp_all
  then show ?thesis using assms(2) by (metis (no_types, lifting) imageE lessThan_iff)
qed

lemma search_all_taken:
  "\<forall>k<n. port_taken s (r\<lparr>br_port := EPHEMERAL_START + orbit c d k\<rparr>) \<Longrightarrow> c < EPHEMERAL_COUNT \<Longrightarrow>
     search_port n s r i c d = Some (Inl NoPorts, s)"
proof (induction n arbitrary: c)
  case (Suc n)
  let ?c = "((c + d) mod 65536) mod EPHEMERAL_COUNT"
  have "port_taken s (r\<lparr>br_port := EPHEMERAL_START + c\<rparr>)" using Suc.prems orbit_0 by force
  then have "reserve_locked s (r\<lparr>br_port := EPHEMERAL_START + c\<rparr>) = Some (Inl AddressInUse, s)"
    by (cases rule: reserve_locked_cases [of s "r\<lparr>br_port := EPHEMERAL_START + c\<rparr>"]) simp_all
  moreover have "search_port n s r i ?c d = Some (Inl NoPorts, s)"
    using Suc.prems(1) by (intro Suc.IH) (simp_all add: orbit_step cursor_bound)
  ultimately show ?case by simp
qed simp

lemma search_finds:
  assumes "next_token s < U64_MAX"
  shows "k < n \<Longrightarrow> \<not> port_taken s (r\<lparr>br_port := EPHEMERAL_START + orbit c d k\<rparr>) \<Longrightarrow> c < EPHEMERAL_COUNT \<Longrightarrow>
     \<exists>j token s'. j < n \<and> \<not> port_taken s (r\<lparr>br_port := EPHEMERAL_START + orbit c d j\<rparr>) \<and>
       bt_port token = EPHEMERAL_START + orbit c d j \<and> search_port n s r i c d = Some (Inr token, s')"
proof (induction n arbitrary: c k)
  case (Suc n)
  let ?c = "((c + d) mod 65536) mod EPHEMERAL_COUNT" and ?r = "r\<lparr>br_port := EPHEMERAL_START + c\<rparr>"
  show ?case
  proof (cases rule: reserve_locked_cases [of s ?r])
    case taken
    then have "k \<noteq> 0" using Suc.prems(2,3) orbit_0 by metis
    then obtain k' where k: "k = Suc k'" by (cases k) auto
    have "\<exists>j token s'. j < n \<and> \<not> port_taken s (r\<lparr>br_port := EPHEMERAL_START + orbit ?c d j\<rparr>) \<and>
       bt_port token = EPHEMERAL_START + orbit ?c d j \<and> search_port n s r i ?c d = Some (Inr token, s')"
      using Suc.prems k by (intro Suc.IH [of k']) (simp_all add: orbit_step cursor_bound)
    then obtain j token s' where "j < n" "\<not> port_taken s (r\<lparr>br_port := EPHEMERAL_START + orbit c d (Suc j)\<rparr>)"
       "bt_port token = EPHEMERAL_START + orbit c d (Suc j)" "search_port n s r i ?c d = Some (Inr token, s')"
      unfolding orbit_step by blast
    with taken(2) show ?thesis by (intro exI [of _ "Suc j"] exI [of _ token] exI [of _ s']) simp
  next
    case panic
    then show ?thesis using assms by simp
  next
    case ok
    then show ?thesis using orbit_0 [OF Suc.prems(3), of d] by (intro exI [of _ 0]) simp
  qed
qed simp

lemma search_success:
  "search_port n s r i c d = Some (Inr token, s') \<Longrightarrow> c < EPHEMERAL_COUNT \<Longrightarrow>
     \<exists>p s'' c'. reserve_locked s (r\<lparr>br_port := p\<rparr>) = Some (Inr token, s'') \<and> s' = s''\<lparr>cursors := (cursors s'')[i := c']\<rparr> \<and> c' < EPHEMERAL_COUNT"
proof (induction n arbitrary: c)
  case (Suc n)
  let ?c = "((c + d) mod 65536) mod EPHEMERAL_COUNT" and ?r = "r\<lparr>br_port := EPHEMERAL_START + c\<rparr>"
  have lt: "?c < EPHEMERAL_COUNT" by (rule cursor_bound)
  show ?case
  proof (cases rule: reserve_locked_cases [of s ?r])
    case taken
    then show ?thesis using Suc.prems(1) Suc.IH [OF _ lt] by simp
  next
    case ok
    then obtain tk s'' where r: "reserve_locked s ?r = Some (Inr tk, s'')" by blast
    with Suc.prems(1) have "tk = token" "s' = s''\<lparr>cursors := (cursors s'')[i := ?c]\<rparr>" by simp_all
    with r lt show ?thesis by blast
  qed (use Suc.prems in simp)
qed simp

section \<open>The registry as an admission table\<close>

datatype bind_cmd = BindFixed bind_request | BindEphemeral bind_request nat

definition bind_admit :: "bind_state \<Rightarrow> bind_cmd \<Rightarrow> bind_state option" where
  "bind_admit s cmd =
     (case (case cmd of BindFixed r \<Rightarrow> reserve s r | BindEphemeral r shard \<Rightarrow> reserve_ephemeral s r shard) of
        Some (Inr token, s') \<Rightarrow> Some s' | _ \<Rightarrow> None)"

definition bind_retire :: "bind_state \<Rightarrow> bind_token \<Rightarrow> bind_state" where
  "bind_retire s token = snd (release s token)"

lemma bind_wf_cursors: "bind_wf s \<Longrightarrow> c < EPHEMERAL_COUNT \<Longrightarrow> bind_wf (s\<lparr>cursors := (cursors s)[i := c]\<rparr>)"
  using set_update_subset_insert [of "cursors s" i c]
  by (auto simp: bind_wf_def cursors_ok_def bindings_def)

lemma cursor_in_range: "bind_wf s \<Longrightarrow> cursors s ! (shard mod length (cursors s)) < EPHEMERAL_COUNT"
  unfolding bind_wf_def cursors_ok_def by (metis length_greater_0_conv mod_less_divisor nth_mem)

lemma bind_admit_ok:
  assumes wf: "bind_wf s" and ad: "bind_admit s cmd = Some s'"
  shows "bind_wf s' \<and> (compatible_table clashes (bindings s) \<longrightarrow> compatible_table clashes (bindings s'))"
proof (cases cmd)
  case (BindFixed r)
  then obtain token where "reserve_locked s r = Some (Inr token, s')"
    using ad by (auto simp: bind_admit_def reserve_def split: option.splits sum.splits if_splits)
  from reserve_locked_ok [OF wf this] show ?thesis by blast
next
  case (BindEphemeral r shard)
  let ?i = "shard mod length (cursors s)"
  obtain token where "search_port EPHEMERAL_COUNT s r ?i (cursors s ! ?i) (strides s ! ?i) = Some (Inr token, s')"
    using ad BindEphemeral by (auto simp: bind_admit_def reserve_ephemeral_def Let_def split: option.splits sum.splits if_splits)
  from search_success [OF this cursor_in_range [OF wf]] obtain p s'' c' where
    r: "reserve_locked s (r\<lparr>br_port := p\<rparr>) = Some (Inr token, s'')" and s': "s' = s''\<lparr>cursors := (cursors s'')[?i := c']\<rparr>"
      "c' < EPHEMERAL_COUNT" by blast
  have "bindings s' = bindings s''" by (simp add: s'(1) bindings_def)
  then show ?thesis using reserve_locked_ok [OF wf r] bind_wf_cursors [OF _ s'(2)] s'(1) by simp
qed

lemma release_bindings: "bindings (bind_retire s token) \<subseteq> bindings s"
  by (auto simp: bind_retire_def release_def bindings_def split: option.splits if_splits)

lemma release_wf: "bind_wf s \<Longrightarrow> bind_wf (bind_retire s token)"
proof -
  assume wf: "bind_wf s"
  have "inj_on (\<lambda>b. bt_id (bd_token b)) (bindings (bind_retire s token))"
    using wf unfolding bind_wf_def by (elim conjE) (rule inj_on_subset [OF _ release_bindings])
  moreover have "groups_ok (next_token s) (bs_groups (bind_retire s token))"
    using wf by (auto simp: bind_wf_def bind_retire_def release_def groups_ok_def split: option.splits if_splits)
  moreover have "next_token (bind_retire s token) = next_token s \<and> cursors (bind_retire s token) = cursors s \<and>
      strides (bind_retire s token) = strides s"
    by (simp add: bind_retire_def release_def split: option.splits)
  ultimately show ?thesis using wf by (simp add: bind_wf_def cursors_ok_def)
qed

interpretation bind: admission_table bindings clashes bind_admit bind_retire bind_wf
  using bind_admit_ok release_wf release_bindings by unfold_locales blast+

lemma odd_or_one: "odd (unat (w OR (1 :: 16 word)))"
proof -
  have "bit (unat (w OR (1 :: 16 word))) 0" unfolding bit_unsigned_iff by (simp add: bit_simps)
  then show ?thesis unfolding bit_0 .
qed

lemma registry_new_ok: "bind_wf (registry_new shards seed)" "bindings (registry_new shards seed) = {}"
  by (auto simp: bind_wf_def groups_ok_def cursors_ok_def registry_new_def Let_def bindings_def cursor_bound odd_or_one max_def)

section \<open>Properties\<close>

definition example_request :: bind_request where
  "example_request = \<lparr>br_owner = 1, br_family = Ipv4, br_protocol = Tcp, br_address = AnyAddress, br_port = 0, br_interface = None,
     br_options = \<lparr>reuse_address = False, reuse_port = False, v6_only = False, multicast_or_broadcast = False, free_bind = False\<rparr>\<rparr>"

text \<open>
  C38. Ports are never shared against the rules: after any sequence of fixed and ephemeral reservations
  and releases on a new registry no two bindings conflict, that is, none want the same port of the same
  protocol on overlapping interfaces, families and addresses unless both agreed to share it, and every
  binding has a token of its own.
\<close>

theorem bind_no_conflicts:
  "compatible_table clashes (bindings (table_run bind_admit bind_retire (registry_new shards seed) cmds)) \<and>
   inj_on (\<lambda>b. bt_id (bd_token b)) (bindings (table_run bind_admit bind_retire (registry_new shards seed) cmds))"
proof -
  have "compatible_table clashes (bindings (registry_new shards seed))" by (simp add: registry_new_ok compatible_table_def)
  from bind.run_compatible [OF registry_new_ok(1) this, of cmds] show ?thesis by (simp add: bind_wf_def)
qed

text \<open>
  C39. The ephemeral search is complete: on every registry that a run produces, with tokens left and a
  well-formed request for port 0, it returns a free port of the range 49152 to 65535 whenever there is
  one, and otherwise it reports that there is none and leaves the registry as it was.
\<close>

theorem ephemeral_search_complete:
  assumes "s = table_run bind_admit bind_retire (registry_new shards seed) cmds" "next_token s < U64_MAX"
    and "address_matches_family (br_family r) (br_address r)" "br_port r = 0"
  shows "if \<exists>p\<in>{49152..65535}. \<not> port_taken s (r\<lparr>br_port := p\<rparr>)
    then \<exists>token s'. reserve_ephemeral s r shard = Some (Inr token, s') \<and> bt_port token \<in> {49152..65535} \<and>
           \<not> port_taken s (r\<lparr>br_port := bt_port token\<rparr>)
    else reserve_ephemeral s r shard = Some (Inl NoPorts, s)"
proof -
  have "compatible_table clashes (bindings (registry_new shards seed))" by (simp add: registry_new_ok compatible_table_def)
  then have wf: "bind_wf s" using bind.run_compatible [OF registry_new_ok(1), of shards seed cmds] assms(1) by simp
  let ?i = "shard mod length (cursors s)"
  let ?c = "cursors s ! ?i" and ?d = "strides s ! ?i"
  have c: "?c < EPHEMERAL_COUNT" by (rule cursor_in_range [OF wf])
  have d: "odd ?d" using wf unfolding bind_wf_def cursors_ok_def by (metis length_greater_0_conv mod_less_divisor nth_mem)
  have eph: "reserve_ephemeral s r shard = search_port EPHEMERAL_COUNT s r ?i ?c ?d"
    using assms(3,4) by (simp add: reserve_ephemeral_def Let_def)
  have range: "EPHEMERAL_START + orbit ?c ?d k \<in> {49152..65535}" for k
    using cursor_bound [of "?c + k * ?d"] by (simp add: orbit_def EPHEMERAL_START_def EPHEMERAL_COUNT_def)
  show ?thesis
  proof (cases "\<exists>p\<in>{49152..65535}. \<not> port_taken s (r\<lparr>br_port := p\<rparr>)")
    case True
    then obtain p where p: "p \<in> {49152..65535}" "\<not> port_taken s (r\<lparr>br_port := p\<rparr>)" by blast
    then have "p - EPHEMERAL_START < EPHEMERAL_COUNT" by (auto simp: EPHEMERAL_START_def EPHEMERAL_COUNT_def)
    then obtain k where k: "k < EPHEMERAL_COUNT" "orbit ?c ?d k = p - EPHEMERAL_START" using orbit_surj [OF d] by blast
    have "EPHEMERAL_START + orbit ?c ?d k = p" using k(2) p(1) by (simp add: EPHEMERAL_START_def)
    with search_finds [OF assms(2) k(1), where r = r and c = ?c and d = ?d and i = ?i] p(2) c obtain j token s' where
      "\<not> port_taken s (r\<lparr>br_port := EPHEMERAL_START + orbit ?c ?d j\<rparr>)" "bt_port token = EPHEMERAL_START + orbit ?c ?d j"
      "search_port EPHEMERAL_COUNT s r ?i ?c ?d = Some (Inr token, s')" by metis
    with range [of j] True eph show ?thesis by (simp only: if_True) metis
  next
    case False
    then have "\<forall>k<EPHEMERAL_COUNT. port_taken s (r\<lparr>br_port := EPHEMERAL_START + orbit ?c ?d k\<rparr>)" using range by blast
    from search_all_taken [OF this c] False eph show ?thesis by (simp only: if_False)
  qed
qed

theorem ephemeral_search_complete_witness:
  "\<exists>token s'. reserve_ephemeral (registry_new 1 (replicate 16 7)) example_request 3 = Some (Inr token, s') \<and>
    bt_port token \<in> {49152..65535}"
proof -
  let ?s = "registry_new 1 (replicate 16 7)"
  have free: "\<not> port_taken ?s q" for q by (simp add: port_taken_def registry_new_def Let_def)
  have "next_token ?s < U64_MAX" by (simp add: registry_new_def Let_def)
  moreover have "?s = table_run bind_admit bind_retire ?s []" by simp
  moreover have "address_matches_family (br_family example_request) (br_address example_request)" "br_port example_request = 0"
    by (simp_all add: example_request_def address_matches_family_def)
  moreover have "\<exists>p\<in>{49152..65535}. \<not> port_taken ?s (example_request\<lparr>br_port := p\<rparr>)" using free by (intro bexI [of _ 49152]) simp_all
  ultimately show ?thesis using ephemeral_search_complete [of ?s 1 "replicate 16 7" "[]" example_request 3] by (simp only: if_True) blast
qed

end
