(* ===== verification/TimerWheel.thy ===== *)
theory TimerWheel
  imports Prelude
begin

text \<open>
  The timer wheel of a network shard: \<open>libs/net/src/flow/timer.rs\<close>. Four levels of 256 slots hold doubly linked
  lists threaded through one node per owner. The fixed-size arrays are functions of their indices, the node vector
  is a list. Reading a 64-bit number by shift and mask is division and remainder. A loop over a list follows the
  next pointers as the source does and takes as fuel the number of nodes; the result \<open>None\<close> stands for fuel
  that ran out, and does not occur in a reachable wheel; \<open>None\<close> of \<open>wheel_new\<close> is its failed assertion.
\<close>

section \<open>State\<close>

definition LEVELS :: nat where "LEVELS = 4"
definition SLOTS :: nat where "SLOTS = 256"

record timer_expiry =
  te_owner :: nat
  te_generation :: nat
  te_deadline_ms :: nat

record timer_node =
  tn_active :: bool
  tn_level :: nat
  tn_slot :: nat
  tn_previous :: "nat option"
  tn_next :: "nat option"
  tn_deadline_ms :: nat
  tn_generation :: nat

definition node_empty :: timer_node where
  "node_empty =
     \<lparr>tn_active = False, tn_level = 0, tn_slot = 0, tn_previous = None, tn_next = None, tn_deadline_ms = 0,
      tn_generation = 0\<rparr>"

record timer_wheel =
  tw_now_ms :: nat
  tw_heads :: "nat \<Rightarrow> nat \<Rightarrow> nat option"
  tw_slot_deadlines :: "nat \<Rightarrow> nat \<Rightarrow> nat"
  tw_level_deadlines :: "nat \<Rightarrow> nat"
  tw_earliest_deadline_ms :: "nat option"
  tw_nodes :: "timer_node list"

definition wheel_new :: "nat \<Rightarrow> nat \<Rightarrow> timer_wheel option" where
  "wheel_new owner_capacity now_ms =
     (if 65535 < owner_capacity then None
      else Some
       \<lparr>tw_now_ms = now_ms, tw_heads = \<lambda>_ _. None, tw_slot_deadlines = \<lambda>_ _. U64_MAX,
        tw_level_deadlines = \<lambda>_. U64_MAX, tw_earliest_deadline_ms = None,
        tw_nodes = replicate owner_capacity node_empty\<rparr>)"

definition upd2 :: "(nat \<Rightarrow> nat \<Rightarrow> 'a) \<Rightarrow> nat \<Rightarrow> nat \<Rightarrow> 'a \<Rightarrow> nat \<Rightarrow> nat \<Rightarrow> 'a" where
  "upd2 f l s v = f(l := (f l)(s := v))"

definition next_deadline_ns :: "timer_wheel \<Rightarrow> nat option" where
  "next_deadline_ns w = map_option (\<lambda>deadline. saturating_mul deadline 1000000) (tw_earliest_deadline_ms w)"

section \<open>The deadline caches\<close>

text \<open>The minimum of an iterator, or the given value for an empty one.\<close>

fun iter_min_or :: "nat \<Rightarrow> nat list \<Rightarrow> nat" where
  "iter_min_or d [] = d"
| "iter_min_or d (x # xs) = foldl min x xs"

definition refresh_level_deadline :: "nat \<Rightarrow> timer_wheel \<Rightarrow> timer_wheel" where
  "refresh_level_deadline l w =
     w\<lparr>tw_level_deadlines :=
       (tw_level_deadlines w)(l := iter_min_or U64_MAX (map (tw_slot_deadlines w l) [0..<SLOTS]))\<rparr>"

definition refresh_earliest :: "timer_wheel \<Rightarrow> timer_wheel" where
  "refresh_earliest w =
     (let deadline = iter_min_or U64_MAX (map (tw_level_deadlines w) [0..<LEVELS])
      in w\<lparr>tw_earliest_deadline_ms := (if deadline \<noteq> U64_MAX then Some deadline else None)\<rparr>)"

fun min_deadline_loop :: "nat \<Rightarrow> timer_node list \<Rightarrow> nat \<Rightarrow> nat option \<Rightarrow> nat option" where
  "min_deadline_loop n ns deadline None = Some deadline"
| "min_deadline_loop 0 ns deadline (Some owner) = None"
| "min_deadline_loop (Suc n) ns deadline (Some owner) =
     min_deadline_loop n ns (min deadline (tn_deadline_ms (ns ! owner))) (tn_next (ns ! owner))"

definition refresh_slot_deadline :: "nat \<Rightarrow> nat \<Rightarrow> timer_wheel \<Rightarrow> timer_wheel option" where
  "refresh_slot_deadline l s w =
     (let previous_deadline = tw_slot_deadlines w l s in
      case min_deadline_loop (length (tw_nodes w)) (tw_nodes w) U64_MAX (tw_heads w l s) of
        None \<Rightarrow> None
      | Some deadline \<Rightarrow>
          let w1 = w\<lparr>tw_slot_deadlines := upd2 (tw_slot_deadlines w) l s deadline\<rparr>
          in Some (if tw_level_deadlines w1 l = previous_deadline then refresh_level_deadline l w1 else w1))"

section \<open>Linking and unlinking\<close>

definition insert_level :: "nat \<Rightarrow> nat" where
  "insert_level delta = (if delta < 2 ^ 8 then 0 else if delta < 2 ^ 16 then 1 else if delta < 2 ^ 24 then 2 else 3)"

definition wheel_insert :: "timer_wheel \<Rightarrow> nat \<Rightarrow> nat \<Rightarrow> nat \<Rightarrow> timer_wheel" where
  "wheel_insert w owner generation deadline_ms =
     (let delta = saturating_sub deadline_ms (tw_now_ms w);
          l = insert_level delta;
          s = deadline_ms div 2 ^ (l * 8) mod 256;
          head = tw_heads w l s;
          ns1 = (tw_nodes w)[owner :=
            \<lparr>tn_active = True, tn_level = l, tn_slot = s, tn_previous = None, tn_next = head,
             tn_deadline_ms = deadline_ms, tn_generation = generation\<rparr>];
          ns2 = (case head of Some h \<Rightarrow> ns1[h := (ns1 ! h)\<lparr>tn_previous := Some owner\<rparr>] | None \<Rightarrow> ns1)
      in w\<lparr>tw_nodes := ns2,
           tw_heads := upd2 (tw_heads w) l s (Some owner),
           tw_slot_deadlines := upd2 (tw_slot_deadlines w) l s (min (tw_slot_deadlines w l s) deadline_ms),
           tw_level_deadlines := (tw_level_deadlines w)(l := min (tw_level_deadlines w l) deadline_ms),
           tw_earliest_deadline_ms :=
             Some (case tw_earliest_deadline_ms w of None \<Rightarrow> deadline_ms | Some earliest \<Rightarrow> min earliest deadline_ms)\<rparr>)"

definition wheel_unlink :: "timer_wheel \<Rightarrow> timer_node \<Rightarrow> timer_wheel" where
  "wheel_unlink w node =
     (let w1 = (case tn_previous node of
                  Some previous \<Rightarrow>
                    w\<lparr>tw_nodes := (tw_nodes w)[previous := (tw_nodes w ! previous)\<lparr>tn_next := tn_next node\<rparr>]\<rparr>
                | None \<Rightarrow> w\<lparr>tw_heads := upd2 (tw_heads w) (tn_level node) (tn_slot node) (tn_next node)\<rparr>)
      in case tn_next node of
           Some nxt \<Rightarrow>
             w1\<lparr>tw_nodes := (tw_nodes w1)[nxt := (tw_nodes w1 ! nxt)\<lparr>tn_previous := tn_previous node\<rparr>]\<rparr>
         | None \<Rightarrow> w1)"

definition wheel_detach :: "timer_wheel \<Rightarrow> nat \<Rightarrow> timer_wheel option" where
  "wheel_detach w owner =
     (let node = tw_nodes w ! owner;
          w1 = wheel_unlink w node
      in case (if tw_slot_deadlines w1 (tn_level node) (tn_slot node) = tn_deadline_ms node
               then refresh_slot_deadline (tn_level node) (tn_slot node) w1 else Some w1) of
           None \<Rightarrow> None
         | Some w2 \<Rightarrow>
             Some (if tw_earliest_deadline_ms w2 = Some (tn_deadline_ms node) then refresh_earliest w2 else w2))"

section \<open>The operations\<close>

definition wheel_cancel :: "timer_wheel \<Rightarrow> nat \<Rightarrow> (timer_wheel \<times> bool) option" where
  "wheel_cancel w owner =
     (if length (tw_nodes w) \<le> owner \<or> \<not> tn_active (tw_nodes w ! owner) then Some (w, False)
      else case wheel_detach w owner of
        None \<Rightarrow> None
      | Some w1 \<Rightarrow> Some (w1\<lparr>tw_nodes := (tw_nodes w1)[owner := node_empty]\<rparr>, True))"

definition schedule_deadline :: "nat \<Rightarrow> nat \<Rightarrow> nat" where
  "schedule_deadline now_ms deadline_ns =
     (let deadline_ms = saturating_add deadline_ns 999999 div 1000000
      in min (max deadline_ms (saturating_add now_ms 1)) (saturating_add now_ms U32_MAX))"

definition wheel_schedule :: "timer_wheel \<Rightarrow> nat \<Rightarrow> nat \<Rightarrow> nat \<Rightarrow> (timer_wheel \<times> bool) option" where
  "wheel_schedule w owner generation deadline_ns =
     (if length (tw_nodes w) \<le> owner \<or> generation = 0 then Some (w, False)
      else case wheel_cancel w owner of
        None \<Rightarrow> None
      | Some (w1, _) \<Rightarrow> Some (wheel_insert w1 owner generation (schedule_deadline (tw_now_ms w1) deadline_ns), True))"

text \<open>Taking the list of a slot, with the caches adjusted.\<close>

definition take_slot :: "nat \<Rightarrow> nat \<Rightarrow> timer_wheel \<Rightarrow> timer_wheel \<times> nat option" where
  "take_slot l s w =
     (let current = tw_heads w l s;
          previous_deadline = tw_slot_deadlines w l s;
          w1 = w\<lparr>tw_heads := upd2 (tw_heads w) l s None,
                 tw_slot_deadlines := upd2 (tw_slot_deadlines w) l s U64_MAX\<rparr>
      in (if tw_level_deadlines w1 l = previous_deadline then refresh_level_deadline l w1 else w1, current))"

fun cascade_loop :: "nat \<Rightarrow> timer_wheel \<Rightarrow> nat option \<Rightarrow> timer_wheel option" where
  "cascade_loop n w None = Some w"
| "cascade_loop 0 w (Some owner) = None"
| "cascade_loop (Suc n) w (Some owner) =
     (let node = tw_nodes w ! owner;
          w1 = w\<lparr>tw_nodes := (tw_nodes w)[owner := node_empty]\<rparr>
      in cascade_loop n (wheel_insert w1 owner (tn_generation node) (tn_deadline_ms node)) (tn_next node))"

definition wheel_cascade :: "nat \<Rightarrow> timer_wheel \<Rightarrow> timer_wheel option" where
  "wheel_cascade l w =
     (case take_slot l (tw_now_ms w div 2 ^ (l * 8) mod 256) w of (w1, current) \<Rightarrow>
        map_option refresh_earliest (cascade_loop (length (tw_nodes w)) w1 current))"

fun expire_loop :: "nat \<Rightarrow> timer_wheel \<Rightarrow> nat option \<Rightarrow> timer_expiry list \<Rightarrow> (timer_wheel \<times> timer_expiry list) option" where
  "expire_loop n w None fired = Some (w, fired)"
| "expire_loop 0 w (Some owner) fired = None"
| "expire_loop (Suc n) w (Some owner) fired =
     (let node = tw_nodes w ! owner;
          w1 = w\<lparr>tw_nodes := (tw_nodes w)[owner := node_empty]\<rparr>
      in if tn_deadline_ms node \<le> tw_now_ms w1
         then expire_loop n w1 (tn_next node)
           (fired @ [\<lparr>te_owner = owner, te_generation = tn_generation node, te_deadline_ms = tn_deadline_ms node\<rparr>])
         else expire_loop n (wheel_insert w1 owner (tn_generation node) (tn_deadline_ms node)) (tn_next node) fired)"

definition cascade_if :: "bool \<Rightarrow> nat \<Rightarrow> timer_wheel \<Rightarrow> timer_wheel option" where
  "cascade_if b l w = (if b then wheel_cascade l w else Some w)"

definition wheel_tick :: "timer_wheel \<Rightarrow> timer_expiry list \<Rightarrow> (timer_wheel \<times> timer_expiry list) option" where
  "wheel_tick w0 fired =
     (let w = w0\<lparr>tw_now_ms := tw_now_ms w0 + 1\<rparr>;
          now = tw_now_ms w;
          b1 = (now mod 2 ^ 8 = 0);
          b2 = (b1 \<and> now mod 2 ^ 16 = 0);
          b3 = (b2 \<and> now mod 2 ^ 24 = 0)
      in Option.bind (cascade_if b1 1 w) (\<lambda>w1.
         Option.bind (cascade_if b2 2 w1) (\<lambda>w2.
         Option.bind (cascade_if b3 3 w2) (\<lambda>w3.
           case take_slot 0 (tw_now_ms w3 mod 256) w3 of (w4, current) \<Rightarrow>
             map_option (\<lambda>(w5, fired'). (if current \<noteq> None then refresh_earliest w5 else w5, fired'))
               (expire_loop (length (tw_nodes w4)) w4 current fired)))))"

fun advance_loop :: "nat \<Rightarrow> nat \<Rightarrow> timer_wheel \<Rightarrow> timer_expiry list \<Rightarrow> (timer_wheel \<times> timer_expiry list) option" where
  "advance_loop 0 target_ms w fired = Some (w, fired)"
| "advance_loop (Suc n) target_ms w fired =
     (if tw_now_ms w < target_ms
      then case wheel_tick w fired of None \<Rightarrow> None | Some (w', fired') \<Rightarrow> advance_loop n target_ms w' fired'
      else Some (w, fired))"

definition wheel_advance :: "timer_wheel \<Rightarrow> nat \<Rightarrow> nat \<Rightarrow> (timer_wheel \<times> timer_expiry list \<times> bool) option" where
  "wheel_advance w target_ns tick_budget =
     (let target_ms = target_ns div 1000000 in
      map_option (\<lambda>(w', fired). (w', fired, tw_now_ms w' < target_ms)) (advance_loop tick_budget target_ms w []))"

end
