(* ===== verification/TimerWheelInv.thy ===== *)
theory TimerWheelInv
  imports TimerWheel
begin

text \<open>
  The invariant of the timer wheel: every slot holds a doubly linked list of the active nodes placed there, the
  three deadline caches are exact, and every node waits at a level whose digits have not been passed. The lists
  are a function of level and slot that the lemmas carry along; a set of pending owners covers the nodes a loop
  has taken out of a slot and not yet visited.
\<close>

section \<open>Minima\<close>

definition mins :: "nat set \<Rightarrow> nat" where
  "mins X = Min (insert U64_MAX X)"

lemma mins_empty [simp]: "mins {} = U64_MAX"
  by (simp add: mins_def)

lemma mins_insert [simp]: "finite X \<Longrightarrow> mins (insert d X) = min d (mins X)"
  by (simp add: mins_def insert_commute [of U64_MAX d])

lemma mins_le [simp]: "finite X \<Longrightarrow> mins X \<le> U64_MAX"
  by (simp add: mins_def)

lemma mins_lower: "finite X \<Longrightarrow> x \<in> X \<Longrightarrow> mins X \<le> x"
  by (simp add: mins_def)

lemma mins_mem: "finite X \<Longrightarrow> mins X = U64_MAX \<or> mins X \<in> X"
  using Min_in [of "insert U64_MAX X"] by (auto simp: mins_def)

lemma mins_subset: "finite X \<Longrightarrow> Y \<subseteq> X \<Longrightarrow> mins X \<le> mins Y"
  unfolding mins_def by (intro Min_antimono) auto

lemma foldl_min: "foldl min x xs = Min (set (x # xs))" for x :: nat
proof (induction xs arbitrary: x)
  case (Cons y xs)
  show ?case using Cons.IH [of "min x y"] by (cases "xs = []") (simp_all add: min.assoc)
qed simp

lemma iter_min_mins:
  assumes "xs \<noteq> []" "\<And>x. x \<in> set xs \<Longrightarrow> x \<le> U64_MAX"
  shows "iter_min_or U64_MAX xs = mins (set xs)"
proof -
  obtain y ys where xs: "xs = y # ys" using assms(1) by (cases xs) auto
  have "Min (set xs) \<le> U64_MAX" using assms by (meson List.finite_set Min_le_iff hd_in_set set_empty)
  then show ?thesis unfolding xs by (simp only: iter_min_or.simps foldl_min mins_def) (simp add: min_absorb2 xs)
qed

section \<open>Lists\<close>

fun dchain :: "timer_node list \<Rightarrow> nat option \<Rightarrow> nat option \<Rightarrow> nat list \<Rightarrow> bool" where
  "dchain ns pr cur [] \<longleftrightarrow> cur = None"
| "dchain ns pr cur (x # xs) \<longleftrightarrow>
     cur = Some x \<and> x < length ns \<and> tn_previous (ns ! x) = pr \<and> dchain ns (Some x) (tn_next (ns ! x)) xs"

fun nchain :: "timer_node list \<Rightarrow> nat option \<Rightarrow> nat list \<Rightarrow> bool" where
  "nchain ns cur [] \<longleftrightarrow> cur = None"
| "nchain ns cur (x # xs) \<longleftrightarrow> cur = Some x \<and> x < length ns \<and> nchain ns (tn_next (ns ! x)) xs"

lemma dchain_nchain: "dchain ns pr cur xs \<Longrightarrow> nchain ns cur xs"
  by (induction xs arbitrary: pr cur) auto

lemma dchain_frame:
  "dchain ns pr cur xs \<Longrightarrow> length ns' = length ns \<Longrightarrow> (\<And>y. y \<in> set xs \<Longrightarrow> ns' ! y = ns ! y) \<Longrightarrow> dchain ns' pr cur xs"
  by (induction xs arbitrary: pr cur) auto

lemma nchain_frame:
  "nchain ns cur xs \<Longrightarrow> length ns' = length ns \<Longrightarrow> (\<And>y. y \<in> set xs \<Longrightarrow> tn_next (ns' ! y) = tn_next (ns ! y)) \<Longrightarrow>
   nchain ns' cur xs"
  by (induction xs arbitrary: cur) auto

lemma nchain_length: "nchain ns cur xs \<Longrightarrow> distinct xs \<Longrightarrow> length xs \<le> length ns"
proof -
  assume "nchain ns cur xs" "distinct xs"
  then have "set xs \<subseteq> {..<length ns}" by (induction xs arbitrary: cur) auto
  then have "card (set xs) \<le> length ns" using card_mono [of "{..<length ns}"] by fastforce
  then show ?thesis using \<open>distinct xs\<close> by (simp add: distinct_card)
qed

section \<open>The invariant\<close>

type_synonym slot_lists = "nat \<Rightarrow> nat \<Rightarrow> nat list"

definition node_at :: "timer_node list \<Rightarrow> nat \<Rightarrow> nat \<Rightarrow> nat \<Rightarrow> bool" where
  "node_at ns l s x \<longleftrightarrow> x < length ns \<and> tn_active (ns ! x) \<and> tn_level (ns ! x) = l \<and> tn_slot (ns ! x) = s"

definition lists_ok :: "timer_wheel \<Rightarrow> slot_lists \<Rightarrow> nat set \<Rightarrow> bool" where
  "lists_ok w L P \<longleftrightarrow>
     (\<forall>l s. dchain (tw_nodes w) None (tw_heads w l s) (L l s) \<and> distinct (L l s) \<and>
        (\<forall>x\<in>set (L l s). node_at (tw_nodes w) l s x \<and> x \<notin> P)) \<and>
     (\<forall>x<length (tw_nodes w). tn_active (tw_nodes w ! x) \<longrightarrow>
        x \<in> P \<or> x \<in> set (L (tn_level (tw_nodes w ! x)) (tn_slot (tw_nodes w ! x))))"

definition caches_ok :: "timer_wheel \<Rightarrow> slot_lists \<Rightarrow> bool" where
  "caches_ok w L \<longleftrightarrow>
     (\<forall>l s. tw_slot_deadlines w l s = mins ((\<lambda>x. tn_deadline_ms (tw_nodes w ! x)) ` set (L l s))) \<and>
     (\<forall>l. tw_level_deadlines w l = mins (tw_slot_deadlines w l ` {..<256}))"

definition earliest_of :: "timer_wheel \<Rightarrow> nat option" where
  "earliest_of w = (let m = mins (tw_level_deadlines w ` {..<4}) in if m = U64_MAX then None else Some m)"

definition place_ok :: "timer_wheel \<Rightarrow> slot_lists \<Rightarrow> nat set \<Rightarrow> bool" where
  "place_ok w L S \<longleftrightarrow>
     (\<forall>l s. \<forall>x\<in>set (L l s). l < 4 \<and> s = tn_deadline_ms (tw_nodes w ! x) div 256 ^ l mod 256 \<and>
        tn_deadline_ms (tw_nodes w ! x) < U64_MAX \<and>
        tw_now_ms w div 256 ^ l + (if l \<in> S then 1 else 0) \<le> tn_deadline_ms (tw_nodes w ! x) div 256 ^ l)"

definition content :: "timer_wheel \<Rightarrow> nat \<rightharpoonup> nat \<times> nat" where
  "content w x =
     (if x < length (tw_nodes w) \<and> tn_active (tw_nodes w ! x)
      then Some (tn_generation (tw_nodes w ! x), tn_deadline_ms (tw_nodes w ! x)) else None)"

definition wheel_inv :: "timer_wheel \<Rightarrow> slot_lists \<Rightarrow> nat set \<Rightarrow> nat set \<Rightarrow> bool" where
  "wheel_inv w L P S \<longleftrightarrow> lists_ok w L P \<and> caches_ok w L \<and> place_ok w L S"

lemma lists_ok_chain: "lists_ok w L P \<Longrightarrow> dchain (tw_nodes w) None (tw_heads w l s) (L l s)"
  by (simp add: lists_ok_def)

lemma lists_ok_distinct: "lists_ok w L P \<Longrightarrow> distinct (L l s)"
  by (simp add: lists_ok_def)

lemma lists_ok_mem: "lists_ok w L P \<Longrightarrow> x \<in> set (L l s) \<Longrightarrow> node_at (tw_nodes w) l s x \<and> x \<notin> P"
  by (simp add: lists_ok_def)

lemma lists_ok_active:
  "lists_ok w L P \<Longrightarrow> x < length (tw_nodes w) \<Longrightarrow> tn_active (tw_nodes w ! x) \<Longrightarrow> x \<notin> P \<Longrightarrow>
   x \<in> set (L (tn_level (tw_nodes w ! x)) (tn_slot (tw_nodes w ! x)))"
  by (auto simp: lists_ok_def)

lemma lists_ok_apart:
  "lists_ok w L P \<Longrightarrow> x \<in> set (L l s) \<Longrightarrow> x \<in> set (L l' s') \<Longrightarrow> l = l' \<and> s = s'"
  using lists_ok_mem [of w L P x l s] lists_ok_mem [of w L P x l' s'] by (simp add: node_at_def)

lemma upd2_apply [simp]: "upd2 f l s v l' s' = (if l' = l \<and> s' = s then v else f l' s')"
  by (simp add: upd2_def)


section \<open>Insertion\<close>

definition push_nodes :: "timer_node list \<Rightarrow> nat \<Rightarrow> timer_node \<Rightarrow> nat option \<Rightarrow> timer_node list" where
  "push_nodes ns x node head =
     (case head of Some h \<Rightarrow> (ns[x := node])[h := (ns[x := node] ! h)\<lparr>tn_previous := Some x\<rparr>] | None \<Rightarrow> ns[x := node])"

lemma push_nodes_length [simp]: "length (push_nodes ns x node head) = length ns"
  by (simp add: push_nodes_def split: option.split)

lemma push_nodes_self: "x < length ns \<Longrightarrow> head \<noteq> Some x \<Longrightarrow> push_nodes ns x node head ! x = node"
  by (auto simp: push_nodes_def nth_list_update split: option.split)

lemma push_nodes_head: "head = Some h \<Longrightarrow> h < length ns \<Longrightarrow> h \<noteq> x \<Longrightarrow>
   push_nodes ns x node head ! h = (ns ! h)\<lparr>tn_previous := Some x\<rparr>"
  by (simp add: push_nodes_def)

lemma push_nodes_other: "y \<noteq> x \<Longrightarrow> head \<noteq> Some y \<Longrightarrow> push_nodes ns x node head ! y = ns ! y"
  by (cases head) (auto simp: push_nodes_def)

lemma push_nodes_cases:
  assumes "y \<noteq> x"
  shows "push_nodes ns x node head ! y = ns ! y \<or> push_nodes ns x node head ! y = (ns ! y)\<lparr>tn_previous := Some x\<rparr>"
proof (cases "head = Some y")
  case True
  then show ?thesis
  proof (cases "y < length ns")
    case False
    then show ?thesis using True assms by (simp add: push_nodes_def list_update_beyond)
  qed (use assms in \<open>simp add: push_nodes_head\<close>)
qed (simp add: push_nodes_other assms)

lemma push_nodes_fields:
  assumes "y \<noteq> x"
  shows "tn_active (push_nodes ns x node head ! y) = tn_active (ns ! y)"
    "tn_level (push_nodes ns x node head ! y) = tn_level (ns ! y)"
    "tn_slot (push_nodes ns x node head ! y) = tn_slot (ns ! y)"
    "tn_next (push_nodes ns x node head ! y) = tn_next (ns ! y)"
    "tn_deadline_ms (push_nodes ns x node head ! y) = tn_deadline_ms (ns ! y)"
    "tn_generation (push_nodes ns x node head ! y) = tn_generation (ns ! y)"
  using push_nodes_cases [OF assms, of ns node head] by (elim disjE; simp)+

lemma dchain_push:
  assumes "dchain ns None head xs" "distinct xs" "x < length ns" "x \<notin> set xs" "tn_previous node = None" "tn_next node = head"
  shows "dchain (push_nodes ns x node head) None (Some x) (x # xs)"
proof (cases xs)
  case Nil
  then show ?thesis using assms by (auto simp: push_nodes_self)
next
  case (Cons h ys)
  then have h: "head = Some h" "h < length ns" "dchain ns (Some h) (tn_next (ns ! h)) ys" "h \<noteq> x"
    using assms by auto
  have "dchain (push_nodes ns x node head) (Some h) (tn_next (ns ! h)) ys"
    by (rule dchain_frame [OF h(3)]) (use assms(2,4) Cons h(1) in \<open>auto intro: push_nodes_other\<close>)
  then show ?thesis using assms h Cons by (simp add: push_nodes_self push_nodes_head)
qed

lemma shift_digits: "(2 :: nat) ^ (l * 8) = 256 ^ l"
proof -
  have "(256 :: nat) ^ l = (2 ^ 8) ^ l" by simp
  then show ?thesis by (simp only: power_mult [symmetric] mult.commute)
qed

lemma wheel_insert_eq:
  fixes w x g d
  defines "l \<equiv> insert_level (d - tw_now_ms w)"
  defines "s \<equiv> d div 256 ^ l mod 256"
  shows "wheel_insert w x g d =
    w\<lparr>tw_nodes := push_nodes (tw_nodes w) x
         \<lparr>tn_active = True, tn_level = l, tn_slot = s, tn_previous = None, tn_next = tw_heads w l s, tn_deadline_ms = d,
          tn_generation = g\<rparr> (tw_heads w l s),
       tw_heads := upd2 (tw_heads w) l s (Some x),
       tw_slot_deadlines := upd2 (tw_slot_deadlines w) l s (min (tw_slot_deadlines w l s) d),
       tw_level_deadlines := (tw_level_deadlines w)(l := min (tw_level_deadlines w l) d),
       tw_earliest_deadline_ms :=
         Some (case tw_earliest_deadline_ms w of None \<Rightarrow> d | Some e \<Rightarrow> min e d)\<rparr>"
proof -
  show ?thesis by (simp add: wheel_insert_def Let_def push_nodes_def l_def s_def shift_digits)
qed


lemma insert_level_less [simp]: "insert_level delta < 4"
  by (simp add: insert_level_def)

lemma insert_level_bound: "0 < insert_level delta \<Longrightarrow> 256 ^ insert_level delta \<le> delta"
  by (auto simp: insert_level_def split: if_splits)

lemma insert_level_place:
  fixes now d :: nat
  assumes "now \<le> d" "now < d \<or> 0 \<notin> S"
  defines "l \<equiv> insert_level (d - now)"
  shows "now div 256 ^ l + (if l \<in> S then 1 else 0) \<le> d div 256 ^ l"
proof (cases "l = 0")
  case True
  then show ?thesis using assms(1,2) by auto
next
  case False
  then have "now + 256 ^ l \<le> d" using insert_level_bound [of "d - now"] assms(1) unfolding l_def by auto
  then have "(now + 256 ^ l) div 256 ^ l \<le> d div 256 ^ l" by (rule div_le_mono)
  moreover have "(now + 256 ^ l) div 256 ^ l = now div 256 ^ l + 1" by (rule div_add_self2) simp
  ultimately show ?thesis by auto
qed

lemma push_slot_list:
  assumes ok: "lists_ok w L P" and x: "x < length (tw_nodes w)" "x \<notin> P" "x \<notin> set (L l s)"
    and node: "tn_active node" "tn_level node = l" "tn_slot node = s" "tn_previous node = None" "tn_next node = tw_heads w l s"
    and ns': "ns' = push_nodes (tw_nodes w) x node (tw_heads w l s)" "ns' ! x = node"
  shows "dchain ns' None (Some x) (x # L l s) \<and> distinct (x # L l s) \<and> (\<forall>y\<in>set (x # L l s). node_at ns' l s y \<and> y \<notin> P)"
proof -
  have "dchain ns' None (Some x) (x # L l s)"
    unfolding ns'(1) by (rule dchain_push [OF lists_ok_chain [OF ok] lists_ok_distinct [OF ok] x(1,3) node(4,5)])
  moreover have "node_at ns' l s y \<and> y \<notin> P" if "y \<in> set (x # L l s)" for y
  proof (cases "y = x")
    case True
    then show ?thesis using x(1,2) node(1-3) by (simp add: node_at_def ns'(2)) (simp add: ns'(1))
  next
    case False
    then have "y \<in> set (L l s)" using that by simp
    from lists_ok_mem [OF ok this] show ?thesis by (simp add: node_at_def ns'(1) push_nodes_fields [OF False])
  qed
  ultimately show ?thesis using lists_ok_distinct [OF ok, of l s] x(3) by auto
qed

lemma push_other_list:
  assumes ok: "lists_ok w L P" and x: "x \<notin> set (L a b)" and ne: "\<not> (a = l \<and> b = s)"
    and ns': "ns' = push_nodes (tw_nodes w) x node (tw_heads w l s)"
  shows "dchain ns' None (tw_heads w a b) (L a b) \<and> distinct (L a b) \<and> (\<forall>y\<in>set (L a b). node_at ns' a b y \<and> y \<notin> P)"
proof -
  have same: "ns' ! y = tw_nodes w ! y" if "y \<in> set (L a b)" for y
  proof -
    have "y \<in> set (L l s)" if "tw_heads w l s = Some y" using lists_ok_chain [OF ok, of l s] that by (cases "L l s") auto
    then have "tw_heads w l s \<noteq> Some y" using lists_ok_apart [OF ok that, of l s] ne by blast
    then show ?thesis unfolding ns' using that x by (intro push_nodes_other) auto
  qed
  have "dchain ns' None (tw_heads w a b) (L a b)"
    by (rule dchain_frame [OF lists_ok_chain [OF ok]]) (simp_all add: same, simp add: ns')
  moreover have "node_at ns' a b y \<and> y \<notin> P" if "y \<in> set (L a b)" for y
    using lists_ok_mem [OF ok that] by (simp add: node_at_def same [OF that]) (simp add: ns')
  ultimately show ?thesis using lists_ok_distinct [OF ok] by blast
qed

lemma insert_lists_ok:
  fixes d :: nat
  assumes ok: "lists_ok w L P" and x: "x < length (tw_nodes w)" "\<not> tn_active (tw_nodes w ! x)" "x \<notin> P"
  defines "l \<equiv> insert_level (d - tw_now_ms w)"
  defines "s \<equiv> d div 256 ^ l mod 256"
  shows "lists_ok (wheel_insert w x g d) (upd2 L l s (x # L l s)) P"
proof -
  define node where "node = \<lparr>tn_active = True, tn_level = l, tn_slot = s, tn_previous = None, tn_next = tw_heads w l s,
    tn_deadline_ms = d, tn_generation = g\<rparr>"
  define ns' where "ns' = push_nodes (tw_nodes w) x node (tw_heads w l s)"
  have w': "tw_nodes (wheel_insert w x g d) = ns'" "tw_heads (wheel_insert w x g d) = upd2 (tw_heads w) l s (Some x)"
    unfolding wheel_insert_eq [of w x g d, folded l_def, folded s_def] ns'_def node_def by simp_all
  have notin: "x \<notin> set (L a b)" for a b using lists_ok_mem [OF ok] x(2) by (auto simp: node_at_def)
  have "tw_heads w l s \<noteq> Some x" using lists_ok_chain [OF ok, of l s] notin [of l s] by (cases "L l s") auto
  then have self: "ns' ! x = node" unfolding ns'_def using x(1) by (intro push_nodes_self)
  have "dchain ns' None (upd2 (tw_heads w) l s (Some x) a b) (upd2 L l s (x # L l s) a b) \<and>
      distinct (upd2 L l s (x # L l s) a b) \<and> (\<forall>y\<in>set (upd2 L l s (x # L l s) a b). node_at ns' a b y \<and> y \<notin> P)" for a b
  proof (cases "a = l \<and> b = s")
    case True
    have "tn_active node" "tn_level node = l" "tn_slot node = s" "tn_previous node = None" "tn_next node = tw_heads w l s"
      by (simp_all add: node_def)
    from push_slot_list [OF ok x(1,3) notin this ns'_def self] show ?thesis
      unfolding upd2_apply using True by (elim conjE) (simp only: simp_thms if_True)
  next
    case False
    from push_other_list [OF ok notin False ns'_def] show ?thesis
      unfolding upd2_apply using False by (elim conjE) (simp only: simp_thms if_False)
  qed
  moreover have "y \<in> P \<or> y \<in> set (upd2 L l s (x # L l s) (tn_level (ns' ! y)) (tn_slot (ns' ! y)))"
    if "y < length ns'" "tn_active (ns' ! y)" for y
  proof (cases "y = x")
    case True
    then show ?thesis by (simp add: self) (simp add: node_def)
  next
    case False
    note fields = push_nodes_fields [OF False, of "tw_nodes w" node "tw_heads w l s", folded ns'_def]
    show ?thesis using that lists_ok_active [OF ok, of y] fields by (auto simp: ns'_def)
  qed
  ultimately show ?thesis unfolding lists_ok_def w' by blast
qed

lemma mins_image_split:
  assumes "finite A" "s \<in> A"
  shows "mins (f ` A) = min (f s) (mins (f ` (A - {s})))" "mins ((f(s := v)) ` A) = min v (mins (f ` (A - {s})))"
proof -
  have "f ` A = insert (f s) (f ` (A - {s}))" "(f(s := v)) ` A = insert v (f ` (A - {s}))" using assms by auto
  then show "mins (f ` A) = min (f s) (mins (f ` (A - {s})))" "mins ((f(s := v)) ` A) = min v (mins (f ` (A - {s})))"
    using assms(1) by simp_all
qed

lemma insert_nodes:
  fixes d :: nat
  assumes ok: "lists_ok w L P" and x: "x < length (tw_nodes w)" "\<not> tn_active (tw_nodes w ! x)"
  defines "l \<equiv> insert_level (d - tw_now_ms w)"
  defines "s \<equiv> d div 256 ^ l mod 256"
  shows "length (tw_nodes (wheel_insert w x g d)) = length (tw_nodes w)"
    "tn_active (tw_nodes (wheel_insert w x g d) ! x)" "tn_generation (tw_nodes (wheel_insert w x g d) ! x) = g"
    "tn_deadline_ms (tw_nodes (wheel_insert w x g d) ! x) = d"
    "y \<noteq> x \<Longrightarrow> tn_active (tw_nodes (wheel_insert w x g d) ! y) = tn_active (tw_nodes w ! y)"
    "y \<noteq> x \<Longrightarrow> tn_generation (tw_nodes (wheel_insert w x g d) ! y) = tn_generation (tw_nodes w ! y)"
    "y \<noteq> x \<Longrightarrow> tn_deadline_ms (tw_nodes (wheel_insert w x g d) ! y) = tn_deadline_ms (tw_nodes w ! y)"
    "y \<noteq> x \<Longrightarrow> tn_next (tw_nodes (wheel_insert w x g d) ! y) = tn_next (tw_nodes w ! y)"
proof -
  define node where "node = \<lparr>tn_active = True, tn_level = l, tn_slot = s, tn_previous = None, tn_next = tw_heads w l s,
    tn_deadline_ms = d, tn_generation = g\<rparr>"
  have ns: "tw_nodes (wheel_insert w x g d) = push_nodes (tw_nodes w) x node (tw_heads w l s)"
    unfolding wheel_insert_eq [of w x g d, folded l_def, folded s_def] node_def by simp
  have "tw_heads w l s \<noteq> Some x"
  proof
    assume "tw_heads w l s = Some x"
    then have "x \<in> set (L l s)" using lists_ok_chain [OF ok, of l s] by (cases "L l s") auto
    then show False using lists_ok_mem [OF ok, of x l s] x(2) by (simp add: node_at_def)
  qed
  then have self: "push_nodes (tw_nodes w) x node (tw_heads w l s) ! x = node" using x(1) by (simp add: push_nodes_self)
  show "length (tw_nodes (wheel_insert w x g d)) = length (tw_nodes w)"
    "tn_active (tw_nodes (wheel_insert w x g d) ! x)" "tn_generation (tw_nodes (wheel_insert w x g d) ! x) = g"
    "tn_deadline_ms (tw_nodes (wheel_insert w x g d) ! x) = d"
    unfolding ns self by (simp_all add: node_def)
  show "y \<noteq> x \<Longrightarrow> tn_active (tw_nodes (wheel_insert w x g d) ! y) = tn_active (tw_nodes w ! y)"
    "y \<noteq> x \<Longrightarrow> tn_generation (tw_nodes (wheel_insert w x g d) ! y) = tn_generation (tw_nodes w ! y)"
    "y \<noteq> x \<Longrightarrow> tn_deadline_ms (tw_nodes (wheel_insert w x g d) ! y) = tn_deadline_ms (tw_nodes w ! y)"
    "y \<noteq> x \<Longrightarrow> tn_next (tw_nodes (wheel_insert w x g d) ! y) = tn_next (tw_nodes w ! y)"
    unfolding ns by (simp_all add: push_nodes_fields)
qed

lemma insert_now [simp]: "tw_now_ms (wheel_insert w x g d) = tw_now_ms w"
  by (simp add: wheel_insert_def Let_def)

lemma insert_content:
  assumes "lists_ok w L P" "x < length (tw_nodes w)" "\<not> tn_active (tw_nodes w ! x)"
  shows "content (wheel_insert w x g d) = (content w)(x \<mapsto> (g, d))"
proof
  fix y
  note n = insert_nodes [OF assms, where d = d and g = g]
  show "content (wheel_insert w x g d) y = ((content w)(x \<mapsto> (g, d))) y"
  proof (cases "y = x")
    case True
    then show ?thesis using n(1-4) assms(2) by (simp add: content_def)
  next
    case False
    show ?thesis using n(1) n(5-7) [OF False] False by (simp add: content_def)
  qed
qed

lemma insert_caches_ok:
  fixes d :: nat
  assumes ok: "lists_ok w L P" and c: "caches_ok w L" and x: "x < length (tw_nodes w)" "\<not> tn_active (tw_nodes w ! x)"
  defines "l \<equiv> insert_level (d - tw_now_ms w)"
  defines "s \<equiv> d div 256 ^ l mod 256"
  shows "caches_ok (wheel_insert w x g d) (upd2 L l s (x # L l s))"
proof -
  define w' where "w' = wheel_insert w x g d"
  note n = insert_nodes [OF ok x, where d = d and g = g, folded w'_def]
  have sd: "tw_slot_deadlines w' = upd2 (tw_slot_deadlines w) l s (min (tw_slot_deadlines w l s) d)"
    and ld: "tw_level_deadlines w' = (tw_level_deadlines w)(l := min (tw_level_deadlines w l) d)"
    unfolding w'_def wheel_insert_eq [of w x g d, folded l_def, folded s_def] by simp_all
  have cs: "tw_slot_deadlines w l' s' = mins ((\<lambda>y. tn_deadline_ms (tw_nodes w ! y)) ` set (L l' s'))"
    and cl: "tw_level_deadlines w l' = mins (tw_slot_deadlines w l' ` {..<256})" for l' s' using c by (auto simp: caches_ok_def)
  have notin: "x \<notin> set (L l' s')" for l' s' using lists_ok_mem [OF ok] x(2) by (auto simp: node_at_def)
  have same: "(\<lambda>y. tn_deadline_ms (tw_nodes w' ! y)) ` set (L l' s') = (\<lambda>y. tn_deadline_ms (tw_nodes w ! y)) ` set (L l' s')"
    for l' s' using n(7) notin by (intro image_cong refl) metis
  have "tw_slot_deadlines w' l' s' = mins ((\<lambda>y. tn_deadline_ms (tw_nodes w' ! y)) ` set (upd2 L l s (x # L l s) l' s'))" for l' s'
    unfolding sd upd2_apply using same [of l' s'] same [of l s] by (simp add: cs n(4) min.commute)
  moreover have "tw_level_deadlines w' l' = mins (tw_slot_deadlines w' l' ` {..<256})" for l'
  proof (cases "l' = l")
    case True
    have fin: "finite {..<256 :: nat}" "s \<in> {..<256}" by (simp_all add: s_def)
    have eq: "tw_slot_deadlines w' l = (tw_slot_deadlines w l)(s := min (tw_slot_deadlines w l s) d)"
      by (simp add: sd upd2_def)
    show ?thesis
      unfolding True ld fun_upd_same eq mins_image_split(2) [OF fin] cl
        mins_image_split(1) [OF fin, of "tw_slot_deadlines w l"]
      by (simp only: min.commute min.left_commute)
  next
    case False
    then have "tw_slot_deadlines w' l' = tw_slot_deadlines w l'" by (simp add: sd upd2_def)
    then show ?thesis using False by (simp add: ld cl)
  qed
  ultimately show ?thesis unfolding caches_ok_def w'_def [symmetric] by blast
qed

lemma insert_place_ok:
  fixes d :: nat
  assumes ok: "lists_ok w L P" and p: "place_ok w L S" and x: "x < length (tw_nodes w)" "\<not> tn_active (tw_nodes w ! x)"
    and d: "tw_now_ms w \<le> d" "tw_now_ms w < d \<or> 0 \<notin> S" "d < U64_MAX"
  defines "l \<equiv> insert_level (d - tw_now_ms w)"
  defines "s \<equiv> d div 256 ^ l mod 256"
  shows "place_ok (wheel_insert w x g d) (upd2 L l s (x # L l s)) S"
proof -
  note n = insert_nodes [OF ok x, where d = d and g = g]
  have notin: "x \<notin> set (L l' s')" for l' s' using lists_ok_mem [OF ok] x(2) by (auto simp: node_at_def)
  define Q where "Q l' s' e \<longleftrightarrow> l' < 4 \<and> s' = e div 256 ^ l' mod 256 \<and> e < U64_MAX \<and>
      tw_now_ms w div 256 ^ l' + (if l' \<in> S then 1 else 0) \<le> e div 256 ^ l'" for l' s' e
  have "Q l s d" using insert_level_place [OF d(1,2)] d(3) by (simp add: Q_def l_def s_def)
  moreover have old: "Q l' s' (tn_deadline_ms (tw_nodes w ! y))" if "y \<in> set (L l' s')" for l' s' y
    using p that unfolding place_ok_def Q_def by blast
  ultimately have "Q l' s' (tn_deadline_ms (tw_nodes (wheel_insert w x g d) ! y))"
    if "y \<in> set (upd2 L l s (x # L l s) l' s')" for l' s' y
    using that n(4) n(7) [of y] notin by (cases "y = x") (auto split: if_splits)
  then show ?thesis unfolding place_ok_def insert_now Q_def by blast
qed


section \<open>Replacing the deadline of a slot\<close>

definition set_slot_deadline :: "nat \<Rightarrow> nat \<Rightarrow> nat \<Rightarrow> timer_wheel \<Rightarrow> timer_wheel" where
  "set_slot_deadline l s v w =
     (let w1 = w\<lparr>tw_slot_deadlines := upd2 (tw_slot_deadlines w) l s v\<rparr>
      in if tw_level_deadlines w1 l = tw_slot_deadlines w l s then refresh_level_deadline l w1 else w1)"

definition levels_ok :: "timer_wheel \<Rightarrow> bool" where
  "levels_ok w \<longleftrightarrow> (\<forall>l. tw_level_deadlines w l = mins (tw_slot_deadlines w l ` {..<256})) \<and>
     (\<forall>l s. tw_slot_deadlines w l s \<le> U64_MAX)"

lemma caches_levels_ok: "caches_ok w L \<Longrightarrow> levels_ok w"
  by (simp add: caches_ok_def levels_ok_def)

lemma iter_min_slots:
  assumes "\<And>s. f s \<le> U64_MAX"
  shows "iter_min_or U64_MAX (map f [0..<SLOTS]) = mins (f ` {..<256})"
proof -
  have "set (map f [0..<SLOTS]) = f ` {..<256}" by (auto simp: SLOTS_def)
  moreover have "iter_min_or U64_MAX (map f [0..<SLOTS]) = mins (set (map f [0..<SLOTS]))"
    using assms by (intro iter_min_mins) (auto simp: SLOTS_def)
  ultimately show ?thesis by simp
qed

lemma set_slot_fields [simp]:
  "tw_slot_deadlines (set_slot_deadline l s v w) = upd2 (tw_slot_deadlines w) l s v"
  "tw_nodes (set_slot_deadline l s v w) = tw_nodes w" "tw_heads (set_slot_deadline l s v w) = tw_heads w"
  "tw_now_ms (set_slot_deadline l s v w) = tw_now_ms w"
  "tw_earliest_deadline_ms (set_slot_deadline l s v w) = tw_earliest_deadline_ms w"
  by (simp_all add: set_slot_deadline_def refresh_level_deadline_def Let_def)

lemma set_slot_levels_ok:
  assumes "levels_ok w" "tw_slot_deadlines w l s \<le> v" "v \<le> U64_MAX" "s < 256"
  shows "levels_ok (set_slot_deadline l s v w)"
proof -
  let ?f = "tw_slot_deadlines w l"
  have le: "upd2 (tw_slot_deadlines w) l s v l' s' \<le> U64_MAX" for l' s' using assms(1,3) by (simp add: levels_ok_def)
  have lev: "tw_level_deadlines w l' = mins (tw_slot_deadlines w l' ` {..<256})" for l' using assms(1) by (simp add: levels_ok_def)
  have fin: "finite {..<256 :: nat}" "s \<in> {..<256}" using assms(4) by simp_all
  define R where "R = mins (?f ` ({..<256} - {s}))"
  have old: "tw_level_deadlines w l = min (?f s) R" unfolding lev R_def by (rule mins_image_split(1) [OF fin])
  have upd: "upd2 (tw_slot_deadlines w) l s v l = ?f(s := v)" by (simp add: upd2_def)
  have new: "mins (upd2 (tw_slot_deadlines w) l s v l ` {..<256}) = min v R"
    unfolding upd R_def by (rule mins_image_split(2) [OF fin])
  have "tw_level_deadlines (set_slot_deadline l s v w) l' = mins (upd2 (tw_slot_deadlines w) l s v l' ` {..<256})" for l'
  proof (cases "l' = l")
    case True
    show ?thesis
    proof (cases "tw_level_deadlines w l = ?f s")
      case True
      have "iter_min_or U64_MAX (map (upd2 (tw_slot_deadlines w) l s v l) [0..<SLOTS]) =
          mins (upd2 (tw_slot_deadlines w) l s v l ` {..<256})" by (rule iter_min_slots) (rule le)
      then show ?thesis
        using True \<open>l' = l\<close> by (simp only: set_slot_deadline_def refresh_level_deadline_def Let_def) simp
    next
      case False
      then have "min v R = tw_level_deadlines w l" using old assms(2) by (simp add: min_def split: if_splits)
      then show ?thesis
        using False \<open>l' = l\<close> new by (simp only: set_slot_deadline_def Let_def) simp
    qed
  next
    case False
    then have "upd2 (tw_slot_deadlines w) l s v l' = tw_slot_deadlines w l'" by (simp add: upd2_def)
    then show ?thesis
      using False by (simp add: set_slot_deadline_def refresh_level_deadline_def Let_def lev)
  qed
  then show ?thesis using le by (simp add: levels_ok_def)
qed

lemma set_slot_caches_ok:
  assumes "caches_ok w L" "set zs \<subseteq> set (L l s)" "s < 256"
    and "v = mins ((\<lambda>x. tn_deadline_ms (tw_nodes w ! x)) ` set zs)"
  shows "caches_ok (set_slot_deadline l s v w) (upd2 L l s zs)"
proof -
  have "tw_slot_deadlines w l s \<le> v"
    using assms(1,2) unfolding caches_ok_def assms(4) by (auto intro!: mins_subset)
  moreover have "v \<le> U64_MAX" by (simp add: assms(4))
  ultimately have "levels_ok (set_slot_deadline l s v w)" using set_slot_levels_ok [OF caches_levels_ok [OF assms(1)]] assms(3) by blast
  then show ?thesis using assms(1,4) by (auto simp: caches_ok_def levels_ok_def)
qed


section \<open>Taking the list of a slot\<close>

lemma take_slot_eq:
  "take_slot l s w = (set_slot_deadline l s U64_MAX (w\<lparr>tw_heads := upd2 (tw_heads w) l s None\<rparr>), tw_heads w l s)"
  by (simp add: take_slot_def set_slot_deadline_def Let_def)

lemma take_slot_lists_ok:
  assumes "lists_ok w L {}" "tw_nodes w' = tw_nodes w" "tw_heads w' = upd2 (tw_heads w) l s None"
  shows "lists_ok w' (upd2 L l s []) (set (L l s))"
proof -
  have "dchain (tw_nodes w') None (tw_heads w' l' s') (upd2 L l s [] l' s') \<and> distinct (upd2 L l s [] l' s') \<and>
      (\<forall>x\<in>set (upd2 L l s [] l' s'). node_at (tw_nodes w') l' s' x \<and> x \<notin> set (L l s))" for l' s'
  proof (cases "l' = l \<and> s' = s")
    case False
    then have "upd2 L l s [] l' s' = L l' s'" "tw_heads w' l' s' = tw_heads w l' s'" using assms(3) by auto
    moreover have "x \<notin> set (L l s)" if "x \<in> set (L l' s')" for x
      using lists_ok_apart [OF assms(1) that, of l s] False by blast
    ultimately show ?thesis
      using lists_ok_chain [OF assms(1)] lists_ok_distinct [OF assms(1)] lists_ok_mem [OF assms(1)] by (simp add: assms(2))
  qed (simp add: assms(3))
  moreover have "x \<in> set (L l s) \<or> x \<in> set (upd2 L l s [] (tn_level (tw_nodes w' ! x)) (tn_slot (tw_nodes w' ! x)))"
    if "x < length (tw_nodes w')" "tn_active (tw_nodes w' ! x)" for x
    using that lists_ok_active [OF assms(1), of x] by (auto simp: assms(2))
  ultimately show ?thesis unfolding lists_ok_def by blast
qed

lemma place_ok_take:
  assumes "place_ok w L S" "s = tw_now_ms w div 256 ^ l mod 256" "tw_nodes w' = tw_nodes w" "tw_now_ms w' = tw_now_ms w"
  shows "place_ok w' (upd2 L l s []) (insert l S)"
proof -
  have "l' < 4 \<and> s' = tn_deadline_ms (tw_nodes w ! x) div 256 ^ l' mod 256 \<and> tn_deadline_ms (tw_nodes w ! x) < U64_MAX \<and>
      tw_now_ms w div 256 ^ l' + (if l' \<in> insert l S then 1 else 0) \<le> tn_deadline_ms (tw_nodes w ! x) div 256 ^ l'"
    if "x \<in> set (upd2 L l s [] l' s')" for l' s' x
  proof -
    have x: "x \<in> set (L l' s')" and ne: "\<not> (l' = l \<and> s' = s)" using that by (auto split: if_splits)
    note p = assms(1) [unfolded place_ok_def, rule_format, OF x]
    show ?thesis
    proof (cases "l' = l")
      case True
      then have "tn_deadline_ms (tw_nodes w ! x) div 256 ^ l \<noteq> tw_now_ms w div 256 ^ l" using ne p assms(2) by auto
      then show ?thesis using p True by auto
    next
      case False
      then show ?thesis using p by simp
    qed
  qed
  then show ?thesis unfolding place_ok_def assms(3,4) by blast
qed

lemma take_slot_inv:
  assumes inv: "wheel_inv w L {} S" and s: "s = tw_now_ms w div 256 ^ l mod 256" and t: "take_slot l s w = (w1, cur)"
  shows "wheel_inv w1 (upd2 L l s []) (set (L l s)) (insert l S)" "nchain (tw_nodes w1) cur (L l s)"
    "tw_nodes w1 = tw_nodes w" "tw_now_ms w1 = tw_now_ms w" "tw_earliest_deadline_ms w1 = tw_earliest_deadline_ms w"
    "tw_slot_deadlines w1 = upd2 (tw_slot_deadlines w) l s U64_MAX"
proof -
  let ?w = "w\<lparr>tw_heads := upd2 (tw_heads w) l s None\<rparr>"
  have w1: "w1 = set_slot_deadline l s U64_MAX ?w" and cur: "cur = tw_heads w l s" using t by (auto simp: take_slot_eq)
  show nodes: "tw_nodes w1 = tw_nodes w" and now: "tw_now_ms w1 = tw_now_ms w"
    and "tw_earliest_deadline_ms w1 = tw_earliest_deadline_ms w"
    and "tw_slot_deadlines w1 = upd2 (tw_slot_deadlines w) l s U64_MAX" by (simp_all add: w1)
  have ok: "lists_ok w L {}" and c: "caches_ok w L" and p: "place_ok w L S" using inv by (auto simp: wheel_inv_def)
  have "lists_ok w1 (upd2 L l s []) (set (L l s))"
    by (rule take_slot_lists_ok [OF ok nodes]) (simp add: w1)
  moreover have "caches_ok ?w L" using c by (simp add: caches_ok_def)
  then have "caches_ok w1 (upd2 L l s [])" unfolding w1 by (rule set_slot_caches_ok) (simp_all add: s)
  moreover have "place_ok w1 (upd2 L l s []) (insert l S)" by (rule place_ok_take [OF p s nodes now])
  ultimately show "wheel_inv w1 (upd2 L l s []) (set (L l s)) (insert l S)" by (simp add: wheel_inv_def)
  show "nchain (tw_nodes w1) cur (L l s)" using dchain_nchain [OF lists_ok_chain [OF ok]] by (simp add: cur nodes)
qed

section \<open>Visiting the nodes of a taken list\<close>

lemma drop_pending_inv:
  assumes "wheel_inv w L P S" "x \<in> P"
  shows "wheel_inv (w\<lparr>tw_nodes := (tw_nodes w)[x := node_empty]\<rparr>) L (P - {x}) S"
proof -
  let ?ns = "(tw_nodes w)[x := node_empty]"
  have ok: "lists_ok w L P" and c: "caches_ok w L" and p: "place_ok w L S" using assms(1) by (auto simp: wheel_inv_def)
  have same: "?ns ! y = tw_nodes w ! y" if "y \<in> set (L l s)" for y l s
    using lists_ok_mem [OF ok that] assms(2) by (metis nth_list_update_neq)
  have "dchain ?ns None (tw_heads w l s) (L l s)" for l s
    by (rule dchain_frame [OF lists_ok_chain [OF ok]]) (simp_all add: same)
  moreover have "node_at ?ns l s y \<and> y \<notin> P - {x}" if "y \<in> set (L l s)" for l s y
    using lists_ok_mem [OF ok that] same [OF that] by (simp add: node_at_def)
  moreover have "y \<in> P - {x} \<or> y \<in> set (L (tn_level (?ns ! y)) (tn_slot (?ns ! y)))"
    if "y < length ?ns" "tn_active (?ns ! y)" for y
    using that lists_ok_active [OF ok, of y] by (cases "y = x") (auto simp: node_empty_def)
  ultimately have "lists_ok (w\<lparr>tw_nodes := ?ns\<rparr>) L (P - {x})"
    using lists_ok_distinct [OF ok] unfolding lists_ok_def by simp
  moreover have "(\<lambda>y. tn_deadline_ms (?ns ! y)) ` set (L l s) = (\<lambda>y. tn_deadline_ms (tw_nodes w ! y)) ` set (L l s)" for l s
    by (rule image_cong) (simp_all add: same)
  then have "caches_ok (w\<lparr>tw_nodes := ?ns\<rparr>) L" using c by (simp add: caches_ok_def)
  moreover have "place_ok (w\<lparr>tw_nodes := ?ns\<rparr>) L S" using p same unfolding place_ok_def by simp
  ultimately show ?thesis by (simp add: wheel_inv_def)
qed

lemma drop_content:
  "content (w\<lparr>tw_nodes := (tw_nodes w)[x := node_empty]\<rparr>) = (content w)(x := None)"
proof
  fix y
  show "content (w\<lparr>tw_nodes := (tw_nodes w)[x := node_empty]\<rparr>) y = ((content w)(x := None)) y"
    by (cases "y = x") (auto simp: content_def node_empty_def)
qed

lemma insert_inv:
  assumes "wheel_inv w L P S" "x < length (tw_nodes w)" "\<not> tn_active (tw_nodes w ! x)" "x \<notin> P"
    and "tw_now_ms w \<le> d" "tw_now_ms w < d \<or> 0 \<notin> S" "d < U64_MAX"
  shows "\<exists>L'. wheel_inv (wheel_insert w x g d) L' P S"
proof -
  have ok: "lists_ok w L P" and c: "caches_ok w L" and p: "place_ok w L S" using assms(1) by (auto simp: wheel_inv_def)
  show ?thesis
    using insert_lists_ok [OF ok assms(2,3,4), where d = d and g = g] insert_caches_ok [OF ok c assms(2,3), where d = d and g = g]
      insert_place_ok [OF ok p assms(2,3,5,6,7), where g = g]
    unfolding wheel_inv_def by blast
qed


text \<open>
  One step of a loop over a taken list: the node is cleared and, when it still has time to run, linked in again.
  The nodes not yet visited keep their links.
\<close>

definition relink :: "timer_wheel \<Rightarrow> nat \<Rightarrow> timer_wheel" where
  "relink w x =
     wheel_insert (w\<lparr>tw_nodes := (tw_nodes w)[x := node_empty]\<rparr>) x (tn_generation (tw_nodes w ! x)) (tn_deadline_ms (tw_nodes w ! x))"

definition clear_node :: "timer_wheel \<Rightarrow> nat \<Rightarrow> timer_wheel" where
  "clear_node w x = w\<lparr>tw_nodes := (tw_nodes w)[x := node_empty]\<rparr>"

lemma clear_node_step:
  assumes "wheel_inv w L (set (x # ps)) S" "distinct (x # ps)" "nchain (tw_nodes w) cur (x # ps)"
  shows "wheel_inv (clear_node w x) L (set ps) S" "nchain (tw_nodes (clear_node w x)) (tn_next (tw_nodes w ! x)) ps"
    "content (clear_node w x) = (content w)(x := None)" "length (tw_nodes (clear_node w x)) = length (tw_nodes w)"
    "tw_now_ms (clear_node w x) = tw_now_ms w" "y \<noteq> x \<Longrightarrow> tw_nodes (clear_node w x) ! y = tw_nodes w ! y"
proof -
  have "set (x # ps) - {x} = set ps" using assms(2) by auto
  then show "wheel_inv (clear_node w x) L (set ps) S"
    using drop_pending_inv [OF assms(1), of x] by (simp add: clear_node_def)
  show "nchain (tw_nodes (clear_node w x)) (tn_next (tw_nodes w ! x)) ps"
    by (rule nchain_frame [of "tw_nodes w"]) (use assms(2,3) in \<open>auto simp: clear_node_def nth_list_update\<close>)
qed (simp_all add: clear_node_def drop_content)

lemma relink_step:
  assumes "wheel_inv w L (set (x # ps)) S" "distinct (x # ps)" "nchain (tw_nodes w) cur (x # ps)"
    and act: "tn_active (tw_nodes w ! x)" and d: "tw_now_ms w \<le> tn_deadline_ms (tw_nodes w ! x)"
      "tw_now_ms w < tn_deadline_ms (tw_nodes w ! x) \<or> 0 \<notin> S" "tn_deadline_ms (tw_nodes w ! x) < U64_MAX"
  shows "\<exists>L'. wheel_inv (relink w x) L' (set ps) S" "nchain (tw_nodes (relink w x)) (tn_next (tw_nodes w ! x)) ps"
    "content (relink w x) = content w" "length (tw_nodes (relink w x)) = length (tw_nodes w)"
    "tw_now_ms (relink w x) = tw_now_ms w"
    "y \<noteq> x \<Longrightarrow> tn_active (tw_nodes (relink w x) ! y) = tn_active (tw_nodes w ! y)"
    "y \<noteq> x \<Longrightarrow> tn_deadline_ms (tw_nodes (relink w x) ! y) = tn_deadline_ms (tw_nodes w ! y)"
    "y \<noteq> x \<Longrightarrow> tn_generation (tw_nodes (relink w x) ! y) = tn_generation (tw_nodes w ! y)"
proof -
  let ?d = "tn_deadline_ms (tw_nodes w ! x)" and ?g = "tn_generation (tw_nodes w ! x)"
  define c where "c = clear_node w x"
  note st = clear_node_step [OF assms(1-3), folded c_def]
  have r: "relink w x = wheel_insert c x ?g ?d" by (simp add: relink_def c_def clear_node_def)
  have x: "x < length (tw_nodes c)" "\<not> tn_active (tw_nodes c ! x)" "x \<notin> set ps"
    using assms(2,3) by (auto simp: c_def clear_node_def node_empty_def)
  have ok: "lists_ok c L (set ps)" using st(1) by (simp add: wheel_inv_def)
  note n = insert_nodes [OF ok x(1,2), where d = ?d and g = ?g, folded r]
  show "\<exists>L'. wheel_inv (relink w x) L' (set ps) S"
    unfolding r using insert_inv [OF st(1) x] d st(5) by simp
  show "nchain (tw_nodes (relink w x)) (tn_next (tw_nodes w ! x)) ps"
    by (rule nchain_frame [OF st(2) n(1)]) (use n(8) x(3) in metis)
  have "content (relink w x) = (content c)(x \<mapsto> (?g, ?d))" unfolding r by (rule insert_content [OF ok x(1,2)])
  also have "\<dots> = content w" using act assms(3) by (auto simp: st(3) content_def)
  finally show "content (relink w x) = content w" .
  show "length (tw_nodes (relink w x)) = length (tw_nodes w)" using n(1) st(4) by simp
  show "tw_now_ms (relink w x) = tw_now_ms w" by (simp add: r st(5))
  show "y \<noteq> x \<Longrightarrow> tn_active (tw_nodes (relink w x) ! y) = tn_active (tw_nodes w ! y)"
    "y \<noteq> x \<Longrightarrow> tn_deadline_ms (tw_nodes (relink w x) ! y) = tn_deadline_ms (tw_nodes w ! y)"
    "y \<noteq> x \<Longrightarrow> tn_generation (tw_nodes (relink w x) ! y) = tn_generation (tw_nodes w ! y)"
    using n(5-7) st(6) by simp_all
qed

end
