(* ===== verification/TimerWheelTick.thy ===== *)
theory TimerWheelTick
  imports TimerWheelInv
begin

text \<open>
  One tick of the timer wheel: the loops over a taken list end within their fuel, the cascades keep the content,
  and the expiry loop fires exactly the timers that are due.
\<close>

section \<open>The loops\<close>

definition pending_ok :: "timer_wheel \<Rightarrow> nat set \<Rightarrow> nat list \<Rightarrow> bool" where
  "pending_ok w S ps \<longleftrightarrow>
     (\<forall>x\<in>set ps. tn_active (tw_nodes w ! x) \<and> tn_deadline_ms (tw_nodes w ! x) < U64_MAX \<and>
        tw_now_ms w \<le> tn_deadline_ms (tw_nodes w ! x) \<and> (tw_now_ms w < tn_deadline_ms (tw_nodes w ! x) \<or> 0 \<notin> S))"

lemma cascade_loop_inv:
  "wheel_inv w L (set ps) S \<Longrightarrow> distinct ps \<Longrightarrow> nchain (tw_nodes w) cur ps \<Longrightarrow> length ps \<le> n \<Longrightarrow> pending_ok w S ps \<Longrightarrow>
   \<exists>w' L'. cascade_loop n w cur = Some w' \<and> wheel_inv w' L' {} S \<and> content w' = content w \<and>
     tw_now_ms w' = tw_now_ms w \<and> length (tw_nodes w') = length (tw_nodes w)"
proof (induction ps arbitrary: w L n cur)
  case Nil
  then show ?case by auto
next
  case (Cons x ps)
  then obtain m where n: "n = Suc m" by (cases n) auto
  have cur: "cur = Some x" using Cons.prems(3) by simp
  have px: "tn_active (tw_nodes w ! x)" "tw_now_ms w \<le> tn_deadline_ms (tw_nodes w ! x)"
    "tw_now_ms w < tn_deadline_ms (tw_nodes w ! x) \<or> 0 \<notin> S" "tn_deadline_ms (tw_nodes w ! x) < U64_MAX"
    using Cons.prems(5) by (auto simp: pending_ok_def)
  note st = relink_step [OF Cons.prems(1-3) px]
  obtain L1 where inv: "wheel_inv (relink w x) L1 (set ps) S" using st(1) by blast
  have same: "tn_active (tw_nodes (relink w x) ! y) = tn_active (tw_nodes w ! y)"
    "tn_deadline_ms (tw_nodes (relink w x) ! y) = tn_deadline_ms (tw_nodes w ! y)" if "y \<in> set ps" for y
    using st(6,7) [of y] that Cons.prems(2) by auto
  have pend: "pending_ok (relink w x) S ps"
    using Cons.prems(5) st(5) same unfolding pending_ok_def by simp
  obtain w' L' where w': "cascade_loop m (relink w x) (tn_next (tw_nodes w ! x)) = Some w'" "wheel_inv w' L' {} S"
    "content w' = content (relink w x)" "tw_now_ms w' = tw_now_ms (relink w x)" "length (tw_nodes w') = length (tw_nodes (relink w x))"
    using Cons.IH [OF inv _ st(2) _ pend, of m] Cons.prems(2,4) n by auto
  have "cascade_loop n w cur = Some w'" using w'(1) by (simp add: n cur relink_def Let_def)
  then show ?case using w' st(3,4,5) by auto
qed

definition expiry_of :: "timer_wheel \<Rightarrow> nat \<Rightarrow> timer_expiry" where
  "expiry_of w x =
     \<lparr>te_owner = x, te_generation = tn_generation (tw_nodes w ! x), te_deadline_ms = tn_deadline_ms (tw_nodes w ! x)\<rparr>"

definition due :: "timer_wheel \<Rightarrow> nat \<Rightarrow> bool" where
  "due w x \<longleftrightarrow> tn_deadline_ms (tw_nodes w ! x) \<le> tw_now_ms w"

lemma pending_frame:
  assumes "tw_now_ms w' = tw_now_ms w"
    and "\<And>y. y \<in> set ps \<Longrightarrow> tn_active (tw_nodes w' ! y) = tn_active (tw_nodes w ! y)"
    and "\<And>y. y \<in> set ps \<Longrightarrow> tn_deadline_ms (tw_nodes w' ! y) = tn_deadline_ms (tw_nodes w ! y)"
    and "\<And>y. y \<in> set ps \<Longrightarrow> tn_generation (tw_nodes w' ! y) = tn_generation (tw_nodes w ! y)"
  shows "pending_ok w' S ps = pending_ok w S ps" "filter (due w') ps = filter (due w) ps"
    "map (expiry_of w') (filter (due w) ps) = map (expiry_of w) (filter (due w) ps)"
  using assms by (auto simp: pending_ok_def due_def expiry_of_def intro!: filter_cong)

lemma expire_loop_inv:
  "wheel_inv w L (set ps) S \<Longrightarrow> distinct ps \<Longrightarrow> nchain (tw_nodes w) cur ps \<Longrightarrow> length ps \<le> n \<Longrightarrow>
   pending_ok w {} ps \<Longrightarrow>
   \<exists>w' L'. expire_loop n w cur fired = Some (w', fired @ map (expiry_of w) (filter (due w) ps)) \<and> wheel_inv w' L' {} S \<and>
     content w' = content w |` (- set (filter (due w) ps)) \<and>
     tw_now_ms w' = tw_now_ms w \<and> length (tw_nodes w') = length (tw_nodes w)"
proof (induction ps arbitrary: w L n cur fired)
  case Nil
  then show ?case by auto
next
  case (Cons x ps)
  then obtain m where n: "n = Suc m" by (cases n) auto
  have cur: "cur = Some x" using Cons.prems(3) by simp
  have px: "tn_active (tw_nodes w ! x)" "tw_now_ms w \<le> tn_deadline_ms (tw_nodes w ! x)" "tn_deadline_ms (tw_nodes w ! x) < U64_MAX"
    using Cons.prems(5) by (auto simp: pending_ok_def)
  have xps: "x \<notin> set ps" using Cons.prems(2) by simp
  show ?case
  proof (cases "due w x")
    case True
    note st = clear_node_step [OF Cons.prems(1-3)]
    have same: "tw_nodes (clear_node w x) ! y = tw_nodes w ! y" if "y \<in> set ps" for y using st(6) [of y] that xps by blast
    have frame: "pending_ok (clear_node w x) S ps = pending_ok w S ps" "filter (due (clear_node w x)) ps = filter (due w) ps"
      "map (expiry_of (clear_node w x)) (filter (due w) ps) = map (expiry_of w) (filter (due w) ps)" for S
      by (rule pending_frame; simp add: same st(5))+
    have pend: "pending_ok (clear_node w x) {} ps" using Cons.prems(5) unfolding frame by (simp add: pending_ok_def)
    obtain w' L' where w': "expire_loop m (clear_node w x) (tn_next (tw_nodes w ! x)) (fired @ [expiry_of w x]) =
          Some (w', (fired @ [expiry_of w x]) @ map (expiry_of w) (filter (due w) ps))" "wheel_inv w' L' {} S"
      "content w' = content (clear_node w x) |` (- set (filter (due w) ps))" "tw_now_ms w' = tw_now_ms w"
      "length (tw_nodes w') = length (tw_nodes w)"
      using Cons.IH [OF st(1) _ st(2) _ pend, of m "fired @ [expiry_of w x]"] Cons.prems(2,4) n
      unfolding frame st(4,5) by auto
    have "expire_loop n w cur fired = Some (w', fired @ map (expiry_of w) (filter (due w) (x # ps)))"
      using w'(1) True by (simp add: n cur clear_node_def Let_def due_def expiry_of_def)
    moreover have "content w' = content w |` (- set (filter (due w) (x # ps)))"
      using True unfolding w'(3) st(3) by (auto simp: restrict_map_def fun_eq_iff)
    ultimately show ?thesis using w'(2,4,5) by blast
  next
    case False
    then have late: "tw_now_ms w < tn_deadline_ms (tw_nodes w ! x) \<or> 0 \<notin> S" by (simp add: due_def)
    note st = relink_step [OF Cons.prems(1-3) px(1,2) late px(3)]
    obtain L1 where inv: "wheel_inv (relink w x) L1 (set ps) S" using st(1) by blast
    have same: "tn_active (tw_nodes (relink w x) ! y) = tn_active (tw_nodes w ! y)"
      "tn_deadline_ms (tw_nodes (relink w x) ! y) = tn_deadline_ms (tw_nodes w ! y)"
      "tn_generation (tw_nodes (relink w x) ! y) = tn_generation (tw_nodes w ! y)" if "y \<in> set ps" for y
      using st(6,7,8) [of y] that xps by blast+
    have frame: "pending_ok (relink w x) S ps = pending_ok w S ps" "filter (due (relink w x)) ps = filter (due w) ps"
      "map (expiry_of (relink w x)) (filter (due w) ps) = map (expiry_of w) (filter (due w) ps)" for S
      by (rule pending_frame; simp add: same st(5))+
    have pend: "pending_ok (relink w x) {} ps" using Cons.prems(5) unfolding frame by (simp add: pending_ok_def)
    obtain w' L' where w': "expire_loop m (relink w x) (tn_next (tw_nodes w ! x)) fired =
          Some (w', fired @ map (expiry_of w) (filter (due w) ps))" "wheel_inv w' L' {} S"
      "content w' = content (relink w x) |` (- set (filter (due w) ps))" "tw_now_ms w' = tw_now_ms w"
      "length (tw_nodes w') = length (tw_nodes w)"
      using Cons.IH [OF inv _ st(2) _ pend, of m fired] Cons.prems(2,4) n unfolding frame st(4,5) by auto
    have "expire_loop n w cur fired = Some (w', fired @ map (expiry_of w) (filter (due w) (x # ps)))"
      using w'(1) False by (simp add: n cur relink_def Let_def due_def)
    moreover have "content w' = content w |` (- set (filter (due w) (x # ps)))"
      using False unfolding w'(3) st(3) by simp
    ultimately show ?thesis using w'(2,4,5) by blast
  qed
qed


section \<open>The earliest deadline\<close>

definition earliest_ok :: "timer_wheel \<Rightarrow> bool" where
  "earliest_ok w \<longleftrightarrow> tw_earliest_deadline_ms w = earliest_of w"

lemma refresh_earliest_fields [simp]:
  "tw_nodes (refresh_earliest w) = tw_nodes w" "tw_heads (refresh_earliest w) = tw_heads w"
  "tw_now_ms (refresh_earliest w) = tw_now_ms w" "tw_slot_deadlines (refresh_earliest w) = tw_slot_deadlines w"
  "tw_level_deadlines (refresh_earliest w) = tw_level_deadlines w"
  by (simp_all add: refresh_earliest_def Let_def)

lemma refresh_earliest_inv [simp]: "wheel_inv (refresh_earliest w) L P S = wheel_inv w L P S"
  by (simp add: wheel_inv_def lists_ok_def caches_ok_def place_ok_def)

lemma refresh_earliest_content [simp]: "content (refresh_earliest w) = content w"
  by (simp add: content_def fun_eq_iff)

lemma levels_ok_le: "levels_ok w \<Longrightarrow> tw_level_deadlines w l \<le> U64_MAX"
  by (simp add: levels_ok_def)

lemma refresh_earliest_ok: "levels_ok w \<Longrightarrow> earliest_ok (refresh_earliest w)"
proof -
  assume "levels_ok w"
  then have "iter_min_or U64_MAX (map (tw_level_deadlines w) [0..<LEVELS]) = mins (set (map (tw_level_deadlines w) [0..<LEVELS]))"
    using levels_ok_le by (intro iter_min_mins) (auto simp: LEVELS_def)
  moreover have "set (map (tw_level_deadlines w) [0..<LEVELS]) = tw_level_deadlines w ` {..<4}" by (auto simp: LEVELS_def)
  ultimately show ?thesis by (simp add: earliest_ok_def earliest_of_def refresh_earliest_def Let_def)
qed

lemma inv_levels_ok: "wheel_inv w L P S \<Longrightarrow> levels_ok w"
  using caches_levels_ok by (auto simp: wheel_inv_def)

section \<open>Cascades\<close>

lemma pending_of_slot:
  assumes "wheel_inv w L {} S" "256 ^ l dvd tw_now_ms w" "tw_nodes w' = tw_nodes w" "tw_now_ms w' = tw_now_ms w" "0 \<notin> S'"
  shows "pending_ok w' S' (L l s)"
proof -
  have "tn_active (tw_nodes w ! x) \<and> tn_deadline_ms (tw_nodes w ! x) < U64_MAX \<and> tw_now_ms w \<le> tn_deadline_ms (tw_nodes w ! x)"
    if x: "x \<in> set (L l s)" for x
  proof -
    have "node_at (tw_nodes w) l s x" using assms(1) x lists_ok_mem [of w L "{}" x l s] by (simp add: wheel_inv_def)
    moreover have p: "tn_deadline_ms (tw_nodes w ! x) < U64_MAX"
      "tw_now_ms w div 256 ^ l \<le> tn_deadline_ms (tw_nodes w ! x) div 256 ^ l"
      using assms(1) x unfolding wheel_inv_def place_ok_def by fastforce+
    moreover have "tw_now_ms w = tw_now_ms w div 256 ^ l * 256 ^ l" using assms(2) by simp
    then have "tw_now_ms w \<le> tn_deadline_ms (tw_nodes w ! x)"
      using p(2) by (metis div_times_less_eq_dividend mult_le_mono1 order_trans)
    ultimately show ?thesis by (simp add: node_at_def)
  qed
  then show ?thesis using assms(3-5) by (simp add: pending_ok_def)
qed

lemma wheel_cascade_inv:
  assumes "wheel_inv w L {} S" "0 \<notin> S" "0 < l" "256 ^ l dvd tw_now_ms w"
  shows "\<exists>w' L'. wheel_cascade l w = Some w' \<and> wheel_inv w' L' {} (insert l S) \<and> earliest_ok w' \<and> content w' = content w \<and>
    tw_now_ms w' = tw_now_ms w \<and> length (tw_nodes w') = length (tw_nodes w)"
proof -
  define s where "s = tw_now_ms w div 256 ^ l mod 256"
  obtain w1 cur where t: "take_slot l s w = (w1, cur)" by fastforce
  note tk = take_slot_inv [OF assms(1) s_def t]
  have dist: "distinct (L l s)" using assms(1) lists_ok_distinct by (auto simp: wheel_inv_def)
  have len: "length (L l s) \<le> length (tw_nodes w)" using nchain_length [OF tk(2) dist] by (simp add: tk(3))
  have pend: "pending_ok w1 (insert l S) (L l s)"
    using assms(2,3) by (intro pending_of_slot [OF assms(1,4) tk(3,4)]) auto
  obtain w2 L2 where w2: "cascade_loop (length (tw_nodes w)) w1 cur = Some w2" "wheel_inv w2 L2 {} (insert l S)"
    "content w2 = content w1" "tw_now_ms w2 = tw_now_ms w1" "length (tw_nodes w2) = length (tw_nodes w1)"
    using cascade_loop_inv [OF tk(1) dist tk(2) len pend] by blast
  have "wheel_cascade l w = Some (refresh_earliest w2)"
    using w2(1) t by (simp add: wheel_cascade_def shift_digits s_def [symmetric])
  moreover have "content w1 = content w" by (simp add: content_def fun_eq_iff tk(3))
  ultimately show ?thesis
    using w2 tk(3,4) refresh_earliest_ok [OF inv_levels_ok [OF w2(2)]] by auto
qed

text \<open>The conditional cascades of a tick leave every level above the lowest strictly ahead of the clock.\<close>

lemma cascade_if_inv:
  assumes "wheel_inv w L {} S" "earliest_ok w" "0 \<notin> S" "0 < l" "b \<longrightarrow> 256 ^ l dvd tw_now_ms w" "\<not> b \<longrightarrow> l \<in> S"
  shows "\<exists>w' L'. cascade_if b l w = Some w' \<and> wheel_inv w' L' {} (insert l S) \<and> earliest_ok w' \<and> content w' = content w \<and>
    tw_now_ms w' = tw_now_ms w \<and> length (tw_nodes w') = length (tw_nodes w)"
proof (cases b)
  case True
  then show ?thesis using wheel_cascade_inv [OF assms(1,3,4)] assms(5) by (simp add: cascade_if_def)
next
  case False
  then have "insert l S = S" using assms(6) by auto
  then show ?thesis using assms(1,2) False by (auto simp: cascade_if_def)
qed

lemma advance_now:
  assumes "wheel_inv w L {} UNIV"
  shows "wheel_inv (w\<lparr>tw_now_ms := tw_now_ms w + 1\<rparr>) L {} {l. \<not> 256 ^ l dvd tw_now_ms w + 1}"
proof -
  have "(tw_now_ms w + 1) div 256 ^ l = (if 256 ^ l dvd tw_now_ms w + 1 then tw_now_ms w div 256 ^ l + 1 else tw_now_ms w div 256 ^ l)" for l
    by (simp add: div_Suc dvd_eq_mod_eq_0)
  then show ?thesis using assms unfolding wheel_inv_def by (auto simp: lists_ok_def caches_ok_def place_ok_def)
qed


section \<open>A tick\<close>

type_synonym timers = "nat \<rightharpoonup> nat \<times> nat"

definition timer_expiries :: "timers \<Rightarrow> (nat \<Rightarrow> bool) \<Rightarrow> timer_expiry set" where
  "timer_expiries m P =
     {\<lparr>te_owner = x, te_generation = g, te_deadline_ms = d\<rparr> | x g d. m x = Some (g, d) \<and> P d}"

definition keep_after :: "nat \<Rightarrow> timers \<Rightarrow> timers" where
  "keep_after n m = (\<lambda>x. case m x of Some (g, d) \<Rightarrow> if n < d then Some (g, d) else None | None \<Rightarrow> None)"

lemma content_placed:
  assumes "wheel_inv w L {} S" "content w x = Some (g, d)"
  obtains l where "x \<in> set (L l (d div 256 ^ l mod 256))" "l < 4" "d = tn_deadline_ms (tw_nodes w ! x)"
    "tw_now_ms w div 256 ^ l + (if l \<in> S then 1 else 0) \<le> d div 256 ^ l" "d < U64_MAX"
proof -
  have x: "x < length (tw_nodes w)" "tn_active (tw_nodes w ! x)" "d = tn_deadline_ms (tw_nodes w ! x)"
    using assms(2) by (auto simp: content_def split: if_splits)
  have ok: "lists_ok w L {}" and p: "place_ok w L S" using assms(1) by (auto simp: wheel_inv_def)
  let ?l = "tn_level (tw_nodes w ! x)" and ?s = "tn_slot (tw_nodes w ! x)"
  have mem: "x \<in> set (L ?l ?s)" using lists_ok_active [OF ok x(1,2)] by simp
  note pl = p [unfolded place_ok_def, rule_format, OF mem, folded x(3)]
  show thesis by (rule that [of ?l]) (use mem pl x(3) in auto)
qed

lemma strict_div: "Suc (now div k) \<le> d div k \<Longrightarrow> now < d" for now d k :: nat
  by (metis Suc_eq_plus1 div_le_mono leD le_refl linorder_not_le not_less_eq_eq)

lemma content_future:
  assumes "wheel_inv w L {} UNIV" "content w x = Some (g, d)"
  shows "tw_now_ms w < d \<and> d < U64_MAX"
  by (rule content_placed [OF assms]) (auto dest: strict_div)

lemma content_due_slot:
  assumes inv: "wheel_inv w L {} S" and S: "{1, 2, 3} \<subseteq> S" and c: "content w x = Some (g, d)" "d \<le> tw_now_ms w"
  shows "x \<in> set (L 0 (tw_now_ms w mod 256)) \<and> d = tw_now_ms w"
  using inv c(1)
proof (rule content_placed)
  fix l assume l: "x \<in> set (L l (d div 256 ^ l mod 256))" "l < 4" "tw_now_ms w div 256 ^ l + (if l \<in> S then 1 else 0) \<le> d div 256 ^ l"
  have "l = 0"
  proof (rule ccontr)
    assume "l \<noteq> 0"
    then have "l \<in> S" using l(2) S by (auto simp: less_Suc_eq numeral_eq_Suc)
    then show False using l(3) strict_div [of "tw_now_ms w" "256 ^ l" d] c(2) by simp
  qed
  moreover from this have "d = tw_now_ms w" using l(3) c(2) by simp
  ultimately show ?thesis using l(1) by simp
qed

lemma slot_due_content:
  assumes inv: "wheel_inv w L {} S" and S: "{1, 2, 3} \<subseteq> S" and n: "tw_nodes w1 = tw_nodes w" "tw_now_ms w1 = tw_now_ms w"
  shows "x \<in> set (filter (due w1) (L 0 (tw_now_ms w mod 256))) \<longleftrightarrow> (\<exists>g d. content w x = Some (g, d) \<and> d \<le> tw_now_ms w)"
proof
  let ?s = "tw_now_ms w mod 256"
  assume x: "x \<in> set (filter (due w1) (L 0 ?s))"
  have "lists_ok w L {}" using inv by (simp add: wheel_inv_def)
  then have "node_at (tw_nodes w) 0 ?s x" using lists_ok_mem [of w L "{}" x 0 ?s] x by simp
  then show "\<exists>g d. content w x = Some (g, d) \<and> d \<le> tw_now_ms w" using x by (simp add: node_at_def content_def due_def n)
next
  assume "\<exists>g d. content w x = Some (g, d) \<and> d \<le> tw_now_ms w"
  then obtain g d where c: "content w x = Some (g, d)" "d \<le> tw_now_ms w" by blast
  then have "tn_deadline_ms (tw_nodes w ! x) \<le> tw_now_ms w" by (auto simp: content_def split: if_splits)
  then show "x \<in> set (filter (due w1) (L 0 (tw_now_ms w mod 256)))" using content_due_slot [OF inv S c] by (simp add: due_def n)
qed

lemma strict_everywhere:
  assumes "wheel_inv w L {} (insert 0 S)" "{1, 2, 3} \<subseteq> S"
  shows "wheel_inv w L {} UNIV"
proof -
  have pl: "place_ok w L (insert 0 S)" using assms(1) by (simp add: wheel_inv_def)
  have "l \<in> insert 0 S" if "x \<in> set (L l t)" for l t x
  proof -
    have "l < 4" using pl that unfolding place_ok_def by blast
    then show ?thesis using assms(2) by (auto simp: less_Suc_eq numeral_eq_Suc)
  qed
  then have "tw_now_ms w div 256 ^ l + 1 \<le> tn_deadline_ms (tw_nodes w ! x) div 256 ^ l" if "x \<in> set (L l t)" for l t x
    using pl [unfolded place_ok_def, rule_format, OF that] that by (simp only: if_True simp_thms)
  then have "place_ok w L UNIV" using pl unfolding place_ok_def by (simp only: UNIV_I if_True) blast
  then show ?thesis using assms(1) by (simp add: wheel_inv_def)
qed

lemma empty_slot_earliest:
  assumes inv: "wheel_inv w L {} S" "earliest_ok w" and "L l s = []"
    and w1: "levels_ok w1" "tw_slot_deadlines w1 = upd2 (tw_slot_deadlines w) l s U64_MAX"
      "tw_earliest_deadline_ms w1 = tw_earliest_deadline_ms w"
  shows "earliest_ok w1"
proof -
  have "tw_slot_deadlines w l s = U64_MAX" using inv(1) assms(3) by (simp add: wheel_inv_def caches_ok_def)
  then have slots: "tw_slot_deadlines w1 = tw_slot_deadlines w" unfolding w1(2) by (metis fun_upd_triv upd2_def)
  have "tw_level_deadlines w1 = tw_level_deadlines w"
    using inv_levels_ok [OF inv(1)] w1(1) by (simp add: levels_ok_def slots fun_eq_iff)
  then show ?thesis using inv(2) by (simp add: earliest_ok_def earliest_of_def w1(3))
qed

lemma expire_slot:
  assumes inv: "wheel_inv w L {} S" and S: "{1, 2, 3} \<subseteq> S" and e: "earliest_ok w"
    and t: "take_slot 0 (tw_now_ms w mod 256) w = (w1, cur)"
  shows "\<exists>w' L' xs. expire_loop (length (tw_nodes w1)) w1 cur fired = Some (w', fired @ xs) \<and> wheel_inv w' L' {} UNIV \<and>
    content w' = keep_after (tw_now_ms w) (content w) \<and> tw_now_ms w' = tw_now_ms w \<and> length (tw_nodes w') = length (tw_nodes w) \<and>
    distinct xs \<and> set xs = timer_expiries (content w) (\<lambda>d. d = tw_now_ms w) \<and> (cur = None \<longrightarrow> earliest_ok w')"
proof -
  define s where "s = tw_now_ms w mod 256"
  have s0: "s = tw_now_ms w div 256 ^ 0 mod 256" by (simp add: s_def)
  note tk = take_slot_inv [OF inv s0 t [folded s_def]]
  have dist: "distinct (L 0 s)" using inv lists_ok_distinct by (auto simp: wheel_inv_def)
  have len: "length (L 0 s) \<le> length (tw_nodes w1)" by (rule nchain_length [OF tk(2) dist])
  have pend: "pending_ok w1 {} (L 0 s)" by (rule pending_of_slot [OF inv _ tk(3,4)]) auto
  let ?due = "filter (due w1) (L 0 s)"
  obtain w' L' where w': "expire_loop (length (tw_nodes w1)) w1 cur fired = Some (w', fired @ map (expiry_of w1) ?due)"
    "wheel_inv w' L' {} (insert 0 S)" "content w' = content w1 |` (- set ?due)" "tw_now_ms w' = tw_now_ms w1"
    "length (tw_nodes w') = length (tw_nodes w1)"
    using expire_loop_inv [OF tk(1) dist tk(2) len pend] by blast
  have cw: "content w1 = content w" by (simp add: content_def fun_eq_iff tk(3))
  note due = slot_due_content [OF inv S tk(3,4), folded s_def]
  have "content w' x = keep_after (tw_now_ms w) (content w) x" for x
    using due [of x] unfolding w'(3) cw
    by (cases "content w x") (auto simp: keep_after_def restrict_map_def simp del: set_filter)
  then have keep: "content w' = keep_after (tw_now_ms w) (content w)" ..
  have ex: "expiry_of w1 x = \<lparr>te_owner = x, te_generation = g, te_deadline_ms = d\<rparr>" if "content w x = Some (g, d)" for x g d
    using that by (auto simp: expiry_of_def content_def tk(3) split: if_splits)
  have "set (map (expiry_of w1) ?due) = {\<lparr>te_owner = x, te_generation = g, te_deadline_ms = d\<rparr> | x g d. content w x = Some (g, d) \<and> d \<le> tw_now_ms w}"
    unfolding set_map using due ex by (auto simp: image_iff simp del: set_filter) metis+
  moreover have "content w x = Some (g, d) \<and> d \<le> tw_now_ms w \<longleftrightarrow> content w x = Some (g, d) \<and> d = tw_now_ms w" for x g d
    using content_due_slot [OF inv S] by auto
  ultimately have fired: "set (map (expiry_of w1) ?due) = timer_expiries (content w) (\<lambda>d. d = tw_now_ms w)"
    by (simp add: timer_expiries_def)
  have "distinct (map (expiry_of w1) ?due)" using dist by (auto simp: distinct_map inj_on_def expiry_of_def)
  moreover have "earliest_ok w'" if "cur = None"
  proof -
    have "L 0 s = []" using tk(2) that by (cases "L 0 s") auto
    then have "earliest_ok w1" by (rule empty_slot_earliest [OF inv e _ inv_levels_ok [OF tk(1)] tk(6,5)])
    moreover have "w' = w1" using w'(1) that by simp
    ultimately show ?thesis by simp
  qed
  ultimately show ?thesis using w'(1,4,5) tk(3,4) keep fired strict_everywhere [OF w'(2) S] by auto
qed

lemma dvd_mod_power: "256 ^ l dvd n \<longleftrightarrow> n mod 2 ^ (l * 8) = 0" for n :: nat
  by (simp add: shift_digits dvd_eq_mod_eq_0)

theorem wheel_tick_correct:
  assumes inv: "wheel_inv w L {} UNIV" and e: "earliest_ok w"
  shows "\<exists>w' L' xs. wheel_tick w fired = Some (w', fired @ xs) \<and> wheel_inv w' L' {} UNIV \<and> earliest_ok w' \<and>
    content w' = keep_after (tw_now_ms w + 1) (content w) \<and> tw_now_ms w' = tw_now_ms w + 1 \<and>
    length (tw_nodes w') = length (tw_nodes w) \<and> distinct xs \<and> set xs = timer_expiries (content w) (\<lambda>d. d = tw_now_ms w + 1)"
proof -
  define n where "n = tw_now_ms w + 1"
  define w0 where "w0 = w\<lparr>tw_now_ms := n\<rparr>"
  define S where "S = {l. \<not> 256 ^ l dvd n}"
  define b1 b2 b3 where "b1 = (n mod 2 ^ 8 = 0)" and "b2 = (b1 \<and> n mod 2 ^ 16 = 0)" and "b3 = (b2 \<and> n mod 2 ^ 24 = 0)"
  have inv0: "wheel_inv w0 L {} S" using advance_now [OF inv] by (simp add: w0_def n_def S_def)
  have e0: "earliest_ok w0" using e by (simp add: earliest_ok_def earliest_of_def w0_def)
  have S0: "0 \<notin> S" by (simp add: S_def)
  have up: "256 ^ j dvd n" if "256 ^ k dvd n" "j \<le> k" for j k using that le_imp_power_dvd dvd_trans by blast
  have d: "256 ^ 1 dvd n \<longleftrightarrow> n mod 2 ^ 8 = 0" "256 ^ 2 dvd n \<longleftrightarrow> n mod 2 ^ 16 = 0" "256 ^ 3 dvd n \<longleftrightarrow> n mod 2 ^ 24 = 0"
    using dvd_mod_power [of 1 n] dvd_mod_power [of 2 n] dvd_mod_power [of 3 n] by simp_all
  have b: "b1 \<longleftrightarrow> 256 ^ 1 dvd n" "b2 \<longleftrightarrow> 256 ^ 2 dvd n" "b3 \<longleftrightarrow> 256 ^ 3 dvd n"
    unfolding b3_def b2_def b1_def d [symmetric] using up [of 2 1] up [of 3 2] by auto
  obtain w1 L1 where w1: "cascade_if b1 1 w0 = Some w1" "wheel_inv w1 L1 {} (insert 1 S)" "earliest_ok w1"
    "content w1 = content w0" "tw_now_ms w1 = n" "length (tw_nodes w1) = length (tw_nodes w0)"
    using cascade_if_inv [OF inv0 e0 S0, of 1 b1] b(1) by (auto simp: w0_def S_def)
  obtain w2 L2 where w2: "cascade_if b2 2 w1 = Some w2" "wheel_inv w2 L2 {} (insert 2 (insert 1 S))" "earliest_ok w2"
    "content w2 = content w1" "tw_now_ms w2 = n" "length (tw_nodes w2) = length (tw_nodes w1)"
    using cascade_if_inv [OF w1(2,3), of 2 b2] b(2) S0 by (auto simp: w1(5) S_def)
  obtain w3 L3 where w3: "cascade_if b3 3 w2 = Some w3" "wheel_inv w3 L3 {} (insert 3 (insert 2 (insert 1 S)))" "earliest_ok w3"
    "content w3 = content w2" "tw_now_ms w3 = n" "length (tw_nodes w3) = length (tw_nodes w2)"
    using cascade_if_inv [OF w2(2,3), of 3 b3] b(3) S0 by (auto simp: w2(5) S_def)
  obtain w4 cur where t: "take_slot 0 (tw_now_ms w3 mod 256) w3 = (w4, cur)" by fastforce
  obtain w5 L5 xs where w5: "expire_loop (length (tw_nodes w4)) w4 cur fired = Some (w5, fired @ xs)" "wheel_inv w5 L5 {} UNIV"
    "content w5 = keep_after n (content w3)" "tw_now_ms w5 = n" "length (tw_nodes w5) = length (tw_nodes w3)"
    "distinct xs" "set xs = timer_expiries (content w3) (\<lambda>d. d = n)" "cur = None \<longrightarrow> earliest_ok w5"
    using expire_slot [OF w3(2) _ w3(3) t, of fired] unfolding w3(5) by blast
  define w6 where "w6 = (if cur \<noteq> None then refresh_earliest w5 else w5)"
  have now0: "tw_now_ms w0 = n" by (simp add: w0_def)
  have tick: "wheel_tick w fired = Some (w6, fired @ xs)"
    unfolding wheel_tick_def Let_def n_def [symmetric] w0_def [symmetric] now0 b1_def [symmetric] b2_def [symmetric]
      b3_def [symmetric] w1(1) Option.bind.simps w2(1) w3(1) t prod.case w5(1) option.map w6_def ..
  have c: "content w3 = content w" using w3(4) w2(4) w1(4) by (simp add: w0_def content_def fun_eq_iff)
  have "timer_expiries (content w3) (\<lambda>d. d = n) = timer_expiries (content w) (\<lambda>d. d = n)" by (simp add: c)
  moreover have "wheel_inv w6 L5 {} UNIV" "content w6 = content w5" "tw_now_ms w6 = n" "tw_nodes w6 = tw_nodes w5"
    using w5(2,4) by (simp_all add: w6_def)
  moreover have "earliest_ok w6" using w5(8) refresh_earliest_ok [OF inv_levels_ok [OF w5(2)]] by (simp add: w6_def)
  moreover have "length (tw_nodes w5) = length (tw_nodes w)" using w5(5) w3(6) w2(6) w1(6) by (simp add: w0_def)
  ultimately show ?thesis using tick w5(3,6,7) c unfolding n_def by auto
qed

end
