(* ===== verification/TimerWheelCancel.thy ===== *)
theory TimerWheelCancel
  imports TimerWheelTick
begin

text \<open>
  Unlinking a node from its slot: the remaining list, the caches, and the earliest deadline. From it follow
  cancelling, scheduling, and that the next deadline is the least one of all active timers.
\<close>

section \<open>Unlinking\<close>

definition unlink_nodes :: "timer_node list \<Rightarrow> timer_node \<Rightarrow> timer_node list" where
  "unlink_nodes ns node =
     (let ns1 = (case tn_previous node of Some p \<Rightarrow> ns[p := (ns ! p)\<lparr>tn_next := tn_next node\<rparr>] | None \<Rightarrow> ns)
      in case tn_next node of Some n \<Rightarrow> ns1[n := (ns1 ! n)\<lparr>tn_previous := tn_previous node\<rparr>] | None \<Rightarrow> ns1)"

lemma wheel_unlink_eq:
  "wheel_unlink w node =
     w\<lparr>tw_nodes := unlink_nodes (tw_nodes w) node,
       tw_heads := (if tn_previous node = None then upd2 (tw_heads w) (tn_level node) (tn_slot node) (tn_next node) else tw_heads w)\<rparr>"
  by (cases "tn_previous node"; cases "tn_next node") (simp_all add: wheel_unlink_def unlink_nodes_def Let_def)

lemma update_nth_field:
  "(f (x\<lparr>tn_next := v\<rparr>) = f x) \<Longrightarrow> x = ns ! p \<Longrightarrow> f (ns[p := x\<lparr>tn_next := v\<rparr>] ! y) = f (ns ! y)"
  "(f (x\<lparr>tn_previous := v\<rparr>) = f x) \<Longrightarrow> x = ns ! p \<Longrightarrow> f (ns[p := x\<lparr>tn_previous := v\<rparr>] ! y) = f (ns ! y)"
  by (cases "y = p"; cases "p < length ns"; simp add: list_update_beyond)+

lemma unlink_nodes_field:
  assumes "\<And>z v. f (z\<lparr>tn_next := v\<rparr>) = f z" "\<And>z v. f (z\<lparr>tn_previous := v\<rparr>) = f z"
  shows "f (unlink_nodes ns node ! y) = f (ns ! y)"
  unfolding unlink_nodes_def Let_def
  by (cases "tn_previous node"; cases "tn_next node") (simp_all add: update_nth_field assms)

lemma unlink_nodes_length [simp]: "length (unlink_nodes ns node) = length ns"
  by (cases "tn_previous node"; cases "tn_next node") (simp_all add: unlink_nodes_def Let_def)

lemma unlink_nodes_next:
  assumes "y < length ns"
  shows "tn_next (unlink_nodes ns node ! y) = (if tn_previous node = Some y then tn_next node else tn_next (ns ! y))"
proof -
  define ns1 where "ns1 = (case tn_previous node of Some p \<Rightarrow> ns[p := (ns ! p)\<lparr>tn_next := tn_next node\<rparr>] | None \<Rightarrow> ns)"
  have "tn_next (unlink_nodes ns node ! y) = tn_next (ns1 ! y)"
    unfolding unlink_nodes_def Let_def ns1_def [symmetric] by (cases "tn_next node") (simp_all add: update_nth_field)
  also have "\<dots> = (if tn_previous node = Some y then tn_next node else tn_next (ns ! y))"
    using assms by (cases "tn_previous node") (auto simp: ns1_def nth_list_update)
  finally show ?thesis .
qed

lemma unlink_nodes_previous:
  assumes "y < length ns"
  shows "tn_previous (unlink_nodes ns node ! y) = (if tn_next node = Some y then tn_previous node else tn_previous (ns ! y))"
proof -
  define ns1 where "ns1 = (case tn_previous node of Some p \<Rightarrow> ns[p := (ns ! p)\<lparr>tn_next := tn_next node\<rparr>] | None \<Rightarrow> ns)"
  have "tn_previous (ns1 ! y) = tn_previous (ns ! y)" "length ns1 = length ns"
    unfolding ns1_def by (cases "tn_previous node"; simp add: update_nth_field)+
  then show ?thesis
    using assms unfolding unlink_nodes_def Let_def ns1_def [symmetric]
    by (cases "tn_next node") (auto simp: nth_list_update)
qed

lemma dchain_at:
  "dchain ns pr cur (xs @ x # ys) \<Longrightarrow>
   tn_previous (ns ! x) = (if xs = [] then pr else Some (last xs)) \<and>
   tn_next (ns ! x) = (if ys = [] then None else Some (hd ys)) \<and> x < length ns"
proof (induction xs arbitrary: pr cur)
  case Nil
  then show ?case by (cases ys) auto
next
  case (Cons a xs)
  then have "dchain ns (Some a) (tn_next (ns ! a)) (xs @ x # ys)" by simp
  from Cons.IH [OF this] show ?case by simp
qed

lemma dchain_in_range: "dchain ns pr cur xs \<Longrightarrow> y \<in> set xs \<Longrightarrow> y < length ns"
  by (induction xs arbitrary: pr cur) auto

lemma dchain_links:
  "dchain ns pr cur xs \<Longrightarrow> length ns' = length ns \<Longrightarrow>
   (\<And>y. y \<in> set xs \<Longrightarrow> tn_previous (ns' ! y) = tn_previous (ns ! y)) \<Longrightarrow>
   (\<And>y. y \<in> set xs \<Longrightarrow> tn_next (ns' ! y) = tn_next (ns ! y)) \<Longrightarrow> dchain ns' pr cur xs"
  by (induction xs arbitrary: pr cur) auto

lemma dchain_unlink:
  assumes "dchain ns pr cur (xs @ x # ys)" "distinct (xs @ x # ys)" "length ns' = length ns"
    and "\<And>y. y \<in> set xs \<union> set ys \<Longrightarrow> tn_previous (ns' ! y) =
      (if ys \<noteq> [] \<and> y = hd ys then (if xs = [] then pr else Some (last xs)) else tn_previous (ns ! y))"
    and "\<And>y. y \<in> set xs \<union> set ys \<Longrightarrow> tn_next (ns' ! y) =
      (if xs \<noteq> [] \<and> y = last xs then tn_next (ns ! x) else tn_next (ns ! y))"
  shows "dchain ns' pr (if xs = [] then tn_next (ns ! x) else cur) (xs @ ys)"
  using assms
proof (induction xs arbitrary: pr cur)
  case Nil
  show ?case
  proof (cases ys)
    case Nil
    then show ?thesis using \<open>dchain ns pr cur ([] @ x # ys)\<close> by simp
  next
    case ys: (Cons b zs)
    then have b: "tn_next (ns ! x) = Some b" "b < length ns" "dchain ns (Some b) (tn_next (ns ! b)) zs" "b \<notin> set zs"
      using Nil.prems(1,2) by auto
    have "tn_previous (ns' ! y) = tn_previous (ns ! y)" "tn_next (ns' ! y) = tn_next (ns ! y)" if "y \<in> set zs" for y
      using Nil.prems(4,5) [of y] that b(4) ys by auto
    then have "dchain ns' (Some b) (tn_next (ns ! b)) zs" using dchain_links [OF b(3) Nil.prems(3)] by blast
    moreover have "tn_previous (ns' ! b) = pr" "tn_next (ns' ! b) = tn_next (ns ! b)"
      using Nil.prems(4,5) [of b] ys by auto
    ultimately show ?thesis using ys b Nil.prems(3) by simp
  qed
next
  case (Cons a xs)
  have a: "cur = Some a" "a < length ns" "tn_previous (ns ! a) = pr" "dchain ns (Some a) (tn_next (ns ! a)) (xs @ x # ys)"
    using Cons.prems(1) by auto
  have IH: "dchain ns' (Some a) (if xs = [] then tn_next (ns ! x) else tn_next (ns ! a)) (xs @ ys)"
  proof (rule Cons.IH [OF a(4)])
    show "distinct (xs @ x # ys)" "length ns' = length ns" using Cons.prems(2,3) by auto
    show "tn_previous (ns' ! y) = (if ys \<noteq> [] \<and> y = hd ys then (if xs = [] then Some a else Some (last xs)) else tn_previous (ns ! y))"
      if "y \<in> set xs \<union> set ys" for y using Cons.prems(4) [of y] that by auto
    show "tn_next (ns' ! y) = (if xs \<noteq> [] \<and> y = last xs then tn_next (ns ! x) else tn_next (ns ! y))"
      if "y \<in> set xs \<union> set ys" for y
      using Cons.prems(5) [of y] that Cons.prems(2) by (cases "xs = []") auto
  qed
  have "\<not> (ys \<noteq> [] \<and> a = hd ys)" using Cons.prems(2) by (cases ys) auto
  then have "tn_previous (ns' ! a) = pr" using Cons.prems(4) [of a] a(3) by auto
  moreover have "tn_next (ns' ! a) = (if xs = [] then tn_next (ns ! x) else tn_next (ns ! a))"
  proof (cases "xs = []")
    case False
    then have "a \<noteq> last xs" using Cons.prems(2) last_in_set by fastforce
    then show ?thesis using False Cons.prems(5) [of a] by auto
  qed (use Cons.prems(5) [of a] in auto)
  ultimately show ?case using a IH Cons.prems(3) by simp
qed


section \<open>All deadlines\<close>

lemma mins_union: "finite X \<Longrightarrow> finite Y \<Longrightarrow> mins (X \<union> Y) = min (mins X) (mins Y)"
  by (induction X rule: finite_induct) (simp_all add: min.assoc)

lemma mins_UN:
  assumes "finite A" "\<And>i. i \<in> A \<Longrightarrow> finite (F i)"
  shows "mins ((\<lambda>i. mins (F i)) ` A) = mins (\<Union>i\<in>A. F i)"
  using assms by (induction A rule: finite_induct) (simp_all add: mins_union)

definition all_deadlines :: "timer_wheel \<Rightarrow> slot_lists \<Rightarrow> nat set" where
  "all_deadlines w L = (\<Union>l\<in>{..<4}. \<Union>s\<in>{..<256}. (\<lambda>x. tn_deadline_ms (tw_nodes w ! x)) ` set (L l s))"

lemma all_deadlines_mins:
  assumes "caches_ok w L"
  shows "mins (tw_level_deadlines w ` {..<4}) = mins (all_deadlines w L)"
proof -
  have "tw_level_deadlines w l = mins (\<Union>s\<in>{..<256}. (\<lambda>x. tn_deadline_ms (tw_nodes w ! x)) ` set (L l s))" for l
  proof -
    have "tw_level_deadlines w l = mins ((\<lambda>s. mins ((\<lambda>x. tn_deadline_ms (tw_nodes w ! x)) ` set (L l s))) ` {..<256})"
      using assms by (simp add: caches_ok_def)
    also have "\<dots> = mins (\<Union>s\<in>{..<256}. (\<lambda>x. tn_deadline_ms (tw_nodes w ! x)) ` set (L l s))"
      by (rule mins_UN) simp_all
    finally show ?thesis .
  qed
  then show ?thesis unfolding all_deadlines_def by (simp add: mins_UN)
qed

lemma all_deadlines_finite [simp]: "finite (all_deadlines w L)"
  by (simp add: all_deadlines_def)

lemma all_deadlines_remove:
  assumes "L l s = xs @ x # ys" "l < 4" "s < 256" "\<And>y. tn_deadline_ms (tw_nodes w' ! y) = tn_deadline_ms (tw_nodes w ! y)"
  shows "all_deadlines w L = insert (tn_deadline_ms (tw_nodes w ! x)) (all_deadlines w' (upd2 L l s (xs @ ys)))"
proof -
  let ?d = "\<lambda>x. tn_deadline_ms (tw_nodes w ! x)"
  have mem: "e \<in> all_deadlines w M \<longleftrightarrow> (\<exists>a<4. \<exists>b<256. \<exists>y\<in>set (M a b). e = ?d y)" for e M
    by (auto simp: all_deadlines_def)
  have mem': "e \<in> all_deadlines w' M \<longleftrightarrow> (\<exists>a<4. \<exists>b<256. \<exists>y\<in>set (M a b). e = ?d y)" for e M
    by (auto simp: all_deadlines_def assms(4))
  have sets: "set (L a b) = (if a = l \<and> b = s then insert x (set (xs @ ys)) else set (upd2 L l s (xs @ ys) a b))" for a b
    using assms(1) by auto
  show ?thesis
  proof (intro set_eqI iffI)
    fix e assume "e \<in> all_deadlines w L"
    then obtain a b y where e: "a < 4" "b < 256" "y \<in> set (L a b)" "e = ?d y" unfolding mem by blast
    then have "y = x \<or> y \<in> set (upd2 L l s (xs @ ys) a b)" using sets [of a b] by (auto split: if_splits)
    then show "e \<in> insert (?d x) (all_deadlines w' (upd2 L l s (xs @ ys)))"
      unfolding insert_iff mem' using e by blast
  next
    fix e assume "e \<in> insert (?d x) (all_deadlines w' (upd2 L l s (xs @ ys)))"
    then consider "e = ?d x" | a b y where "a < 4" "b < 256" "y \<in> set (upd2 L l s (xs @ ys) a b)" "e = ?d y"
      unfolding insert_iff mem' by blast
    then show "e \<in> all_deadlines w L"
    proof cases
      case 1
      then show ?thesis unfolding mem using assms(1-3) by fastforce
    next
      case 2
      then have "y \<in> set (L a b)" using sets [of a b] by (auto split: if_splits)
      then show ?thesis unfolding mem using 2 by blast
    qed
  qed
qed

section \<open>Refreshing a slot\<close>

lemma min_deadline_loop_eq:
  "nchain ns cur xs \<Longrightarrow> length xs \<le> n \<Longrightarrow>
   min_deadline_loop n ns d cur = Some (foldl min d (map (\<lambda>x. tn_deadline_ms (ns ! x)) xs))"
proof (induction xs arbitrary: n d cur)
  case (Cons x xs)
  then show ?case by (cases n) auto
qed simp

lemma foldl_min_mins: "d \<le> U64_MAX \<Longrightarrow> foldl min d xs = min d (mins (set xs))"
proof -
  assume "d \<le> U64_MAX"
  then have du: "min d U64_MAX = d" by simp
  show ?thesis
  proof (cases "xs = []")
    case True
    then show ?thesis by (simp add: du)
  next
    case False
    then have "mins (set xs) = min U64_MAX (Min (set xs))" "Min (insert d (set xs)) = min d (Min (set xs))"
      by (simp_all add: mins_def)
    then show ?thesis by (simp only: foldl_min list.set min.assoc [symmetric] du)
  qed
qed

lemma refresh_slot_eq:
  assumes "nchain (tw_nodes w) (tw_heads w l s) xs" "distinct xs"
  shows "refresh_slot_deadline l s w =
    Some (set_slot_deadline l s (mins ((\<lambda>x. tn_deadline_ms (tw_nodes w ! x)) ` set xs)) w)"
proof -
  have "min_deadline_loop (length (tw_nodes w)) (tw_nodes w) U64_MAX (tw_heads w l s) =
      Some (mins ((\<lambda>x. tn_deadline_ms (tw_nodes w ! x)) ` set xs))"
    using min_deadline_loop_eq [OF assms(1) nchain_length [OF assms], of U64_MAX]
    by (simp add: foldl_min_mins min_absorb2)
  then show ?thesis by (simp add: refresh_slot_deadline_def set_slot_deadline_def Let_def)
qed


section \<open>Detaching a node\<close>

lemma unlink_slot_chain:
  assumes chain: "dchain ns None h (xs @ x # ys)" and dist: "distinct (xs @ x # ys)"
  shows "dchain (unlink_nodes ns (ns ! x)) None (if xs = [] then tn_next (ns ! x) else h) (xs @ ys)"
proof (rule dchain_unlink [OF chain dist])
  have prev: "tn_previous (ns ! x) = (if xs = [] then None else Some (last xs))"
    and nxt: "tn_next (ns ! x) = (if ys = [] then None else Some (hd ys))" using dchain_at [OF chain] by blast+
  show "length (unlink_nodes ns (ns ! x)) = length ns" by simp
  fix y assume "y \<in> set xs \<union> set ys"
  then have y: "y < length ns" using dchain_in_range [OF chain, of y] by auto
  show "tn_previous (unlink_nodes ns (ns ! x) ! y) =
      (if ys \<noteq> [] \<and> y = hd ys then (if xs = [] then None else Some (last xs)) else tn_previous (ns ! y))"
    unfolding unlink_nodes_previous [OF y] prev nxt by auto
  show "tn_next (unlink_nodes ns (ns ! x) ! y) = (if xs \<noteq> [] \<and> y = last xs then tn_next (ns ! x) else tn_next (ns ! y))"
    unfolding unlink_nodes_next [OF y] prev by auto
qed

lemma unlink_other_chain:
  assumes chain: "dchain ns None h zs" and away: "\<And>y. y \<in> set zs \<Longrightarrow> tn_previous node \<noteq> Some y \<and> tn_next node \<noteq> Some y"
  shows "dchain (unlink_nodes ns node) None h zs"
proof (rule dchain_links [OF chain])
  show "tn_previous (unlink_nodes ns node ! y) = tn_previous (ns ! y)" "tn_next (unlink_nodes ns node ! y) = tn_next (ns ! y)"
    if "y \<in> set zs" for y
    using away [OF that] dchain_in_range [OF chain that] by (simp_all add: unlink_nodes_previous unlink_nodes_next)
qed simp

lemmas unlink_fields =
  unlink_nodes_field [of tn_active, simplified] unlink_nodes_field [of tn_level, simplified]
  unlink_nodes_field [of tn_slot, simplified] unlink_nodes_field [of tn_deadline_ms, simplified]
  unlink_nodes_field [of tn_generation, simplified]

lemma unlink_lists_ok:
  assumes ok: "lists_ok w L {}" and L: "L l s = xs @ x # ys"
  shows "lists_ok (wheel_unlink w (tw_nodes w ! x)) (upd2 L l s (xs @ ys)) {x}"
proof -
  define ns where "ns = tw_nodes w"
  define node where "node = ns ! x"
  define ns' where "ns' = unlink_nodes ns node"
  have mem: "x \<in> set (L l s)" using L by simp
  have at: "tn_level node = l" "tn_slot node = s" using lists_ok_mem [OF ok mem] by (simp_all add: node_at_def node_def ns_def)
  have chain: "dchain ns None (tw_heads w l s) (xs @ x # ys)" using lists_ok_chain [OF ok, of l s] L by (simp add: ns_def)
  have dist: "distinct (xs @ x # ys)" using lists_ok_distinct [OF ok, of l s] L by simp
  have prev: "tn_previous node = (if xs = [] then None else Some (last xs))"
    and nxt: "tn_next node = (if ys = [] then None else Some (hd ys))"
    using dchain_at [OF chain] by (simp_all add: node_def)
  define h where "h a b = (if a = l \<and> b = s then (if xs = [] then tn_next node else tw_heads w l s) else tw_heads w a b)" for a b
  have w': "tw_nodes (wheel_unlink w (tw_nodes w ! x)) = ns'" "tw_heads (wheel_unlink w (tw_nodes w ! x)) a b = h a b" for a b
    unfolding ns_def [symmetric] node_def [symmetric] wheel_unlink_eq at ns'_def h_def
    by (cases "xs = []"; simp add: ns_def prev)+
  have sub: "set (upd2 L l s (xs @ ys) a b) = set (L a b) - {x}" for a b
  proof (cases "a = l \<and> b = s")
    case True
    then show ?thesis using L dist by auto
  next
    case False
    then have "x \<notin> set (L a b)" using lists_ok_apart [OF ok mem, of a b] by blast
    then show ?thesis using False by auto
  qed
  have other: "dchain ns' None (tw_heads w a b) (L a b)" if ne: "\<not> (a = l \<and> b = s)" for a b
    unfolding ns'_def
  proof (rule unlink_other_chain [OF lists_ok_chain [OF ok, of a b, folded ns_def]])
    fix y assume "y \<in> set (L a b)"
    then have "y \<notin> set (L l s)" using lists_ok_apart [OF ok, of y a b l s] ne by blast
    then show "tn_previous node \<noteq> Some y \<and> tn_next node \<noteq> Some y" unfolding prev nxt L by auto
  qed
  have "dchain ns' None (h a b) (upd2 L l s (xs @ ys) a b)" for a b
    using unlink_slot_chain [OF chain dist, folded node_def ns'_def] other [of a b] by (cases "a = l \<and> b = s") (auto simp: h_def)
  moreover have "distinct (upd2 L l s (xs @ ys) a b)" for a b using dist lists_ok_distinct [OF ok, of a b] by simp
  moreover have "node_at ns' a b y \<and> y \<notin> {x}" if "y \<in> set (upd2 L l s (xs @ ys) a b)" for a b y
    using that lists_ok_mem [OF ok, of y a b] unfolding sub by (simp add: node_at_def ns'_def unlink_fields ns_def)
  moreover have "y \<in> {x} \<or> y \<in> set (upd2 L l s (xs @ ys) (tn_level (ns' ! y)) (tn_slot (ns' ! y)))"
    if "y < length ns'" "tn_active (ns' ! y)" for y
    using that lists_ok_active [OF ok, of y] unfolding sub by (simp add: ns'_def unlink_fields ns_def)
  ultimately show ?thesis unfolding w' lists_ok_def by blast
qed


lemma unlink_keeps:
  "tw_slot_deadlines (wheel_unlink w node) = tw_slot_deadlines w" "tw_level_deadlines (wheel_unlink w node) = tw_level_deadlines w"
  "tw_now_ms (wheel_unlink w node) = tw_now_ms w" "tw_earliest_deadline_ms (wheel_unlink w node) = tw_earliest_deadline_ms w"
  "tw_nodes (wheel_unlink w node) = unlink_nodes (tw_nodes w) node"
  by (simp_all add: wheel_unlink_eq)

lemma unlink_slot_cache:
  assumes ok: "lists_ok w L {}" and c: "caches_ok w L" and L: "L l s = xs @ x # ys" and s: "s < 256"
    and w1: "w1 = wheel_unlink w (tw_nodes w ! x)"
  shows "\<exists>w2. (if tw_slot_deadlines w1 l s = tn_deadline_ms (tw_nodes w ! x) then refresh_slot_deadline l s w1 else Some w1) = Some w2 \<and>
    caches_ok w2 (upd2 L l s (xs @ ys)) \<and> tw_nodes w2 = tw_nodes w1 \<and> tw_heads w2 = tw_heads w1 \<and>
    tw_now_ms w2 = tw_now_ms w1 \<and> tw_earliest_deadline_ms w2 = tw_earliest_deadline_ms w1"
proof -
  define A where "A = (\<lambda>y. tn_deadline_ms (tw_nodes w ! y)) ` set (xs @ ys)"
  have dl: "tn_deadline_ms (tw_nodes w1 ! y) = tn_deadline_ms (tw_nodes w ! y)" for y by (simp add: w1 unlink_keeps unlink_fields)
  have c1: "caches_ok w1 L" using c unfolding caches_ok_def dl by (simp add: w1 unlink_keeps)
  have ok1: "lists_ok w1 (upd2 L l s (xs @ ys)) {x}" unfolding w1 by (rule unlink_lists_ok [OF ok L])
  have chain: "nchain (tw_nodes w1) (tw_heads w1 l s) (xs @ ys)"
    using dchain_nchain [OF lists_ok_chain [OF ok1, of l s]] by simp
  have dist: "distinct (xs @ ys)" using lists_ok_distinct [OF ok1, of l s] by simp
  have slot: "tw_slot_deadlines w1 l s = min (tn_deadline_ms (tw_nodes w ! x)) (mins A)"
  proof -
    have "(\<lambda>y. tn_deadline_ms (tw_nodes w1 ! y)) ` set (L l s) = insert (tn_deadline_ms (tw_nodes w ! x)) A"
      using L by (auto simp: A_def dl)
    then show ?thesis using c1 by (simp add: caches_ok_def A_def)
  qed
  show ?thesis
  proof (cases "tw_slot_deadlines w1 l s = tn_deadline_ms (tw_nodes w ! x)")
    case True
    have "caches_ok (set_slot_deadline l s (mins A) w1) (upd2 L l s (xs @ ys))"
      by (rule set_slot_caches_ok [OF c1 _ s]) (use L in \<open>auto simp: A_def dl\<close>)
    then show ?thesis using True refresh_slot_eq [OF chain dist] by (simp add: A_def dl)
  next
    case False
    then have "tw_slot_deadlines w1 l s = mins A" using slot by (auto simp: min_def split: if_splits)
    then have "caches_ok w1 (upd2 L l s (xs @ ys))" using c1 by (simp add: caches_ok_def A_def dl)
    then show ?thesis using False by simp
  qed
qed


lemma unlink_place_ok:
  assumes "place_ok w L S" "L l s = xs @ x # ys" "\<And>y. tn_deadline_ms (tw_nodes w' ! y) = tn_deadline_ms (tw_nodes w ! y)"
    and "tw_now_ms w' = tw_now_ms w"
  shows "place_ok w' (upd2 L l s (xs @ ys)) S"
proof -
  have "set (upd2 L l s (xs @ ys) a b) \<subseteq> set (L a b)" for a b using assms(2) by auto
  then show ?thesis using assms(1) unfolding place_ok_def assms(3,4) by blast
qed

lemma earliest_after_remove:
  assumes "earliest_ok w" "caches_ok w L" "caches_ok w' L'" "tw_earliest_deadline_ms w' = tw_earliest_deadline_ms w"
    and "all_deadlines w L = insert d (all_deadlines w' L')" "d < U64_MAX" "tw_earliest_deadline_ms w \<noteq> Some d"
  shows "earliest_ok w'"
proof -
  have "mins (all_deadlines w L) = min d (mins (all_deadlines w' L'))" unfolding assms(5) by simp
  moreover have "tw_earliest_deadline_ms w = (let m = mins (all_deadlines w L) in if m = U64_MAX then None else Some m)"
    using assms(1) by (simp add: earliest_ok_def earliest_of_def all_deadlines_mins [OF assms(2)])
  ultimately have "tw_earliest_deadline_ms w = (let m = mins (all_deadlines w' L') in if m = U64_MAX then None else Some m)"
    using assms(6,7) by (auto simp: Let_def min_def split: if_splits)
  then show ?thesis by (simp add: earliest_ok_def earliest_of_def all_deadlines_mins [OF assms(3)] assms(4))
qed

lemma wheel_detach_inv:
  assumes inv: "wheel_inv w L {} UNIV" and e: "earliest_ok w" and x: "x < length (tw_nodes w)" "tn_active (tw_nodes w ! x)"
  shows "\<exists>w' L'. wheel_detach w x = Some w' \<and> wheel_inv w' L' {x} UNIV \<and> earliest_ok w' \<and> content w' = content w \<and>
    tw_now_ms w' = tw_now_ms w \<and> length (tw_nodes w') = length (tw_nodes w)"
proof -
  define l where "l = tn_level (tw_nodes w ! x)"
  define s where "s = tn_slot (tw_nodes w ! x)"
  define d where "d = tn_deadline_ms (tw_nodes w ! x)"
  define w1 where "w1 = wheel_unlink w (tw_nodes w ! x)"
  have ok: "lists_ok w L {}" and c: "caches_ok w L" and p: "place_ok w L UNIV" using inv by (auto simp: wheel_inv_def)
  have mem: "x \<in> set (L l s)" using lists_ok_active [OF ok x] by (simp add: l_def s_def)
  then obtain xs ys where L: "L l s = xs @ x # ys" by (meson split_list)
  have bounds: "l < 4" "s < 256" "d < U64_MAX" using p mem unfolding place_ok_def d_def by (metis mod_less_divisor zero_less_numeral)+
  obtain w2 where w2: "(if tw_slot_deadlines w1 l s = d then refresh_slot_deadline l s w1 else Some w1) = Some w2"
    "caches_ok w2 (upd2 L l s (xs @ ys))" "tw_nodes w2 = tw_nodes w1" "tw_heads w2 = tw_heads w1"
    "tw_now_ms w2 = tw_now_ms w1" "tw_earliest_deadline_ms w2 = tw_earliest_deadline_ms w1"
    using unlink_slot_cache [OF ok c L bounds(2) w1_def] unfolding d_def by blast
  have dl: "tn_deadline_ms (tw_nodes w2 ! y) = tn_deadline_ms (tw_nodes w ! y)" for y
    by (simp add: w2(3) w1_def unlink_keeps unlink_fields)
  have now: "tw_now_ms w2 = tw_now_ms w" by (simp add: w2(5) w1_def unlink_keeps)
  have "lists_ok w2 (upd2 L l s (xs @ ys)) {x}"
    using unlink_lists_ok [OF ok L] unfolding lists_ok_def w2(3,4) w1_def .
  then have inv2: "wheel_inv w2 (upd2 L l s (xs @ ys)) {x} UNIV"
    using w2(2) unlink_place_ok [OF p L dl now] by (simp add: wheel_inv_def)
  define w3 where "w3 = (if tw_earliest_deadline_ms w2 = Some d then refresh_earliest w2 else w2)"
  have "wheel_detach w x = Some w3"
    unfolding wheel_detach_def Let_def w1_def [symmetric] l_def [symmetric] s_def [symmetric] d_def [symmetric] w2(1)
    by (simp add: w3_def)
  moreover have "earliest_ok w3"
  proof (cases "tw_earliest_deadline_ms w2 = Some d")
    case True
    then show ?thesis using refresh_earliest_ok [OF inv_levels_ok [OF inv2]] by (simp add: w3_def)
  next
    case False
    have same: "tw_earliest_deadline_ms w2 = tw_earliest_deadline_ms w" by (simp add: w2(6) w1_def unlink_keeps)
    have "earliest_ok w2"
      using earliest_after_remove [OF e c w2(2) same all_deadlines_remove [where w = w and w' = w2 and L = L and l = l and s = s, OF L bounds(1,2) dl]]
        bounds(3) False same by (simp add: d_def)
    then show ?thesis using False by (simp add: w3_def)
  qed
  moreover have "content w2 = content w"
    by (simp add: content_def fun_eq_iff w2(3) w1_def unlink_keeps unlink_fields)
  moreover have "length (tw_nodes w2) = length (tw_nodes w)" by (simp add: w2(3) w1_def unlink_keeps)
  ultimately show ?thesis using inv2 now by (auto simp: w3_def)
qed


section \<open>Cancelling and scheduling\<close>

definition wheel_ok :: "timer_wheel \<Rightarrow> bool" where
  "wheel_ok w \<longleftrightarrow> (\<exists>L. wheel_inv w L {} UNIV) \<and> earliest_ok w"

lemma empty_earliest: "earliest_ok (w\<lparr>tw_nodes := ns\<rparr>) = earliest_ok w"
  by (simp add: earliest_ok_def earliest_of_def)

lemma wheel_cancel_ok:
  assumes "wheel_ok w"
  shows "\<exists>w'. wheel_cancel w x = Some (w', content w x \<noteq> None) \<and> wheel_ok w' \<and> content w' = (content w)(x := None) \<and>
    tw_now_ms w' = tw_now_ms w \<and> length (tw_nodes w') = length (tw_nodes w) \<and>
    (x < length (tw_nodes w') \<longrightarrow> \<not> tn_active (tw_nodes w' ! x))"
proof (cases "x < length (tw_nodes w) \<and> tn_active (tw_nodes w ! x)")
  case False
  then have "content w x = None" by (simp add: content_def)
  then show ?thesis using False assms by (auto simp: wheel_cancel_def fun_eq_iff)
next
  case True
  obtain L where inv: "wheel_inv w L {} UNIV" and e: "earliest_ok w" using assms by (auto simp: wheel_ok_def)
  obtain w1 L1 where w1: "wheel_detach w x = Some w1" "wheel_inv w1 L1 {x} UNIV" "earliest_ok w1" "content w1 = content w"
    "tw_now_ms w1 = tw_now_ms w" "length (tw_nodes w1) = length (tw_nodes w)"
    using wheel_detach_inv [OF inv e] True by blast
  define w2 where "w2 = w1\<lparr>tw_nodes := (tw_nodes w1)[x := node_empty]\<rparr>"
  have "wheel_inv w2 L1 {} UNIV" using drop_pending_inv [OF w1(2), of x] by (simp add: w2_def)
  then have "wheel_ok w2" using w1(3) by (auto simp: wheel_ok_def w2_def empty_earliest)
  moreover have "content w2 = (content w)(x := None)" unfolding w2_def drop_content w1(4) ..
  moreover have "wheel_cancel w x = Some (w2, True)" using True w1(1) by (simp add: wheel_cancel_def w2_def)
  moreover have "content w x \<noteq> None" using True by (simp add: content_def)
  moreover have "\<not> tn_active (tw_nodes w2 ! x)" using True w1(6) by (simp add: w2_def node_empty_def)
  moreover have "tw_now_ms w2 = tw_now_ms w" "length (tw_nodes w2) = length (tw_nodes w)" using w1(5,6) by (simp_all add: w2_def)
  ultimately show ?thesis by simp
qed

lemma insert_earliest_ok:
  assumes "levels_ok w" "earliest_ok w" "d < U64_MAX"
  shows "earliest_ok (wheel_insert w x g d)"
proof -
  define l where "l = insert_level (saturating_sub d (tw_now_ms w))"
  let ?f = "tw_level_deadlines w"
  have l: "finite {..<4 :: nat}" "l \<in> {..<4}" by (simp_all add: l_def)
  have lev: "tw_level_deadlines (wheel_insert w x g d) = ?f(l := min (?f l) d)"
    by (simp add: wheel_insert_def Let_def l_def)
  have "mins (tw_level_deadlines (wheel_insert w x g d) ` {..<4}) = min d (mins (?f ` {..<4}))"
    unfolding lev mins_image_split(2) [OF l] mins_image_split(1) [OF l, of ?f] by (simp add: min.assoc min.left_commute)
  moreover have "mins (?f ` {..<4}) \<le> U64_MAX" by simp
  moreover have "tw_earliest_deadline_ms (wheel_insert w x g d) =
      Some (case tw_earliest_deadline_ms w of None \<Rightarrow> d | Some earliest \<Rightarrow> min earliest d)"
    by (simp add: wheel_insert_def Let_def)
  moreover have "tw_earliest_deadline_ms w = (if mins (?f ` {..<4}) = U64_MAX then None else Some (mins (?f ` {..<4})))"
    using assms(2) by (simp add: earliest_ok_def earliest_of_def Let_def)
  ultimately show ?thesis using assms(3) by (auto simp: earliest_ok_def earliest_of_def Let_def min_def)
qed

lemma wheel_insert_ok:
  assumes "wheel_ok w" "x < length (tw_nodes w)" "\<not> tn_active (tw_nodes w ! x)" "tw_now_ms w < d" "d < U64_MAX"
  shows "wheel_ok (wheel_insert w x g d)" "content (wheel_insert w x g d) = (content w)(x \<mapsto> (g, d))"
    "length (tw_nodes (wheel_insert w x g d)) = length (tw_nodes w)"
proof -
  obtain L where inv: "wheel_inv w L {} UNIV" and e: "earliest_ok w" using assms(1) by (auto simp: wheel_ok_def)
  have ok: "lists_ok w L {}" using inv by (simp add: wheel_inv_def)
  show "wheel_ok (wheel_insert w x g d)"
    using insert_inv [OF inv assms(2,3), where d = d and g = g] insert_earliest_ok [OF inv_levels_ok [OF inv] e assms(5)] assms(4,5)
    by (simp add: wheel_ok_def)
  show "content (wheel_insert w x g d) = (content w)(x \<mapsto> (g, d))" by (rule insert_content [OF ok assms(2,3)])
  show "length (tw_nodes (wheel_insert w x g d)) = length (tw_nodes w)" by (rule insert_nodes(1) [OF ok assms(2,3)])
qed

lemma schedule_deadline_bounds:
  assumes "now \<le> U64_MAX div 1000000"
  shows "now < schedule_deadline now d" "schedule_deadline now d < U64_MAX" "schedule_deadline now d \<le> now + U32_MAX"
  using assms by (simp_all add: schedule_deadline_def saturating_add_def Let_def)

lemma wheel_schedule_ok:
  assumes "wheel_ok w" "tw_now_ms w \<le> U64_MAX div 1000000" "x < length (tw_nodes w)" "g \<noteq> 0"
  shows "\<exists>w'. wheel_schedule w x g d = Some (w', True) \<and> wheel_ok w' \<and>
    content w' = (content w)(x \<mapsto> (g, schedule_deadline (tw_now_ms w) d)) \<and>
    tw_now_ms w' = tw_now_ms w \<and> length (tw_nodes w') = length (tw_nodes w)"
proof -
  obtain w1 where w1: "wheel_cancel w x = Some (w1, content w x \<noteq> None)" "wheel_ok w1" "content w1 = (content w)(x := None)"
    "tw_now_ms w1 = tw_now_ms w" "length (tw_nodes w1) = length (tw_nodes w)" "\<not> tn_active (tw_nodes w1 ! x)"
    using wheel_cancel_ok [OF assms(1), of x] assms(3) by auto
  let ?e = "schedule_deadline (tw_now_ms w1) d"
  have "tw_now_ms w1 < ?e" "?e < U64_MAX" using schedule_deadline_bounds assms(2) by (simp_all add: w1(4))
  note ins = wheel_insert_ok [OF w1(2) _ w1(6) this, of g]
  have "wheel_schedule w x g d = Some (wheel_insert w1 x g ?e, True)" using assms(3,4) w1(1) by (simp add: wheel_schedule_def)
  then show ?thesis using ins assms(3) w1(3,4,5) by simp
qed


section \<open>A new wheel and the next deadline\<close>

lemma wheel_new_ok:
  assumes "wheel_new cap now = Some w"
  shows "wheel_ok w" "content w = Map.empty" "tw_now_ms w = now" "length (tw_nodes w) = cap"
proof -
  have w: "w = \<lparr>tw_now_ms = now, tw_heads = \<lambda>_ _. None, tw_slot_deadlines = \<lambda>_ _. U64_MAX, tw_level_deadlines = \<lambda>_. U64_MAX,
      tw_earliest_deadline_ms = None, tw_nodes = replicate cap node_empty\<rparr>"
    using assms by (simp add: wheel_new_def split: if_splits)
  have const: "mins ((\<lambda>_ :: nat. U64_MAX) ` {..<n}) = U64_MAX" for n by (simp add: mins_def image_constant_conv)
  have "wheel_inv w (\<lambda>_ _. []) {} UNIV"
    by (simp add: wheel_inv_def lists_ok_def caches_ok_def place_ok_def w node_empty_def const)
  moreover have "earliest_ok w" by (simp add: earliest_ok_def earliest_of_def w const)
  ultimately show "wheel_ok w" unfolding wheel_ok_def by blast
  show "content w = Map.empty" "tw_now_ms w = now" "length (tw_nodes w) = cap"
    by (simp_all add: w content_def fun_eq_iff node_empty_def)
qed

definition timer_deadlines :: "timers \<Rightarrow> nat set" where
  "timer_deadlines m = snd ` ran m"

lemma all_deadlines_content:
  assumes "wheel_inv w L {} S"
  shows "all_deadlines w L = timer_deadlines (content w)"
proof -
  have ok: "lists_ok w L {}" and p: "place_ok w L S" using assms by (auto simp: wheel_inv_def)
  have mem: "e \<in> timer_deadlines (content w) \<longleftrightarrow>
      (\<exists>x<length (tw_nodes w). tn_active (tw_nodes w ! x) \<and> e = tn_deadline_ms (tw_nodes w ! x))" for e
    by (force simp: timer_deadlines_def ran_def content_def image_iff)
  show ?thesis
  proof (intro set_eqI iffI)
    fix e assume "e \<in> all_deadlines w L"
    then obtain l s x where "x \<in> set (L l s)" "e = tn_deadline_ms (tw_nodes w ! x)" by (auto simp: all_deadlines_def)
    then show "e \<in> timer_deadlines (content w)" unfolding mem using lists_ok_mem [OF ok, of x l s] by (auto simp: node_at_def)
  next
    fix e assume "e \<in> timer_deadlines (content w)"
    then obtain x where x: "x < length (tw_nodes w)" "tn_active (tw_nodes w ! x)" "e = tn_deadline_ms (tw_nodes w ! x)"
      unfolding mem by blast
    define l s where "l = tn_level (tw_nodes w ! x)" and "s = tn_slot (tw_nodes w ! x)"
    have "x \<in> set (L l s)" using lists_ok_active [OF ok x(1,2)] by (simp add: l_def s_def)
    moreover from this have "l < 4" "s < 256" using p unfolding place_ok_def by (metis mod_less_divisor zero_less_numeral)+
    ultimately show "e \<in> all_deadlines w L" unfolding all_deadlines_def x(3) by blast
  qed
qed

lemma next_deadline_exact:
  assumes "wheel_ok w"
  shows "next_deadline_ns w =
    (if content w = Map.empty then None else Some (saturating_mul (Min (timer_deadlines (content w))) 1000000))"
proof -
  obtain L where inv: "wheel_inv w L {} UNIV" and e: "earliest_ok w" using assms by (auto simp: wheel_ok_def)
  define D where "D = timer_deadlines (content w)"
  have all: "all_deadlines w L = D" unfolding D_def by (rule all_deadlines_content [OF inv])
  then have fin: "finite D" using all_deadlines_finite [of w L] by simp
  have "place_ok w L UNIV" "caches_ok w L" using inv by (auto simp: wheel_inv_def)
  then have small: "\<forall>d\<in>D. d < U64_MAX" unfolding all [symmetric] all_deadlines_def place_ok_def by blast
  have e': "tw_earliest_deadline_ms w = (if mins D = U64_MAX then None else Some (mins D))"
    using e all_deadlines_mins [OF \<open>caches_ok w L\<close>] by (simp add: earliest_ok_def earliest_of_def all Let_def)
  have empty: "content w = Map.empty \<longleftrightarrow> D = {}" by (auto simp: D_def timer_deadlines_def ran_def fun_eq_iff) (metis option.exhaust surj_pair)
  show ?thesis
  proof (cases "D = {}")
    case True
    then show ?thesis using e' empty by (simp add: next_deadline_ns_def)
  next
    case False
    then have "Min D \<in> D" using fin by simp
    then have "Min D < U64_MAX" using small by blast
    then have "mins D = Min D" using fin False by (simp add: mins_def min_absorb2)
    then show ?thesis using e' empty False \<open>Min D < U64_MAX\<close> by (simp add: next_deadline_ns_def D_def)
  qed
qed

end
