(* ===== verification/TimerWheelProps.thy ===== *)
theory TimerWheelProps
  imports TimerWheelCancel
begin

text \<open>
  What the timer wheel promises its client: scheduling and cancelling change one entry of a map from owners to
  generations and deadlines, and advancing the clock fires every timer exactly once, at its deadline. The client's
  view is a locale; the wheel interprets it.
\<close>

section \<open>The client's view\<close>

definition advance_to :: "nat \<Rightarrow> nat \<Rightarrow> nat \<Rightarrow> nat" where
  "advance_to now target budget = (if now < target then min (now + budget) target else now)"

lemma keep_after_Some: "keep_after n m x = Some (g, d) \<longleftrightarrow> m x = Some (g, d) \<and> n < d"
  by (auto simp: keep_after_def split: option.splits if_splits)

locale timer_service =
  fixes invar :: "'w \<Rightarrow> bool" and now :: "'w \<Rightarrow> nat" and timers :: "'w \<Rightarrow> timers"
    and tick :: "'w \<Rightarrow> timer_expiry list \<Rightarrow> ('w \<times> timer_expiry list) option"
    and advance :: "nat \<Rightarrow> nat \<Rightarrow> 'w \<Rightarrow> timer_expiry list \<Rightarrow> ('w \<times> timer_expiry list) option"
  assumes future: "invar w \<Longrightarrow> timers w x = Some (g, d) \<Longrightarrow> now w < d"
    and tick: "invar w \<Longrightarrow>
      \<exists>w' xs. tick w fired = Some (w', fired @ xs) \<and> invar w' \<and> now w' = now w + 1 \<and>
        timers w' = keep_after (now w + 1) (timers w) \<and> distinct xs \<and>
        set xs = timer_expiries (timers w) (\<lambda>d. d = now w + 1)"
    and advance_0: "advance 0 target w fired = Some (w, fired)"
    and advance_Suc: "advance (Suc n) target w fired =
      (if now w < target then case tick w fired of None \<Rightarrow> None | Some (w', fired') \<Rightarrow> advance n target w' fired'
       else Some (w, fired))"
begin

lemma keep_now: "invar w \<Longrightarrow> keep_after (now w) (timers w) = timers w"
  using future by (auto simp: keep_after_def fun_eq_iff split: option.splits)

lemma no_past: "invar w \<Longrightarrow> timer_expiries (timers w) (\<lambda>d. now w < d \<and> d \<le> now w) = {}"
  by (auto simp: timer_expiries_def)

lemma advance_fires:
  "invar w \<Longrightarrow>
   \<exists>w' xs. advance n target w fired = Some (w', fired @ xs) \<and> invar w' \<and> now w' = advance_to (now w) target n \<and>
     timers w' = keep_after (now w') (timers w) \<and> distinct xs \<and> sorted (map te_deadline_ms xs) \<and>
     set xs = timer_expiries (timers w) (\<lambda>d. now w < d \<and> d \<le> now w')"
proof (induction n arbitrary: w fired)
  case 0
  then show ?case by (auto simp: advance_0 advance_to_def keep_now timer_expiries_def)
next
  case (Suc n)
  show ?case
  proof (cases "now w < target")
    case False
    then show ?thesis using Suc.prems by (auto simp: advance_Suc advance_to_def keep_now timer_expiries_def)
  next
    case True
    obtain w1 xs where w1: "tick w fired = Some (w1, fired @ xs)" "invar w1" "now w1 = now w + 1"
      "timers w1 = keep_after (now w + 1) (timers w)" "distinct xs" "set xs = timer_expiries (timers w) (\<lambda>d. d = now w + 1)"
      using tick [OF Suc.prems] by blast
    obtain w2 ys where w2: "advance n target w1 (fired @ xs) = Some (w2, (fired @ xs) @ ys)" "invar w2"
      "now w2 = advance_to (now w1) target n" "timers w2 = keep_after (now w2) (timers w1)" "distinct ys"
      "sorted (map te_deadline_ms ys)" "set ys = timer_expiries (timers w1) (\<lambda>d. now w1 < d \<and> d \<le> now w2)"
      using Suc.IH [OF w1(2)] by blast
    have le: "now w1 \<le> now w2" "now w2 = advance_to (now w) target (Suc n)"
      using True w1(3) w2(3) by (auto simp: advance_to_def)
    have "timers w2 = keep_after (now w2) (timers w)"
      using le(1) w1(3) unfolding w2(4) w1(4) by (auto simp: keep_after_def fun_eq_iff split: option.splits)
    moreover have ys: "set ys = timer_expiries (timers w) (\<lambda>d. now w1 < d \<and> d \<le> now w2)"
      unfolding w2(7) w1(4) w1(3) timer_expiries_def keep_after_Some by (metis (no_types, lifting))
    have xy: "te_deadline_ms a < te_deadline_ms b" if "a \<in> set xs" "b \<in> set ys" for a b
      using that w1(3) unfolding w1(6) ys by (auto simp: timer_expiries_def)
    have "\<forall>a\<in>set xs. te_deadline_ms a = now w + 1" unfolding w1(6) by (auto simp: timer_expiries_def)
    then have "sorted (map te_deadline_ms xs)" by (auto simp: sorted_iff_nth_mono)
    then have "sorted (map te_deadline_ms (xs @ ys))" using w2(6) xy by (auto simp: sorted_append less_imp_le)
    moreover have "set xs \<inter> set ys = {}" using xy by blast
    moreover have "set (xs @ ys) = timer_expiries (timers w) (\<lambda>d. now w < d \<and> d \<le> now w2)"
      using le(1) w1(3) unfolding set_append w1(6) ys by (auto simp: timer_expiries_def)
    ultimately show ?thesis
      using True w1(1,5) w2(1,2,5) le(2) by (intro exI [of _ w2] exI [of _ "xs @ ys"]) (simp add: advance_Suc)
  qed
qed

end

interpretation tw: timer_service wheel_ok tw_now_ms content wheel_tick advance_loop
proof
  fix w x g d
  assume "wheel_ok w" "content w x = Some (g, d)"
  then show "tw_now_ms w < d" using content_future by (auto simp: wheel_ok_def)
next
  fix w fired
  assume "wheel_ok w"
  then obtain L where "wheel_inv w L {} UNIV" "earliest_ok w" by (auto simp: wheel_ok_def)
  from wheel_tick_correct [OF this, of fired]
  show "\<exists>w' xs. wheel_tick w fired = Some (w', fired @ xs) \<and> wheel_ok w' \<and> tw_now_ms w' = tw_now_ms w + 1 \<and>
      content w' = keep_after (tw_now_ms w + 1) (content w) \<and> distinct xs \<and>
      set xs = timer_expiries (content w) (\<lambda>d. d = tw_now_ms w + 1)"
    unfolding wheel_ok_def by blast
qed simp_all


section \<open>The contract\<close>

text \<open>
  The calls a shard makes on its wheel, and what the contract says of each: the owner capacity, the current
  millisecond and the map of timers before and after, the expiries delivered and the flag returned.
\<close>

datatype timer_op =
  Schedule nat nat nat
| Cancel nat
| Advance nat nat

fun wheel_step :: "timer_op \<Rightarrow> timer_wheel \<Rightarrow> (timer_wheel \<times> timer_expiry list \<times> bool) option" where
  "wheel_step (Schedule x g d) w = map_option (\<lambda>(w', b). (w', [], b)) (wheel_schedule w x g d)"
| "wheel_step (Cancel x) w = map_option (\<lambda>(w', b). (w', [], b)) (wheel_cancel w x)"
| "wheel_step (Advance target_ns budget) w = wheel_advance w target_ns budget"

fun op_wf :: "timer_op \<Rightarrow> bool" where
  "op_wf (Advance target_ns budget) \<longleftrightarrow> target_ns \<le> U64_MAX"
| "op_wf _ \<longleftrightarrow> True"

fun timer_contract :: "nat \<Rightarrow> timer_op \<Rightarrow> nat \<times> timers \<Rightarrow> nat \<times> timers \<Rightarrow> timer_expiry list \<Rightarrow> bool \<Rightarrow> bool" where
  "timer_contract cap (Schedule x g d) (now, m) (now', m') fired b \<longleftrightarrow>
     b = (x < cap \<and> g \<noteq> 0) \<and> fired = [] \<and> now' = now \<and>
     m' = (if b then m(x \<mapsto> (g, min (max ((min (d + 999999) U64_MAX) div 1000000) (now + 1)) (now + U32_MAX))) else m)"
| "timer_contract cap (Cancel x) (now, m) (now', m') fired b \<longleftrightarrow>
     b = (x \<in> dom m) \<and> fired = [] \<and> now' = now \<and> m' = m(x := None)"
| "timer_contract cap (Advance target_ns budget) (now, m) (now', m') fired b \<longleftrightarrow>
     now' = advance_to now (target_ns div 1000000) budget \<and> b = (now' < target_ns div 1000000) \<and>
     m' = keep_after now' m \<and> distinct fired \<and> sorted (map te_deadline_ms fired) \<and>
     set fired = timer_expiries m (\<lambda>d. now < d \<and> d \<le> now')"

definition wheel_view :: "timer_wheel \<Rightarrow> nat \<times> timers" where
  "wheel_view w = (tw_now_ms w, content w)"

inductive wheel_reach :: "nat \<Rightarrow> timer_wheel \<Rightarrow> bool" where
  reach_new: "wheel_new cap now = Some w \<Longrightarrow> now \<le> U64_MAX div 1000000 \<Longrightarrow> wheel_reach cap w"
| reach_step: "wheel_reach cap w \<Longrightarrow> op_wf op \<Longrightarrow> wheel_step op w = Some (w', fired, b) \<Longrightarrow> wheel_reach cap w'"

definition shard_wheel :: "nat \<Rightarrow> timer_wheel \<Rightarrow> bool" where
  "shard_wheel cap w \<longleftrightarrow> wheel_ok w \<and> tw_now_ms w \<le> U64_MAX div 1000000 \<and> length (tw_nodes w) = cap"

lemma advance_nodes:
  "wheel_ok w \<Longrightarrow> advance_loop n t w fired = Some (w', fired') \<Longrightarrow> length (tw_nodes w') = length (tw_nodes w)"
proof (induction n arbitrary: w fired)
  case (Suc n)
  show ?case
  proof (cases "tw_now_ms w < t")
    case True
    obtain L where L: "wheel_inv w L {} UNIV" "earliest_ok w" using Suc.prems(1) by (auto simp: wheel_ok_def)
    obtain w1 xs where w1: "wheel_tick w fired = Some (w1, fired @ xs)" "wheel_ok w1" "length (tw_nodes w1) = length (tw_nodes w)"
      using wheel_tick_correct [OF L, of fired] unfolding wheel_ok_def by blast
    show ?thesis using Suc.IH [OF w1(2)] Suc.prems(2) True w1(1,3) by simp
  qed (use Suc.prems(2) in simp)
qed simp

lemma schedule_contract:
  assumes "shard_wheel cap w"
  shows "\<exists>w' fired b. wheel_step (Schedule x g d) w = Some (w', fired, b) \<and> shard_wheel cap w' \<and>
    timer_contract cap (Schedule x g d) (wheel_view w) (wheel_view w') fired b"
proof (cases "x < cap \<and> g \<noteq> 0")
  case False
  then show ?thesis using assms by (auto simp: wheel_schedule_def shard_wheel_def wheel_view_def)
next
  case True
  have now: "tw_now_ms w \<le> U64_MAX div 1000000" using assms by (simp add: shard_wheel_def)
  have dl: "schedule_deadline (tw_now_ms w) d =
      min (max ((min (d + 999999) U64_MAX) div 1000000) (tw_now_ms w + 1)) (tw_now_ms w + U32_MAX)"
    using now by (simp add: schedule_deadline_def saturating_add_def Let_def)
  obtain w' where "wheel_schedule w x g d = Some (w', True)" "wheel_ok w'"
    "content w' = (content w)(x \<mapsto> (g, schedule_deadline (tw_now_ms w) d))" "tw_now_ms w' = tw_now_ms w"
    "length (tw_nodes w') = length (tw_nodes w)"
    using wheel_schedule_ok [of w x g d] assms True by (auto simp: shard_wheel_def)
  then show ?thesis
    using assms True unfolding dl
    by (intro exI [of _ w'] exI [of _ "[]"] exI [of _ True]) (simp add: shard_wheel_def wheel_view_def)
qed

lemma cancel_contract:
  assumes "shard_wheel cap w"
  shows "\<exists>w' fired b. wheel_step (Cancel x) w = Some (w', fired, b) \<and> shard_wheel cap w' \<and>
    timer_contract cap (Cancel x) (wheel_view w) (wheel_view w') fired b"
  using wheel_cancel_ok [of w x] assms by (auto simp: shard_wheel_def wheel_view_def)

lemma advance_contract:
  assumes "shard_wheel cap w" "t \<le> U64_MAX"
  shows "\<exists>w' fired b. wheel_step (Advance t n) w = Some (w', fired, b) \<and> shard_wheel cap w' \<and>
    timer_contract cap (Advance t n) (wheel_view w) (wheel_view w') fired b"
proof -
  have w: "wheel_ok w" "tw_now_ms w \<le> U64_MAX div 1000000" "length (tw_nodes w) = cap" using assms(1) by (auto simp: shard_wheel_def)
  obtain w' xs where w': "advance_loop n (t div 1000000) w [] = Some (w', xs)" "wheel_ok w'"
    "tw_now_ms w' = advance_to (tw_now_ms w) (t div 1000000) n" "content w' = keep_after (tw_now_ms w') (content w)"
    "distinct xs" "sorted (map te_deadline_ms xs)"
    "set xs = timer_expiries (content w) (\<lambda>d. tw_now_ms w < d \<and> d \<le> tw_now_ms w')"
    using tw.advance_fires [OF w(1), of n "t div 1000000" "[]"] by auto
  have "t div 1000000 \<le> U64_MAX div 1000000" using assms(2) by (rule div_le_mono)
  then have "tw_now_ms w' \<le> U64_MAX div 1000000" using w(2) unfolding w'(3) advance_to_def by auto
  moreover have "length (tw_nodes w') = cap" using advance_nodes [OF w(1) w'(1)] w(3) by simp
  ultimately show ?thesis using w' by (simp add: wheel_advance_def Let_def shard_wheel_def wheel_view_def)
qed

lemma step_contract:
  assumes "shard_wheel cap w" "op_wf op"
  shows "\<exists>w' fired b. wheel_step op w = Some (w', fired, b) \<and> shard_wheel cap w' \<and>
    timer_contract cap op (wheel_view w) (wheel_view w') fired b"
  using assms schedule_contract cancel_contract advance_contract by (cases op) (simp_all del: wheel_step.simps timer_contract.simps)

lemma reach_shard_wheel: "wheel_reach cap w \<Longrightarrow> shard_wheel cap w"
proof (induction rule: wheel_reach.induct)
  case (reach_new cap now w)
  then show ?case using wheel_new_ok [of cap now w] by (simp add: shard_wheel_def)
next
  case (reach_step cap w op w' fired b)
  then show ?case using step_contract [of cap w op] by auto
qed

text \<open>
  C40. Take any wheel a shard can reach from \<open>TimerWheel::new\<close> (with a start below the 64-bit limit of
  milliseconds) by calls of \<open>schedule\<close>, \<open>cancel\<close> and \<open>advance\<close>. The next call returns, and it does what a plain
  map from owners to generations and deadlines would do: \<open>schedule\<close> replaces the entry of its owner by the
  deadline rounded up to a millisecond and clamped to the range of the wheel, \<open>cancel\<close> removes the entry and tells
  whether there was one, and \<open>advance\<close> delivers exactly the timers whose deadline lies between the old and the
  new time, each once, in the order of their deadlines, and keeps all others. \<open>next_deadline_ns\<close> is the least
  deadline of the map, in nanoseconds.
\<close>

theorem timer_wheel_refines_map:
  assumes "wheel_reach cap w" "op_wf op"
  shows "(\<exists>w' fired b. wheel_step op w = Some (w', fired, b) \<and> wheel_reach cap w' \<and>
      timer_contract cap op (wheel_view w) (wheel_view w') fired b) \<and>
    next_deadline_ns w =
      (if content w = Map.empty then None else Some (saturating_mul (Min (timer_deadlines (content w))) 1000000))"
proof -
  have s: "shard_wheel cap w" by (rule reach_shard_wheel [OF assms(1)])
  have "wheel_ok w" using s by (simp add: shard_wheel_def)
  then show ?thesis using step_contract [OF s assms(2)] reach_step [OF assms] next_deadline_exact by blast
qed

theorem timer_wheel_refines_map_witness:
  "\<exists>w w1 w2. wheel_new 4 0 = Some w \<and> wheel_step (Schedule 1 7 1500000) w = Some (w1, [], True) \<and>
     next_deadline_ns w1 = Some 2000000 \<and>
     wheel_step (Advance 3000000 10) w1 = Some (w2, [\<lparr>te_owner = 1, te_generation = 7, te_deadline_ms = 2\<rparr>], False) \<and>
     content w2 = Map.empty"
proof -
  obtain w where w: "wheel_new 4 0 = Some w" by (simp add: wheel_new_def)
  have r: "wheel_reach 4 w" by (rule reach_new [OF w]) simp
  note v = wheel_new_ok(2,3) [OF w]
  obtain w1 f1 b1 where w1: "wheel_step (Schedule 1 7 1500000) w = Some (w1, f1, b1)" "wheel_reach 4 w1"
    "timer_contract 4 (Schedule 1 7 1500000) (wheel_view w) (wheel_view w1) f1 b1"
    using timer_wheel_refines_map [OF r, of "Schedule 1 7 1500000"] by (auto simp del: wheel_step.simps timer_contract.simps)
  have c1: "f1 = []" "b1 = True" "tw_now_ms w1 = 0" "content w1 = [1 \<mapsto> (7, 2)]"
    using w1(3) unfolding wheel_view_def v by (simp_all add: numeral_2_eq_2)
  have "timer_deadlines (content w1) = {2}" by (auto simp: c1(4) timer_deadlines_def ran_def)
  moreover obtain w2 fired b where w2: "wheel_step (Advance 3000000 10) w1 = Some (w2, fired, b)"
    "timer_contract 4 (Advance 3000000 10) (wheel_view w1) (wheel_view w2) fired b"
    "next_deadline_ns w1 = (if content w1 = Map.empty then None else Some (saturating_mul (Min (timer_deadlines (content w1))) 1000000))"
    using timer_wheel_refines_map [OF w1(2), of "Advance 3000000 10"] by (auto simp del: wheel_step.simps timer_contract.simps)
  ultimately have nd: "next_deadline_ns w1 = Some 2000000" by (simp add: c1(4) saturating_mul_def)
  have now: "tw_now_ms w2 = 3" "b = False" "content w2 = keep_after 3 [1 \<mapsto> (7, 2)]" "distinct fired"
    "set fired = timer_expiries [1 \<mapsto> (7, 2)] (\<lambda>d. 0 < d \<and> d \<le> 3)"
    using w2(2) unfolding wheel_view_def c1(3,4) by (simp_all add: advance_to_def)
  have "content w2 = Map.empty" unfolding now(3) by (auto simp: keep_after_def)
  moreover have one: "set fired = {\<lparr>te_owner = 1, te_generation = 7, te_deadline_ms = 2\<rparr>}"
    unfolding now(5) timer_expiries_def by (auto split: if_splits)
  have "fired = [\<lparr>te_owner = 1, te_generation = 7, te_deadline_ms = 2\<rparr>]"
    using distinct_card [OF now(4)] unfolding one by (cases fired) (use one in auto)
  ultimately show ?thesis using w w1(1) w2(1) c1(1,2) now(2) nd by blast
qed

end
