(* ===== verification/Credential.thy ===== *)
theory Credential
  imports Prelude "HOL-Library.Word"
begin

unbundle bit_operations_syntax

text \<open>
  The identity of a process and the permission bits of a file: \<open>libs/vfs/src/cred.rs\<close>, \<open>FileMode\<close> and
  \<open>FileType\<close> of \<open>libs/vfs/src/stat.rs\<close>, \<open>VfsError\<close> of \<open>libs/vfs/src/error.rs\<close>, and the attributes a new file
  gets in \<open>libs/vfs/src/operation.rs\<close>. User and group numbers are 32-bit words, permission bits are 16-bit
  words and a capability set is a 64-bit word.
\<close>

section \<open>Errors\<close>

datatype vfs_error =
    NotFound | NotADirectory | IsADirectory | NameTooLong | SymlinkLoop nat nat | DirectoryNotEmpty | AlreadyExists
  | CrossDevice | PermissionDenied | OperationNotPermitted | ReadOnlyFilesystem | BadFileDescriptor | OutOfMemory
  | NoSpace | FileTooLarge | TooManyOpenFiles | TooManyOpenFilesSystem | TooManyLinks | Io | NoDevice
  | NoSuchDeviceOrAddress | DeviceBusy | TextFileBusy | InvalidArgument | NotSupported | Enokey | IllegalSeek
  | Interrupted | WouldBlock | TimedOut | BrokenPipe | MessageTooLong | DestinationRequired | ConnectionMissing
  | ConnectionReset | Canceled | NoData

type_synonym 'a vfs_result = "vfs_error + 'a"

section \<open>Permission bits and file types\<close>

datatype file_type = Regular | Directory | Symlink | CharDevice | BlockDevice | Fifo | Socket

type_synonym file_mode = "16 word"

definition IRUSR :: file_mode where "IRUSR = 0x100"
definition IWUSR :: file_mode where "IWUSR = 0x80"
definition IXUSR :: file_mode where "IXUSR = 0x40"
definition IRGRP :: file_mode where "IRGRP = 0x20"
definition IWGRP :: file_mode where "IWGRP = 0x10"
definition IXGRP :: file_mode where "IXGRP = 0x8"
definition IROTH :: file_mode where "IROTH = 0x4"
definition IWOTH :: file_mode where "IWOTH = 0x2"
definition IXOTH :: file_mode where "IXOTH = 0x1"
definition ISUID :: file_mode where "ISUID = 0x800"
definition ISGID :: file_mode where "ISGID = 0x400"
definition ISVTX :: file_mode where "ISVTX = 0x200"
definition ANY_EXEC :: file_mode where "ANY_EXEC = 0x49"

lemmas mode_bit_defs =
  IRUSR_def IWUSR_def IXUSR_def IRGRP_def IWGRP_def IXGRP_def IROTH_def IWOTH_def IXOTH_def ISUID_def ISGID_def
  ISVTX_def ANY_EXEC_def

definition mode_has :: "file_mode \<Rightarrow> file_mode \<Rightarrow> bool" where
  "mode_has m flag \<longleftrightarrow> m AND flag = flag"

definition mode_has_any :: "file_mode \<Rightarrow> file_mode \<Rightarrow> bool" where
  "mode_has_any m flag \<longleftrightarrow> m AND flag \<noteq> 0"

definition mode_with :: "file_mode \<Rightarrow> file_mode \<Rightarrow> file_mode" where
  "mode_with m flag = m OR flag"

definition mode_without :: "file_mode \<Rightarrow> file_mode \<Rightarrow> file_mode" where
  "mode_without m flag = m AND NOT flag"

definition sticky :: "file_mode \<Rightarrow> bool" where
  "sticky m = mode_has m ISVTX"

section \<open>Capabilities\<close>

datatype capability =
    Chown | DacOverride | DacReadSearch | FOwner | FSetId | SysAdmin | SysResource | MkNod | NetBindService
  | IpcOwner | IpcLock | SysPtrace | CheckpointRestore | NetRaw | NetAdmin

fun capability_bit :: "capability \<Rightarrow> 64 word" where
  "capability_bit Chown = push_bit 0 1"
| "capability_bit DacOverride = push_bit 1 1"
| "capability_bit DacReadSearch = push_bit 2 1"
| "capability_bit FOwner = push_bit 3 1"
| "capability_bit FSetId = push_bit 4 1"
| "capability_bit SysAdmin = push_bit 5 1"
| "capability_bit SysResource = push_bit 6 1"
| "capability_bit MkNod = push_bit 7 1"
| "capability_bit NetBindService = push_bit 8 1"
| "capability_bit IpcOwner = push_bit 9 1"
| "capability_bit IpcLock = push_bit 10 1"
| "capability_bit SysPtrace = push_bit 11 1"
| "capability_bit CheckpointRestore = push_bit 12 1"
| "capability_bit NetRaw = push_bit 13 1"
| "capability_bit NetAdmin = push_bit 14 1"

type_synonym cap_set = "64 word"

definition CAP_EMPTY :: cap_set where "CAP_EMPTY = 0"

definition CAP_FULL :: cap_set where "CAP_FULL = - 1"

definition cap_single :: "capability \<Rightarrow> cap_set" where
  "cap_single c = capability_bit c"

definition cap_has :: "cap_set \<Rightarrow> capability \<Rightarrow> bool" where
  "cap_has s c \<longleftrightarrow> s AND capability_bit c \<noteq> 0"

definition cap_with :: "cap_set \<Rightarrow> capability \<Rightarrow> cap_set" where
  "cap_with s c = s OR capability_bit c"

definition cap_without :: "cap_set \<Rightarrow> capability \<Rightarrow> cap_set" where
  "cap_without s c = s AND NOT (capability_bit c)"

definition cap_merge :: "cap_set \<Rightarrow> cap_set \<Rightarrow> cap_set" where
  "cap_merge s t = s OR t"

definition cap_mask :: "cap_set \<Rightarrow> cap_set \<Rightarrow> cap_set" where
  "cap_mask s t = s AND t"

definition cap_is_empty :: "cap_set \<Rightarrow> bool" where
  "cap_is_empty s \<longleftrightarrow> s = 0"

section \<open>Credentials\<close>

type_synonym uid = "32 word"
type_synonym gid = "32 word"

record credentials =
  cr_uid :: uid
  cr_euid :: uid
  cr_suid :: uid
  cr_fsuid :: uid
  cr_gid :: gid
  cr_egid :: gid
  cr_sgid :: gid
  cr_fsgid :: gid
  cr_groups :: "gid list"
  cr_caps :: cap_set

definition unprivileged :: "uid \<Rightarrow> gid \<Rightarrow> credentials" where
  "unprivileged u g =
     \<lparr>cr_uid = u, cr_euid = u, cr_suid = u, cr_fsuid = u, cr_gid = g, cr_egid = g, cr_sgid = g, cr_fsgid = g,
      cr_groups = [], cr_caps = CAP_EMPTY\<rparr>"

definition nobody :: credentials where
  "nobody = unprivileged 65534 65534"

definition root_credentials :: credentials where
  "root_credentials =
     \<lparr>cr_uid = 0, cr_euid = 0, cr_suid = 0, cr_fsuid = 0, cr_gid = 0, cr_egid = 0, cr_sgid = 0, cr_fsgid = 0,
      cr_groups = [], cr_caps = CAP_FULL\<rparr>"

definition has_cap :: "credentials \<Rightarrow> capability \<Rightarrow> bool" where
  "has_cap c = cap_has (cr_caps c)"

datatype permission_kind = PermRead | PermWrite | PermExec (perm_is_dir: bool)

fun capability_override :: "credentials \<Rightarrow> file_mode \<Rightarrow> permission_kind \<Rightarrow> bool" where
  "capability_override c m PermRead \<longleftrightarrow> has_cap c DacReadSearch \<or> has_cap c DacOverride"
| "capability_override c m PermWrite \<longleftrightarrow> has_cap c DacOverride"
| "capability_override c m (PermExec is_dir) \<longleftrightarrow> has_cap c DacOverride \<and> (is_dir \<or> mode_has_any m ANY_EXEC)"

fun class_bits :: "permission_kind \<Rightarrow> file_mode \<times> file_mode \<times> file_mode" where
  "class_bits PermRead = (IRUSR, IRGRP, IROTH)"
| "class_bits PermWrite = (IWUSR, IWGRP, IWOTH)"
| "class_bits (PermExec _) = (IXUSR, IXGRP, IXOTH)"

definition check_permission :: "credentials \<Rightarrow> uid \<Rightarrow> gid \<Rightarrow> file_mode \<Rightarrow> permission_kind \<Rightarrow> bool" where
  "check_permission c file_uid file_gid m kind =
     (if capability_override c m kind then True
      else case class_bits kind of (owner_bit, group_bit, other_bit) \<Rightarrow>
        if cr_fsuid c = file_uid then mode_has m owner_bit
        else if cr_fsgid c = file_gid \<or> file_gid \<in> set (cr_groups c) then mode_has m group_bit
        else mode_has m other_bit)"

definition can_read :: "credentials \<Rightarrow> uid \<Rightarrow> gid \<Rightarrow> file_mode \<Rightarrow> bool" where
  "can_read c u g m = check_permission c u g m PermRead"

definition can_write :: "credentials \<Rightarrow> uid \<Rightarrow> gid \<Rightarrow> file_mode \<Rightarrow> bool" where
  "can_write c u g m = check_permission c u g m PermWrite"

definition can_exec :: "credentials \<Rightarrow> uid \<Rightarrow> gid \<Rightarrow> file_mode \<Rightarrow> bool \<Rightarrow> bool" where
  "can_exec c u g m is_dir = check_permission c u g m (PermExec is_dir)"

definition is_owner :: "credentials \<Rightarrow> uid \<Rightarrow> bool" where
  "is_owner c file_uid \<longleftrightarrow> cr_fsuid c = file_uid \<or> has_cap c FOwner"

section \<open>Capability sets as sets\<close>

definition capability_index :: "capability \<Rightarrow> nat" where
  "capability_index c =
     (case c of Chown \<Rightarrow> 0 | DacOverride \<Rightarrow> 1 | DacReadSearch \<Rightarrow> 2 | FOwner \<Rightarrow> 3 | FSetId \<Rightarrow> 4 | SysAdmin \<Rightarrow> 5
      | SysResource \<Rightarrow> 6 | MkNod \<Rightarrow> 7 | NetBindService \<Rightarrow> 8 | IpcOwner \<Rightarrow> 9 | IpcLock \<Rightarrow> 10 | SysPtrace \<Rightarrow> 11
      | CheckpointRestore \<Rightarrow> 12 | NetRaw \<Rightarrow> 13 | NetAdmin \<Rightarrow> 14)"

lemma capability_bit_index: "capability_bit c = push_bit (capability_index c) 1"
  by (cases c) (simp_all add: capability_index_def)

lemma capability_index_less: "capability_index c < 64"
  by (cases c) (simp_all add: capability_index_def)

lemma capability_index_inj: "capability_index a = capability_index b \<longleftrightarrow> a = b"
  by (cases a; cases b) (simp_all add: capability_index_def)

lemma cap_has_bit: "cap_has s c \<longleftrightarrow> bit s (capability_index c)"
  by (simp add: cap_has_def capability_bit_index bit_iff_and_push_bit_not_eq_0)

lemma cap_has_ops [simp]:
  "cap_has CAP_EMPTY c = False"
  "cap_has CAP_FULL c = True"
  "cap_has (cap_with s d) c \<longleftrightarrow> c = d \<or> cap_has s c"
  "cap_has (cap_without s d) c \<longleftrightarrow> c \<noteq> d \<and> cap_has s c"
  "cap_has (cap_merge s t) c \<longleftrightarrow> cap_has s c \<or> cap_has t c"
  "cap_has (cap_mask s t) c \<longleftrightarrow> cap_has s c \<and> cap_has t c"
  "cap_has (cap_single d) c \<longleftrightarrow> c = d"
  using capability_index_less [of c]
  by (auto simp: cap_has_bit CAP_EMPTY_def CAP_FULL_def cap_with_def cap_without_def cap_merge_def cap_mask_def
      cap_single_def capability_bit_index bit_or_iff bit_and_iff bit_not_iff bit_exp_iff
      capability_index_inj)

end
