(* ===== verification/Acl.thy ===== *)
theory Acl
  imports Credential Bytes
begin

unbundle bit_operations_syntax

text \<open>
  POSIX access control lists: \<open>libs/vfs/src/acl.rs\<close>. The on-disk form, the validator, the access decision, the
  list a new file inherits, and the mask that stands for the group bits of the mode.
\<close>

section \<open>Entries\<close>

definition ACL_VERSION :: "32 word" where "ACL_VERSION = 2"
definition ACL_USER_OBJ :: "16 word" where "ACL_USER_OBJ = 0x01"
definition ACL_USER :: "16 word" where "ACL_USER = 0x02"
definition ACL_GROUP_OBJ :: "16 word" where "ACL_GROUP_OBJ = 0x04"
definition ACL_GROUP :: "16 word" where "ACL_GROUP = 0x08"
definition ACL_MASK :: "16 word" where "ACL_MASK = 0x10"
definition ACL_OTHER :: "16 word" where "ACL_OTHER = 0x20"
definition ACL_UNDEFINED_ID :: "32 word" where "ACL_UNDEFINED_ID = - 1"

lemmas acl_tag_defs = ACL_USER_OBJ_def ACL_USER_def ACL_GROUP_OBJ_def ACL_GROUP_def ACL_MASK_def ACL_OTHER_def

record acl_entry =
  ae_tag :: "16 word"
  ae_perm :: "16 word"
  ae_id :: "32 word"

record posix_acl =
  acl_entries :: "acl_entry list"

datatype acl_check_kind = AclRead | AclWrite | AclExec (acl_is_dir: bool)

fun perm_bit :: "acl_check_kind \<Rightarrow> 16 word" where
  "perm_bit AclRead = 4"
| "perm_bit AclWrite = 2"
| "perm_bit (AclExec _) = 1"

section \<open>Validation\<close>

record acl_scan =
  sc_user_obj :: bool
  sc_group_obj :: bool
  sc_other :: bool
  sc_mask :: bool
  sc_named_user :: bool
  sc_named_group :: bool
  sc_prev_tag :: "16 word"
  sc_prev_id :: "32 word"

definition scan_start :: acl_scan where
  "scan_start =
     \<lparr>sc_user_obj = False, sc_group_obj = False, sc_other = False, sc_mask = False, sc_named_user = False,
      sc_named_group = False, sc_prev_tag = 0, sc_prev_id = 0\<rparr>"

definition scan_tag :: "acl_scan \<Rightarrow> acl_entry \<Rightarrow> acl_scan vfs_result" where
  "scan_tag st e =
     (if ae_tag e = ACL_USER_OBJ then
        if sc_user_obj st \<or> ae_id e \<noteq> ACL_UNDEFINED_ID then Inl InvalidArgument else Inr (st\<lparr>sc_user_obj := True\<rparr>)
      else if ae_tag e = ACL_USER then
        if ae_id e = ACL_UNDEFINED_ID then Inl InvalidArgument else Inr (st\<lparr>sc_named_user := True\<rparr>)
      else if ae_tag e = ACL_GROUP_OBJ then
        if sc_group_obj st \<or> ae_id e \<noteq> ACL_UNDEFINED_ID then Inl InvalidArgument else Inr (st\<lparr>sc_group_obj := True\<rparr>)
      else if ae_tag e = ACL_GROUP then
        if ae_id e = ACL_UNDEFINED_ID then Inl InvalidArgument else Inr (st\<lparr>sc_named_group := True\<rparr>)
      else if ae_tag e = ACL_MASK then
        if sc_mask st \<or> ae_id e \<noteq> ACL_UNDEFINED_ID then Inl InvalidArgument else Inr (st\<lparr>sc_mask := True\<rparr>)
      else if ae_tag e = ACL_OTHER then
        if sc_other st \<or> ae_id e \<noteq> ACL_UNDEFINED_ID then Inl InvalidArgument else Inr (st\<lparr>sc_other := True\<rparr>)
      else Inl InvalidArgument)"

definition scan_entry :: "acl_scan \<Rightarrow> acl_entry \<Rightarrow> acl_scan vfs_result" where
  "scan_entry st e =
     (if 7 < ae_perm e then Inl InvalidArgument
      else case scan_tag st e of
        Inl err \<Rightarrow> Inl err
      | Inr st' \<Rightarrow>
          if ae_tag e < sc_prev_tag st' \<or> ae_tag e = sc_prev_tag st' \<and> ae_id e \<le> sc_prev_id st' then Inl InvalidArgument
          else Inr (st'\<lparr>sc_prev_tag := ae_tag e, sc_prev_id := ae_id e\<rparr>))"

fun scan_entries :: "acl_scan \<Rightarrow> acl_entry list \<Rightarrow> acl_scan vfs_result" where
  "scan_entries st [] = Inr st"
| "scan_entries st (e # es) = (case scan_entry st e of Inl err \<Rightarrow> Inl err | Inr st' \<Rightarrow> scan_entries st' es)"

definition acl_validate :: "acl_entry list \<Rightarrow> unit vfs_result" where
  "acl_validate es =
     (case scan_entries scan_start es of
        Inl err \<Rightarrow> Inl err
      | Inr st \<Rightarrow>
          if \<not> sc_user_obj st \<or> \<not> sc_group_obj st \<or> \<not> sc_other st then Inl InvalidArgument
          else if (sc_named_user st \<or> sc_named_group st) \<and> \<not> sc_mask st then Inl InvalidArgument
          else Inr ())"

section \<open>The byte form\<close>

fun parse_entries :: "bytes \<Rightarrow> acl_entry list" where
  "parse_entries (b0 # b1 # b2 # b3 # b4 # b5 # b6 # b7 # bs) =
     \<lparr>ae_tag = u16_from_le_bytes b0 b1, ae_perm = u16_from_le_bytes b2 b3, ae_id = u32_from_le_bytes b4 b5 b6 b7\<rparr>
       # parse_entries bs"
| "parse_entries _ = []"

definition acl_parse :: "bytes \<Rightarrow> posix_acl vfs_result" where
  "acl_parse bs =
     (if length bs < 4 \<or> length bs mod 8 \<noteq> 4 then Inl InvalidArgument
      else if u32_from_le_bytes (bs ! 0) (bs ! 1) (bs ! 2) (bs ! 3) \<noteq> ACL_VERSION then Inl InvalidArgument
      else let entries = parse_entries (drop 4 bs) in
        case acl_validate entries of
          Inl err \<Rightarrow> Inl err
        | Inr _ \<Rightarrow> Inr \<lparr>acl_entries = entries\<rparr>)"

definition encode_entry :: "acl_entry \<Rightarrow> bytes" where
  "encode_entry e = u16_to_le_bytes (ae_tag e) @ u16_to_le_bytes (ae_perm e) @ u32_to_le_bytes (ae_id e)"

definition acl_encode :: "posix_acl \<Rightarrow> bytes" where
  "acl_encode acl = u32_to_le_bytes ACL_VERSION @ concat (map encode_entry (acl_entries acl))"

section \<open>The decision\<close>

definition acl_mask_of :: "acl_entry list \<Rightarrow> 16 word option" where
  "acl_mask_of es = foldl (\<lambda>m e. if ae_tag e = ACL_MASK then Some (ae_perm e) else m) None es"

definition perm_allows :: "acl_check_kind \<Rightarrow> 16 word \<Rightarrow> bool" where
  "perm_allows kind p \<longleftrightarrow> p AND perm_bit kind \<noteq> 0"

definition group_matches :: "credentials \<Rightarrow> gid \<Rightarrow> acl_entry \<Rightarrow> bool" where
  "group_matches c inode_gid e =
     (if ae_tag e = ACL_GROUP_OBJ then cr_fsgid c = inode_gid \<or> inode_gid \<in> set (cr_groups c)
      else if ae_tag e = ACL_GROUP then cr_fsgid c = ae_id e \<or> ae_id e \<in> set (cr_groups c)
      else False)"

definition group_effective :: "16 word option \<Rightarrow> acl_entry \<Rightarrow> 16 word" where
  "group_effective mk e = (case mk of Some m \<Rightarrow> ae_perm e AND m | None \<Rightarrow> ae_perm e)"

text \<open>The loop over the group entries: it returns the decision, or goes on without one when no entry matched.\<close>

fun group_scan :: "credentials \<Rightarrow> gid \<Rightarrow> acl_check_kind \<Rightarrow> 16 word option \<Rightarrow> bool \<Rightarrow> acl_entry list \<Rightarrow> bool option" where
  "group_scan c g kind mk group_hit [] = (if group_hit then Some False else None)"
| "group_scan c g kind mk group_hit (e # es) =
     (if \<not> group_matches c g e then group_scan c g kind mk group_hit es
      else if perm_allows kind (group_effective mk e) then Some True
      else group_scan c g kind mk True es)"

definition acl_check :: "credentials \<Rightarrow> posix_acl \<Rightarrow> uid \<Rightarrow> gid \<Rightarrow> acl_check_kind \<Rightarrow> bool" where
  "acl_check c acl inode_uid inode_gid kind =
     (let es = acl_entries acl; mk = acl_mask_of es in
      if cr_fsuid c = inode_uid then
        (case List.find (\<lambda>e. ae_tag e = ACL_USER_OBJ) es of
           Some e \<Rightarrow> perm_allows kind (ae_perm e)
         | None \<Rightarrow> False)
      else case List.find (\<lambda>e. ae_tag e = ACL_USER \<and> ae_id e = cr_fsuid c) es of
        Some e \<Rightarrow> perm_allows kind (ae_perm e AND (case mk of Some m \<Rightarrow> m | None \<Rightarrow> 0))
      | None \<Rightarrow>
          (case group_scan c inode_gid kind mk False es of
             Some decision \<Rightarrow> decision
           | None \<Rightarrow>
               (case List.find (\<lambda>e. ae_tag e = ACL_OTHER) es of
                  Some e \<Rightarrow> perm_allows kind (ae_perm e)
                | None \<Rightarrow> False)))"

fun mode_check :: "credentials \<Rightarrow> uid \<Rightarrow> gid \<Rightarrow> file_mode \<Rightarrow> acl_check_kind \<Rightarrow> bool" where
  "mode_check c u g m AclRead = can_read c u g m"
| "mode_check c u g m AclWrite = can_write c u g m"
| "mode_check c u g m (AclExec is_dir) = can_exec c u g m is_dir"

section \<open>Inheritance and the mask\<close>

definition owner_perm :: "file_mode \<Rightarrow> 16 word" where "owner_perm m = drop_bit 6 m AND 7"
definition group_perm :: "file_mode \<Rightarrow> 16 word" where "group_perm m = drop_bit 3 m AND 7"
definition other_perm :: "file_mode \<Rightarrow> 16 word" where "other_perm m = m AND 7"

definition create_entry :: "file_mode \<Rightarrow> acl_entry \<Rightarrow> acl_entry" where
  "create_entry m e =
     (if ae_tag e = ACL_USER_OBJ then e\<lparr>ae_perm := owner_perm m\<rparr>
      else if ae_tag e = ACL_OTHER then e\<lparr>ae_perm := other_perm m\<rparr>
      else if ae_tag e = ACL_MASK then e\<lparr>ae_perm := group_perm m\<rparr>
      else e)"

definition acl_create :: "posix_acl \<Rightarrow> file_mode \<Rightarrow> (posix_acl \<times> file_mode) vfs_result" where
  "acl_create dflt m =
     (let entries = map (create_entry m) (acl_entries dflt);
          has_mask = list_ex (\<lambda>e. ae_tag e = ACL_MASK) (acl_entries dflt);
          adjusted = (if has_mask then (m AND NOT 0x38) OR push_bit 3 (group_perm m) else m)
      in case acl_validate entries of
           Inl err \<Rightarrow> Inl err
         | Inr _ \<Rightarrow> Inr (\<lparr>acl_entries = entries\<rparr>, adjusted))"

definition mask_to_mode_group :: "posix_acl \<Rightarrow> 16 word option" where
  "mask_to_mode_group acl = map_option ae_perm (List.find (\<lambda>e. ae_tag e = ACL_MASK) (acl_entries acl))"

definition can_set_acl :: "credentials \<Rightarrow> uid \<Rightarrow> bool" where
  "can_set_acl c inode_uid \<longleftrightarrow> is_owner c inode_uid \<or> has_cap c FOwner"

section \<open>What a valid list is\<close>

text \<open>The order of the entries and the form of one entry.\<close>

definition entry_less :: "acl_entry \<Rightarrow> acl_entry \<Rightarrow> bool" where
  "entry_less a b \<longleftrightarrow> ae_tag a < ae_tag b \<or> ae_tag a = ae_tag b \<and> ae_id a < ae_id b"

definition entry_ok :: "acl_entry \<Rightarrow> bool" where
  "entry_ok e \<longleftrightarrow>
     ae_perm e \<le> 7 \<and>
     (ae_tag e \<in> {ACL_USER_OBJ, ACL_GROUP_OBJ, ACL_MASK, ACL_OTHER} \<and> ae_id e = ACL_UNDEFINED_ID
      \<or> ae_tag e \<in> {ACL_USER, ACL_GROUP} \<and> ae_id e \<noteq> ACL_UNDEFINED_ID)"

definition has_tag :: "16 word \<Rightarrow> acl_entry list \<Rightarrow> bool" where
  "has_tag t es \<longleftrightarrow> (\<exists>e\<in>set es. ae_tag e = t)"

definition acl_valid :: "acl_entry list \<Rightarrow> bool" where
  "acl_valid es \<longleftrightarrow>
     (\<forall>e\<in>set es. entry_ok e) \<and> sorted_wrt entry_less es \<and>
     has_tag ACL_USER_OBJ es \<and> has_tag ACL_GROUP_OBJ es \<and> has_tag ACL_OTHER es \<and>
     (has_tag ACL_USER es \<or> has_tag ACL_GROUP es \<longrightarrow> has_tag ACL_MASK es)"

text \<open>A flag of the scan is only set when an entry of that tag has gone by.\<close>

definition scan_prev :: "acl_scan \<Rightarrow> acl_entry" where
  "scan_prev st = \<lparr>ae_tag = sc_prev_tag st, ae_perm = 0, ae_id = sc_prev_id st\<rparr>"

definition seen :: "acl_scan \<Rightarrow> 16 word \<Rightarrow> bool" where
  "seen st t \<longleftrightarrow> t < sc_prev_tag st \<or> t = sc_prev_tag st \<and> sc_prev_id st = ACL_UNDEFINED_ID"

definition scan_inv :: "acl_scan \<Rightarrow> bool" where
  "scan_inv st \<longleftrightarrow>
     (sc_user_obj st \<longrightarrow> seen st ACL_USER_OBJ) \<and> (sc_group_obj st \<longrightarrow> seen st ACL_GROUP_OBJ) \<and>
     (sc_mask st \<longrightarrow> seen st ACL_MASK) \<and> (sc_other st \<longrightarrow> seen st ACL_OTHER)"

definition scan_update :: "acl_scan \<Rightarrow> acl_entry \<Rightarrow> acl_scan" where
  "scan_update st e =
     \<lparr>sc_user_obj = sc_user_obj st \<or> ae_tag e = ACL_USER_OBJ, sc_group_obj = sc_group_obj st \<or> ae_tag e = ACL_GROUP_OBJ,
      sc_other = sc_other st \<or> ae_tag e = ACL_OTHER, sc_mask = sc_mask st \<or> ae_tag e = ACL_MASK,
      sc_named_user = sc_named_user st \<or> ae_tag e = ACL_USER, sc_named_group = sc_named_group st \<or> ae_tag e = ACL_GROUP,
      sc_prev_tag = ae_tag e, sc_prev_id = ae_id e\<rparr>"

lemma undefined_greatest: "x \<le> ACL_UNDEFINED_ID" "ACL_UNDEFINED_ID \<le> x \<longleftrightarrow> x = ACL_UNDEFINED_ID"
  by (simp_all add: ACL_UNDEFINED_ID_def word_order.extremum_unique)

lemma acl_tags_distinct: "distinct [ACL_USER_OBJ, ACL_USER, ACL_GROUP_OBJ, ACL_GROUP, ACL_MASK, ACL_OTHER]"
  by (simp add: acl_tag_defs)

lemma acl_tag_neqs [simp]:
  "ACL_USER_OBJ \<noteq> ACL_USER" "ACL_USER_OBJ \<noteq> ACL_GROUP_OBJ" "ACL_USER_OBJ \<noteq> ACL_GROUP" "ACL_USER_OBJ \<noteq> ACL_MASK"
  "ACL_USER_OBJ \<noteq> ACL_OTHER" "ACL_USER \<noteq> ACL_GROUP_OBJ" "ACL_USER \<noteq> ACL_GROUP" "ACL_USER \<noteq> ACL_MASK"
  "ACL_USER \<noteq> ACL_OTHER" "ACL_GROUP_OBJ \<noteq> ACL_GROUP" "ACL_GROUP_OBJ \<noteq> ACL_MASK" "ACL_GROUP_OBJ \<noteq> ACL_OTHER"
  "ACL_GROUP \<noteq> ACL_MASK" "ACL_GROUP \<noteq> ACL_OTHER" "ACL_MASK \<noteq> ACL_OTHER"
  by (simp_all add: acl_tag_defs)

lemmas acl_tag_neqs' [simp] = acl_tag_neqs [THEN not_sym]

lemma seen_not_less: "seen st t \<Longrightarrow> ae_tag e = t \<Longrightarrow> \<not> entry_less (scan_prev st) e"
  unfolding seen_def entry_less_def scan_prev_def
  by (elim disjE conjE) (simp_all add: leD undefined_greatest(1))

lemma order_guard:
  "(ae_tag e < sc_prev_tag st \<or> ae_tag e = sc_prev_tag st \<and> ae_id e \<le> sc_prev_id st) \<longleftrightarrow> \<not> entry_less (scan_prev st) e"
  by (auto simp: entry_less_def scan_prev_def)

lemma scan_tag_eq:
  assumes "scan_inv st" "ae_perm e \<le> 7"
  shows "case scan_tag st e of
       Inl err \<Rightarrow> err = InvalidArgument \<and> \<not> (entry_ok e \<and> entry_less (scan_prev st) e)
     | Inr st' \<Rightarrow> entry_ok e \<and> scan_prev st' = scan_prev st \<and>
         st'\<lparr>sc_prev_tag := ae_tag e, sc_prev_id := ae_id e\<rparr> = scan_update st e"
proof -
  note defs = scan_tag_def entry_ok_def scan_prev_def scan_update_def
  note inv = assms(1) [unfolded scan_inv_def]
  consider "ae_tag e = ACL_USER_OBJ" | "ae_tag e = ACL_USER" | "ae_tag e = ACL_GROUP_OBJ" | "ae_tag e = ACL_GROUP"
    | "ae_tag e = ACL_MASK" | "ae_tag e = ACL_OTHER"
    | "ae_tag e \<notin> {ACL_USER_OBJ, ACL_USER, ACL_GROUP_OBJ, ACL_GROUP, ACL_MASK, ACL_OTHER}" by blast
  then show ?thesis
  proof cases
    case 1 then show ?thesis using inv assms(2) seen_not_less [of st ACL_USER_OBJ e] by (auto simp: defs)
  next
    case 2 then show ?thesis using assms(2) by (auto simp: defs)
  next
    case 3 then show ?thesis using inv assms(2) seen_not_less [of st ACL_GROUP_OBJ e] by (auto simp: defs)
  next
    case 4 then show ?thesis using assms(2) by (auto simp: defs)
  next
    case 5 then show ?thesis using inv assms(2) seen_not_less [of st ACL_MASK e] by (auto simp: defs)
  next
    case 6 then show ?thesis using inv assms(2) seen_not_less [of st ACL_OTHER e] by (auto simp: defs)
  next
    case 7 then show ?thesis by (auto simp: defs)
  qed
qed

lemma scan_entry_eq:
  assumes "scan_inv st"
  shows "scan_entry st e = (if entry_ok e \<and> entry_less (scan_prev st) e then Inr (scan_update st e) else Inl InvalidArgument)"
proof (cases "7 < ae_perm e")
  case True
  then show ?thesis by (simp add: scan_entry_def entry_ok_def not_le [symmetric])
next
  case False
  then have eq: "scan_entry st e = (case scan_tag st e of Inl err \<Rightarrow> Inl err
      | Inr st' \<Rightarrow> if \<not> entry_less (scan_prev st') e then Inl InvalidArgument
          else Inr (st'\<lparr>sc_prev_tag := ae_tag e, sc_prev_id := ae_id e\<rparr>))"
    by (simp only: scan_entry_def order_guard if_False)
  from False have "ae_perm e \<le> 7" by simp
  note tag = scan_tag_eq [OF assms this]
  show ?thesis
  proof (cases "scan_tag st e")
    case (Inl err)
    then show ?thesis using tag unfolding eq by simp
  next
    case (Inr st')
    then show ?thesis using tag unfolding eq by (simp del: acl_scan.update_convs)
  qed
qed

lemma seen_step:
  assumes "seen st t" "entry_less (scan_prev st) e"
  shows "seen (scan_update st e) t"
proof -
  have "t \<noteq> ae_tag e" using assms seen_not_less [of st t e] by blast
  moreover have "t \<le> sc_prev_tag st" "sc_prev_tag st \<le> ae_tag e"
    using assms by (auto simp: seen_def entry_less_def scan_prev_def)
  ultimately show ?thesis by (simp add: seen_def scan_update_def)
qed

lemma seen_new: "ae_id e = ACL_UNDEFINED_ID \<Longrightarrow> seen (scan_update st e) (ae_tag e)"
  by (simp add: seen_def scan_update_def)

lemma entry_ok_base: "entry_ok e \<Longrightarrow> ae_tag e \<in> {ACL_USER_OBJ, ACL_GROUP_OBJ, ACL_MASK, ACL_OTHER} \<Longrightarrow> ae_id e = ACL_UNDEFINED_ID"
  by (auto simp: entry_ok_def)

lemma scan_inv_update:
  assumes "scan_inv st" "entry_ok e" "entry_less (scan_prev st) e"
  shows "scan_inv (scan_update st e)"
proof -
  have new: "ae_tag e = t \<Longrightarrow> t \<in> {ACL_USER_OBJ, ACL_GROUP_OBJ, ACL_MASK, ACL_OTHER} \<Longrightarrow> seen (scan_update st e) t" for t
    using seen_new [of e st] entry_ok_base [OF assms(2)] by blast
  have flags:
    "sc_user_obj (scan_update st e) = (sc_user_obj st \<or> ae_tag e = ACL_USER_OBJ)"
    "sc_group_obj (scan_update st e) = (sc_group_obj st \<or> ae_tag e = ACL_GROUP_OBJ)"
    "sc_mask (scan_update st e) = (sc_mask st \<or> ae_tag e = ACL_MASK)"
    "sc_other (scan_update st e) = (sc_other st \<or> ae_tag e = ACL_OTHER)"
    by (simp_all add: scan_update_def)
  show ?thesis
    unfolding scan_inv_def flags
    using assms(1) [unfolded scan_inv_def] new seen_step [OF _ assms(3)] by blast
qed

text \<open>The scan succeeds exactly on well-formed entries in strictly ascending order.\<close>

lemma entry_less_trans: "entry_less a b \<Longrightarrow> entry_less b c \<Longrightarrow> entry_less a c"
  by (auto simp: entry_less_def)

lemma scan_prev_update: "entry_less (scan_prev (scan_update st e)) f \<longleftrightarrow> entry_less e f"
  by (simp add: entry_less_def scan_prev_def scan_update_def)

lemma scan_entries_eq:
  "scan_inv st \<Longrightarrow>
   scan_entries st es =
     (if (\<forall>e\<in>set es. entry_ok e \<and> entry_less (scan_prev st) e) \<and> sorted_wrt entry_less es
      then Inr (foldl scan_update st es) else Inl InvalidArgument)"
proof (induction es arbitrary: st)
  case (Cons e es)
  show ?case
  proof (cases "entry_ok e \<and> entry_less (scan_prev st) e")
    case True
    then have "entry_less (scan_prev st) f" if "entry_less e f" for f using entry_less_trans that by blast
    then have chain: "(\<forall>f\<in>set es. entry_ok f \<and> entry_less e f) \<and> sorted_wrt entry_less es \<longleftrightarrow>
        (\<forall>f\<in>set (e # es). entry_ok f \<and> entry_less (scan_prev st) f) \<and> sorted_wrt entry_less (e # es)"
      using True by auto
    have "scan_inv (scan_update st e)" using Cons.prems True scan_inv_update by blast
    note IH = Cons.IH [OF this, unfolded scan_prev_update chain]
    have "scan_entry st e = Inr (scan_update st e)" using True by (simp add: scan_entry_eq [OF Cons.prems])
    then show ?thesis by (simp only: scan_entries.simps sum.case IH foldl.simps)
  next
    case False
    then show ?thesis by (auto simp: scan_entry_eq [OF Cons.prems])
  qed
qed simp

lemma scan_flags:
  "sc_user_obj (foldl scan_update st es) = (sc_user_obj st \<or> has_tag ACL_USER_OBJ es)"
  "sc_group_obj (foldl scan_update st es) = (sc_group_obj st \<or> has_tag ACL_GROUP_OBJ es)"
  "sc_other (foldl scan_update st es) = (sc_other st \<or> has_tag ACL_OTHER es)"
  "sc_mask (foldl scan_update st es) = (sc_mask st \<or> has_tag ACL_MASK es)"
  "sc_named_user (foldl scan_update st es) = (sc_named_user st \<or> has_tag ACL_USER es)"
  "sc_named_group (foldl scan_update st es) = (sc_named_group st \<or> has_tag ACL_GROUP es)"
  by (induction es arbitrary: st) (auto simp: scan_update_def has_tag_def)

lemma start_less: "entry_ok e \<Longrightarrow> entry_less (scan_prev scan_start) e"
  by (auto simp: entry_ok_def entry_less_def scan_prev_def scan_start_def acl_tag_defs)

lemma acl_validate_eq: "acl_validate es = (if acl_valid es then Inr () else Inl InvalidArgument)"
proof -
  have "scan_inv scan_start" by (simp add: scan_inv_def scan_start_def)
  then have "scan_entries scan_start es =
      (if (\<forall>e\<in>set es. entry_ok e) \<and> sorted_wrt entry_less es then Inr (foldl scan_update scan_start es)
       else Inl InvalidArgument)"
    using start_less by (simp add: scan_entries_eq)
  then show ?thesis
    by (simp add: acl_validate_def acl_valid_def scan_flags) (simp add: scan_start_def)
qed


section \<open>The byte form\<close>

lemma parse_encode_entries: "parse_entries (concat (map encode_entry es)) = es"
  by (induction es)
    (simp_all add: encode_entry_def u16_to_le_bytes_def u32_to_le_bytes_def u16_from_to u32_from_to)

lemma encode_parse_entries: "length bs mod 8 = 0 \<Longrightarrow> concat (map encode_entry (parse_entries bs)) = bs"
proof (induction bs rule: parse_entries.induct)
  case (1 b0 b1 b2 b3 b4 b5 b6 b7 bs)
  then show ?case by (simp add: encode_entry_def u16_to_from u32_to_from)
qed (simp_all add: mod_less)

lemma length_encode_entries: "length (concat (map encode_entry es)) = 8 * length es"
  by (induction es) (simp_all add: encode_entry_def u16_to_le_bytes_def u32_to_le_bytes_def)

lemma acl_parse_encode: "acl_parse (acl_encode acl) = (if acl_valid (acl_entries acl) then Inr acl else Inl InvalidArgument)"
proof -
  have len: "length (acl_encode acl) = 4 + 8 * length (acl_entries acl)"
    by (simp add: acl_encode_def length_encode_entries u32_to_le_bytes_def)
  have ver: "u32_from_le_bytes (acl_encode acl ! 0) (acl_encode acl ! 1) (acl_encode acl ! 2) (acl_encode acl ! 3) = ACL_VERSION"
    by (simp add: acl_encode_def u32_to_le_bytes_def u32_from_to)
  have rest: "parse_entries (drop 4 (acl_encode acl)) = acl_entries acl"
    by (simp add: acl_encode_def u32_to_le_bytes_def parse_encode_entries)
  show ?thesis
    unfolding acl_parse_def rest ver len Let_def acl_validate_eq by (simp add: mod_add_left_eq)
qed

lemma list_of_four: "4 \<le> length bs \<Longrightarrow> bs = bs ! 0 # bs ! 1 # bs ! 2 # bs ! 3 # drop 4 bs"
  by (cases bs; cases "tl bs"; cases "tl (tl bs)"; cases "tl (tl (tl bs))") (auto simp: numeral_eq_Suc)

lemma acl_encode_parse:
  assumes "acl_parse bs = Inr acl"
  shows "acl_encode acl = bs \<and> acl_valid (acl_entries acl)"
proof -
  from assms have len: "4 \<le> length bs" "length bs mod 8 = 4"
    and ver: "u32_from_le_bytes (bs ! 0) (bs ! 1) (bs ! 2) (bs ! 3) = ACL_VERSION"
    and acl: "acl = \<lparr>acl_entries = parse_entries (drop 4 bs)\<rparr>" "acl_valid (parse_entries (drop 4 bs))"
    by (auto simp: acl_parse_def acl_validate_eq Let_def split: if_splits)
  have "length (drop 4 bs) mod 8 = 0" using len mod_eq_dvd_iff_nat [of 4 "length bs" 8] by (simp add: dvd_eq_mod_eq_0)
  then have "concat (map encode_entry (parse_entries (drop 4 bs))) = drop 4 bs" by (rule encode_parse_entries)
  moreover have "u32_to_le_bytes ACL_VERSION = [bs ! 0, bs ! 1, bs ! 2, bs ! 3]"
    using u32_to_from [of "bs ! 0" "bs ! 1" "bs ! 2" "bs ! 3"] ver by simp
  ultimately show ?thesis using acl list_of_four [OF len(1)] by (simp add: acl_encode_def)
qed

lemma acl_parse_error: "acl_parse bs = Inl err \<Longrightarrow> err = InvalidArgument"
  by (auto simp: acl_parse_def acl_validate_eq Let_def split: if_splits)

end
