(* ===== verification/Xattr.thy ===== *)
theory Xattr
  imports Acl "HOL-Library.Mapping" "HOL-Library.List_Lexorder"
begin

unbundle bit_operations_syntax

text \<open>
  Extended attributes and the operations that decide or change who may use a file: \<open>libs/vfs/src/xattr.rs\<close>, the
  access check of \<open>libs/vfs/src/acl.rs\<close>, and \<open>chmod_inode\<close>, \<open>chown_inode\<close> and the creation helpers of
  \<open>libs/vfs/src/operation.rs\<close>, over the in-memory backend of \<open>general/src/vfs/tmpfs.rs\<close>. The inode carries the
  attributes those operations read and write; the other metadata (sizes, link counts, time stamps) is not part
  of it.
\<close>

section \<open>The inode and its backend\<close>

record vfs_inode =
  in_kind :: file_type
  in_mode :: file_mode
  in_uid :: uid
  in_gid :: gid
  in_has_xattrs :: bool
  in_xattrs :: "(bytes, bytes) mapping"
  in_events :: "32 word list"

definition bytes_of_string :: "string \<Rightarrow> bytes" where
  "bytes_of_string s = map of_char s"

definition XATTR_NAME_MAX :: nat where "XATTR_NAME_MAX = 255"
definition XATTR_SIZE_MAX :: nat where "XATTR_SIZE_MAX = 65536"
definition XATTR_CREATE :: "32 word" where "XATTR_CREATE = 1"
definition XATTR_REPLACE :: "32 word" where "XATTR_REPLACE = 2"
definition ACL_ACCESS_XATTR :: bytes where "ACL_ACCESS_XATTR = bytes_of_string ''system.posix_acl_access''"
definition ACL_DEFAULT_XATTR :: bytes where "ACL_DEFAULT_XATTR = bytes_of_string ''system.posix_acl_default''"
definition IN_ATTRIB :: "32 word" where "IN_ATTRIB = 4"

definition set_mode :: "file_mode \<Rightarrow> vfs_inode \<Rightarrow> vfs_inode" where
  "set_mode m i = i\<lparr>in_mode := m\<rparr>"

definition inode_set_owner :: "uid option \<Rightarrow> gid option \<Rightarrow> vfs_inode \<Rightarrow> vfs_inode" where
  "inode_set_owner u g i =
     i\<lparr>in_uid := (case u of Some u' \<Rightarrow> u' | None \<Rightarrow> in_uid i), in_gid := (case g of Some g' \<Rightarrow> g' | None \<Rightarrow> in_gid i)\<rparr>"

definition tmpfs_getxattr :: "vfs_inode \<Rightarrow> bytes \<Rightarrow> bytes option vfs_result" where
  "tmpfs_getxattr i name = Inr (Mapping.lookup (in_xattrs i) name)"

definition tmpfs_setxattr :: "vfs_inode \<Rightarrow> bytes \<Rightarrow> bytes \<Rightarrow> 32 word \<Rightarrow> vfs_inode vfs_result" where
  "tmpfs_setxattr i name v flags =
     (let exists = Mapping.lookup (in_xattrs i) name \<noteq> None in
      if flags AND XATTR_CREATE \<noteq> 0 \<and> exists then Inl AlreadyExists
      else if flags AND XATTR_REPLACE \<noteq> 0 \<and> \<not> exists then Inl NoData
      else Inr (i\<lparr>in_xattrs := Mapping.update name v (in_xattrs i)\<rparr>))"

definition tmpfs_listxattr :: "vfs_inode \<Rightarrow> bytes list vfs_result" where
  "tmpfs_listxattr i = Inr (Mapping.ordered_keys (in_xattrs i))"

definition tmpfs_removexattr :: "vfs_inode \<Rightarrow> bytes \<Rightarrow> vfs_inode vfs_result" where
  "tmpfs_removexattr i name =
     (if Mapping.lookup (in_xattrs i) name = None then Inl NoData
      else Inr (i\<lparr>in_xattrs := Mapping.delete name (in_xattrs i)\<rparr>))"

definition tmpfs_chmod :: "vfs_inode \<Rightarrow> file_mode \<Rightarrow> vfs_inode vfs_result" where
  "tmpfs_chmod i m = Inr (set_mode m i)"

definition tmpfs_chown :: "vfs_inode \<Rightarrow> uid option \<Rightarrow> gid option \<Rightarrow> vfs_inode vfs_result" where
  "tmpfs_chown i u g = Inr (if u \<noteq> None \<or> g \<noteq> None then inode_set_owner u g i else i)"

definition tmpfs_new_inode :: "file_type \<Rightarrow> file_mode \<Rightarrow> credentials \<Rightarrow> vfs_inode" where
  "tmpfs_new_inode kind m c =
     \<lparr>in_kind = kind, in_mode = m, in_uid = cr_fsuid c, in_gid = cr_fsgid c, in_has_xattrs = False,
      in_xattrs = Mapping.empty, in_events = []\<rparr>"

section \<open>Attribute names\<close>

datatype xattr_namespace = NsUser | NsTrusted | NsSecurity | NsPosixAclAccess | NsPosixAclDefault | NsOtherSystem

definition strip_prefix :: "bytes \<Rightarrow> bytes \<Rightarrow> bytes option" where
  "strip_prefix p s = (if take (length p) s = p then Some (drop (length p) s) else None)"

definition bad_suffix :: "bytes \<Rightarrow> bool" where
  "bad_suffix rest \<longleftrightarrow> rest = [] \<or> take 1 rest = bytes_of_string ''.''"

definition parse_name :: "bytes \<Rightarrow> xattr_namespace vfs_result" where
  "parse_name name =
     (if name = [] \<or> XATTR_NAME_MAX < length name then Inl InvalidArgument
      else if of_char CHR ''/'' \<in> set name then Inl InvalidArgument
      else case strip_prefix (bytes_of_string ''user.'') name of
        Some rest \<Rightarrow> if bad_suffix rest then Inl InvalidArgument else Inr NsUser
      | None \<Rightarrow> (case strip_prefix (bytes_of_string ''trusted.'') name of
          Some rest \<Rightarrow> if bad_suffix rest then Inl InvalidArgument else Inr NsTrusted
        | None \<Rightarrow> (case strip_prefix (bytes_of_string ''security.'') name of
            Some rest \<Rightarrow> if bad_suffix rest then Inl InvalidArgument else Inr NsSecurity
          | None \<Rightarrow> (case strip_prefix (bytes_of_string ''system.'') name of
              Some rest \<Rightarrow>
                if rest = [] then Inl InvalidArgument
                else if name = ACL_ACCESS_XATTR then Inr NsPosixAclAccess
                else if name = ACL_DEFAULT_XATTR then Inr NsPosixAclDefault
                else Inr NsOtherSystem
            | None \<Rightarrow> Inl NotSupported))))"

definition xattr_check_sticky :: "vfs_inode \<Rightarrow> credentials \<Rightarrow> unit vfs_result" where
  "xattr_check_sticky i c =
     (if \<not> mode_has (in_mode i) ISVTX then Inr ()
      else if is_owner c (in_uid i) \<or> has_cap c FOwner then Inr ()
      else Inl OperationNotPermitted)"

section \<open>The attribute operations\<close>

definition vfs_getxattr :: "vfs_inode \<Rightarrow> bytes \<Rightarrow> credentials \<Rightarrow> bytes option vfs_result" where
  "vfs_getxattr i name c =
     (case parse_name name of
        Inl err \<Rightarrow> Inl err
      | Inr NsUser \<Rightarrow>
          if \<not> can_read c (in_uid i) (in_gid i) (in_mode i) then Inl PermissionDenied else tmpfs_getxattr i name
      | Inr NsTrusted \<Rightarrow> if \<not> has_cap c SysAdmin then Inl OperationNotPermitted else tmpfs_getxattr i name
      | Inr NsSecurity \<Rightarrow> if \<not> has_cap c SysAdmin then Inl OperationNotPermitted else tmpfs_getxattr i name
      | Inr NsPosixAclAccess \<Rightarrow> tmpfs_getxattr i name
      | Inr NsPosixAclDefault \<Rightarrow> tmpfs_getxattr i name
      | Inr NsOtherSystem \<Rightarrow> Inl NotSupported)"

text \<open>The permission match of \<open>setxattr\<close>; an access control list is parsed before the backend sees it.\<close>

definition setxattr_guard :: "vfs_inode \<Rightarrow> xattr_namespace \<Rightarrow> bytes \<Rightarrow> credentials \<Rightarrow> posix_acl option vfs_result" where
  "setxattr_guard i ns v c =
     (case ns of
        NsUser \<Rightarrow>
          if \<not> can_write c (in_uid i) (in_gid i) (in_mode i) then Inl PermissionDenied
          else if in_kind i = Directory then
            (case xattr_check_sticky i c of Inl err \<Rightarrow> Inl err | Inr _ \<Rightarrow> Inr None)
          else Inr None
      | NsTrusted \<Rightarrow> if \<not> has_cap c SysAdmin then Inl OperationNotPermitted else Inr None
      | NsSecurity \<Rightarrow> if \<not> has_cap c SysAdmin then Inl OperationNotPermitted else Inr None
      | NsPosixAclAccess \<Rightarrow>
          if \<not> is_owner c (in_uid i) \<and> \<not> has_cap c FOwner then Inl OperationNotPermitted
          else map_sum id Some (acl_parse v)
      | NsPosixAclDefault \<Rightarrow>
          if \<not> is_owner c (in_uid i) \<and> \<not> has_cap c FOwner then Inl OperationNotPermitted
          else map_sum id Some (acl_parse v)
      | NsOtherSystem \<Rightarrow> Inl NotSupported)"

definition sync_mode_group :: "posix_acl option \<Rightarrow> vfs_inode \<Rightarrow> vfs_inode" where
  "sync_mode_group acl i =
     (case Option.bind acl mask_to_mode_group of
        None \<Rightarrow> i
      | Some mask_perm \<Rightarrow>
          (case tmpfs_chmod i ((in_mode i AND NOT 0x38) OR push_bit 3 mask_perm) of Inl _ \<Rightarrow> i | Inr i' \<Rightarrow> i'))"

definition vfs_setxattr :: "vfs_inode \<Rightarrow> bytes \<Rightarrow> bytes \<Rightarrow> 32 word \<Rightarrow> credentials \<Rightarrow> vfs_inode vfs_result" where
  "vfs_setxattr i name v flags c =
     (if flags AND NOT (XATTR_CREATE OR XATTR_REPLACE) \<noteq> 0 then Inl InvalidArgument
      else case parse_name name of
        Inl err \<Rightarrow> Inl err
      | Inr ns \<Rightarrow>
          if XATTR_SIZE_MAX < length v then Inl FileTooLarge
          else case setxattr_guard i ns v c of
            Inl err \<Rightarrow> Inl err
          | Inr acl \<Rightarrow>
              (case tmpfs_setxattr i name v flags of
                 Inl err \<Rightarrow> Inl err
               | Inr i1 \<Rightarrow>
                   let i2 = i1\<lparr>in_has_xattrs := True\<rparr>
                   in Inr (if ns = NsPosixAclAccess then sync_mode_group acl i2 else i2)))"

definition removexattr_guard :: "vfs_inode \<Rightarrow> xattr_namespace \<Rightarrow> credentials \<Rightarrow> unit vfs_result" where
  "removexattr_guard i ns c =
     (case ns of
        NsUser \<Rightarrow> if \<not> can_write c (in_uid i) (in_gid i) (in_mode i) then Inl PermissionDenied else Inr ()
      | NsTrusted \<Rightarrow> if \<not> has_cap c SysAdmin then Inl OperationNotPermitted else Inr ()
      | NsSecurity \<Rightarrow> if \<not> has_cap c SysAdmin then Inl OperationNotPermitted else Inr ()
      | NsPosixAclAccess \<Rightarrow>
          if \<not> is_owner c (in_uid i) \<and> \<not> has_cap c FOwner then Inl OperationNotPermitted else Inr ()
      | NsPosixAclDefault \<Rightarrow>
          if \<not> is_owner c (in_uid i) \<and> \<not> has_cap c FOwner then Inl OperationNotPermitted else Inr ()
      | NsOtherSystem \<Rightarrow> Inl NotSupported)"

definition vfs_removexattr :: "vfs_inode \<Rightarrow> bytes \<Rightarrow> credentials \<Rightarrow> vfs_inode vfs_result" where
  "vfs_removexattr i name c =
     (case parse_name name of
        Inl err \<Rightarrow> Inl err
      | Inr ns \<Rightarrow>
          (case removexattr_guard i ns c of
             Inl err \<Rightarrow> Inl err
           | Inr _ \<Rightarrow>
               (case tmpfs_removexattr i name of
                  Inl err \<Rightarrow> Inl err
                | Inr i1 \<Rightarrow>
                    Inr (case tmpfs_listxattr i1 of
                      Inl _ \<Rightarrow> i1
                    | Inr names \<Rightarrow> if names = [] then i1\<lparr>in_has_xattrs := False\<rparr> else i1))))"

definition encode_list :: "bytes list \<Rightarrow> bytes" where
  "encode_list names = concat (map (\<lambda>name. name @ [0]) names)"

section \<open>Access checks\<close>

fun acl_override :: "credentials \<Rightarrow> file_mode \<Rightarrow> acl_check_kind \<Rightarrow> bool" where
  "acl_override c m AclRead \<longleftrightarrow> has_cap c DacReadSearch \<or> has_cap c DacOverride"
| "acl_override c m AclWrite \<longleftrightarrow> has_cap c DacOverride"
| "acl_override c m (AclExec is_dir) \<longleftrightarrow> has_cap c DacOverride \<and> (is_dir \<or> mode_has_any m ANY_EXEC)"

definition check_access :: "credentials \<Rightarrow> vfs_inode \<Rightarrow> acl_check_kind \<Rightarrow> bool" where
  "check_access c i kind =
     (if acl_override c (in_mode i) kind then True
      else if \<not> in_has_xattrs i then mode_check c (in_uid i) (in_gid i) (in_mode i) kind
      else case tmpfs_getxattr i ACL_ACCESS_XATTR of
        Inr (Some bs) \<Rightarrow>
          (case acl_parse bs of
             Inr acl \<Rightarrow> acl_check c acl (in_uid i) (in_gid i) kind
           | Inl _ \<Rightarrow> mode_check c (in_uid i) (in_gid i) (in_mode i) kind)
      | _ \<Rightarrow> mode_check c (in_uid i) (in_gid i) (in_mode i) kind)"

definition op_check_sticky :: "credentials \<Rightarrow> vfs_inode \<Rightarrow> uid \<Rightarrow> unit vfs_result" where
  "op_check_sticky c parent child_uid =
     (if sticky (in_mode parent) \<and> cr_euid c \<noteq> in_uid parent \<and> cr_euid c \<noteq> child_uid \<and> \<not> has_cap c FOwner
      then Inl OperationNotPermitted else Inr ())"

definition check_parent_perm :: "credentials \<Rightarrow> vfs_inode \<Rightarrow> uid option \<Rightarrow> unit vfs_result" where
  "check_parent_perm c parent sticky_child_uid =
     (if \<not> check_access c parent AclWrite then Inl PermissionDenied
      else if \<not> check_access c parent (AclExec True) then Inl PermissionDenied
      else case sticky_child_uid of Some child_uid \<Rightarrow> op_check_sticky c parent child_uid | None \<Rightarrow> Inr ())"

section \<open>Changing mode and owner\<close>

definition sync_acl_mask :: "file_mode \<Rightarrow> acl_entry \<Rightarrow> acl_entry" where
  "sync_acl_mask m e =
     (if ae_tag e = ACL_MASK \<and> ae_perm e \<noteq> group_perm m then e\<lparr>ae_perm := group_perm m\<rparr> else e)"

definition sync_acl :: "file_mode \<Rightarrow> vfs_inode \<Rightarrow> vfs_inode" where
  "sync_acl m i =
     (if \<not> in_has_xattrs i then i
      else case tmpfs_getxattr i ACL_ACCESS_XATTR of
        Inr (Some bs) \<Rightarrow>
          (case acl_parse bs of
             Inr acl \<Rightarrow>
               let changed = list_ex (\<lambda>e. ae_tag e = ACL_MASK \<and> ae_perm e \<noteq> group_perm m) (acl_entries acl);
                   acl' = \<lparr>acl_entries = map (sync_acl_mask m) (acl_entries acl)\<rparr>
               in if changed
                  then (case tmpfs_setxattr i ACL_ACCESS_XATTR (acl_encode acl') 0 of Inl _ \<Rightarrow> i | Inr i' \<Rightarrow> i')
                  else i
           | Inl _ \<Rightarrow> i)
      | _ \<Rightarrow> i)"

definition chmod_inode :: "credentials \<Rightarrow> vfs_inode \<Rightarrow> file_mode \<Rightarrow> vfs_inode vfs_result" where
  "chmod_inode c i m =
     (if \<not> is_owner c (in_uid i) then Inl OperationNotPermitted
      else
        let m' = (if \<not> has_cap c FSetId \<and> cr_egid c \<noteq> in_gid i \<and> in_gid i \<notin> set (cr_groups c)
                  then mode_without m ISGID else m)
        in case tmpfs_chmod i m' of
             Inl err \<Rightarrow> Inl err
           | Inr i1 \<Rightarrow> Inr (sync_acl m' (i1\<lparr>in_events := in_events i1 @ [IN_ATTRIB]\<rparr>)))"

definition chown_allowed :: "credentials \<Rightarrow> vfs_inode \<Rightarrow> uid option \<Rightarrow> gid option \<Rightarrow> bool" where
  "chown_allowed c i u g \<longleftrightarrow>
     (case u of Some new_uid \<Rightarrow> new_uid = in_uid i \<or> has_cap c Chown | None \<Rightarrow> True) \<and>
     (case g of
        Some new_gid \<Rightarrow>
          new_gid = in_gid i \<or> has_cap c Chown \<or>
          cr_fsuid c = in_uid i \<and> (cr_egid c = new_gid \<or> new_gid \<in> set (cr_groups c))
      | None \<Rightarrow> True)"

definition clear_setid :: "file_mode \<Rightarrow> file_mode" where
  "clear_setid m = mode_without m (if mode_has m IXGRP then mode_with ISUID ISGID else ISUID)"

definition chown_inode :: "credentials \<Rightarrow> vfs_inode \<Rightarrow> uid option \<Rightarrow> gid option \<Rightarrow> vfs_inode vfs_result" where
  "chown_inode c i u g =
     (if \<not> chown_allowed c i u g then Inl OperationNotPermitted
      else case tmpfs_chown i u g of
        Inl err \<Rightarrow> Inl err
      | Inr i1 \<Rightarrow>
          let cleared =
            (if (u \<noteq> None \<or> g \<noteq> None) \<and> in_kind i1 = Regular \<and> clear_setid (in_mode i1) \<noteq> in_mode i1
             then tmpfs_chmod i1 (clear_setid (in_mode i1)) else Inr i1)
          in case cleared of
               Inl err \<Rightarrow> Inl err
             | Inr i2 \<Rightarrow> Inr (i2\<lparr>in_events := in_events i2 @ [IN_ATTRIB]\<rparr>))"

section \<open>Creation\<close>

definition derive_create_attributes ::
  "file_mode \<Rightarrow> credentials \<Rightarrow> vfs_inode \<Rightarrow> file_type \<Rightarrow> file_mode \<times> credentials" where
  "derive_create_attributes mode_after_umask caller parent kind =
     (let parent_setgid = mode_has (in_mode parent) ISGID;
          owner = (if parent_setgid then caller\<lparr>cr_fsgid := in_gid parent\<rparr> else caller);
          m = (if parent_setgid \<and> kind = Directory then mode_with mode_after_umask ISGID else mode_after_umask);
          inherited_directory_setgid = (parent_setgid \<and> kind = Directory);
          caller_in_final_group =
            (cr_fsgid caller = cr_fsgid owner \<or> cr_egid caller = cr_fsgid owner \<or> cr_fsgid owner \<in> set (cr_groups caller))
      in (if mode_has m ISGID \<and> \<not> inherited_directory_setgid \<and> \<not> caller_in_final_group \<and> \<not> has_cap caller FSetId
          then mode_without m ISGID else m,
          owner))"

definition apply_umask :: "file_mode \<Rightarrow> file_mode \<Rightarrow> file_mode" where
  "apply_umask umask requested = mode_without requested umask"

definition create_attributes :: "file_mode \<Rightarrow> credentials \<Rightarrow> vfs_inode \<Rightarrow> file_mode \<Rightarrow> file_type \<Rightarrow> file_mode \<times> credentials" where
  "create_attributes umask caller parent requested kind =
     derive_create_attributes (apply_umask umask requested) caller parent kind"

definition default_acl_for_create :: "vfs_inode \<Rightarrow> file_mode \<Rightarrow> (bytes option \<times> file_mode) vfs_result" where
  "default_acl_for_create parent m =
     (if \<not> in_has_xattrs parent then Inr (None, m)
      else case tmpfs_getxattr parent ACL_DEFAULT_XATTR of
        Inl err \<Rightarrow> Inl err
      | Inr None \<Rightarrow> Inr (None, m)
      | Inr (Some bs) \<Rightarrow>
          (case acl_parse bs of
             Inl err \<Rightarrow> Inl err
           | Inr default_acl \<Rightarrow>
               (case acl_create default_acl m of
                  Inl err \<Rightarrow> Inl err
                | Inr (child_acl, adjusted) \<Rightarrow> Inr (Some (acl_encode child_acl), adjusted))))"

definition install_child_acl :: "vfs_inode \<Rightarrow> bytes option \<Rightarrow> vfs_inode" where
  "install_child_acl i acl_bytes =
     (case acl_bytes of
        None \<Rightarrow> i
      | Some bs \<Rightarrow>
          (case tmpfs_setxattr i ACL_ACCESS_XATTR bs 0 of Inl _ \<Rightarrow> i | Inr i' \<Rightarrow> i'\<lparr>in_has_xattrs := True\<rparr>))"

text \<open>
  The part of \<open>mkdir\<close>, \<open>mknod\<close> and \<open>openat\<close> that makes the new inode. The backend's own refusals (a name that
  exists, no space) come before the inode does and are left out.
\<close>

definition create_child ::
  "file_mode \<Rightarrow> credentials \<Rightarrow> vfs_inode \<Rightarrow> file_mode \<Rightarrow> file_type \<Rightarrow> vfs_inode vfs_result" where
  "create_child umask caller parent requested kind =
     (case check_parent_perm caller parent None of
        Inl err \<Rightarrow> Inl err
      | Inr _ \<Rightarrow>
          (case create_attributes umask caller parent requested kind of (effective_mode, owner) \<Rightarrow>
             (case default_acl_for_create parent effective_mode of
                Inl err \<Rightarrow> Inl err
              | Inr (child_acl, adjusted) \<Rightarrow> Inr (install_child_acl (tmpfs_new_inode kind adjusted owner) child_acl))))"

end
