(* ===== verification/AclProps.thy ===== *)
theory AclProps
  imports Acl
begin

unbundle bit_operations_syntax

text \<open>
  What the access control lists promise: the byte form and the validator, the decision against a reference that
  does not depend on the order of the entries, agreement with the permission bits, and the list of a new file.
\<close>

section \<open>The tags of a valid list\<close>

lemma entry_less_irrefl: "\<not> entry_less e e"
  by (simp add: entry_less_def)

lemma sorted_entries_unique:
  "sorted_wrt entry_less es \<Longrightarrow> x \<in> set es \<Longrightarrow> y \<in> set es \<Longrightarrow> ae_tag x = ae_tag y \<Longrightarrow> ae_id x = ae_id y \<Longrightarrow> x = y"
proof (induction es)
  case (Cons e es)
  have "\<not> entry_less e f" if "ae_tag e = ae_tag f" "ae_id e = ae_id f" for f using that by (simp add: entry_less_def)
  then show ?case using Cons by auto
qed simp

lemma base_entry_unique:
  assumes "acl_valid es" "x \<in> set es" "y \<in> set es" "ae_tag x = t" "ae_tag y = t"
    and "t \<in> {ACL_USER_OBJ, ACL_GROUP_OBJ, ACL_MASK, ACL_OTHER}"
  shows "x = y"
proof -
  have "ae_id x = ae_id y" using assms entry_ok_base [of x] entry_ok_base [of y] by (simp add: acl_valid_def)
  then show ?thesis using assms sorted_entries_unique [of es x y] by (simp add: acl_valid_def)
qed

lemma named_entry_unique:
  "acl_valid es \<Longrightarrow> x \<in> set es \<Longrightarrow> y \<in> set es \<Longrightarrow> ae_tag x = ae_tag y \<Longrightarrow> ae_id x = ae_id y \<Longrightarrow> x = y"
  using sorted_entries_unique [of es x y] by (simp add: acl_valid_def)

lemma find_unique:
  assumes "\<And>x y. x \<in> set xs \<Longrightarrow> y \<in> set xs \<Longrightarrow> P x \<Longrightarrow> P y \<Longrightarrow> x = y"
  shows "(case List.find P xs of Some e \<Rightarrow> Q e | None \<Rightarrow> False) \<longleftrightarrow> (\<exists>e\<in>set xs. P e \<and> Q e)"
proof (cases "List.find P xs")
  case (Some e)
  then have "e \<in> set xs" "P e" by (auto simp: find_Some_iff)
  then show ?thesis using assms Some by auto
next
  case None
  then have "\<forall>x\<in>set xs. \<not> P x" by (auto simp: find_None_iff)
  then show ?thesis using None by auto
qed

lemma mask_of_append: "acl_mask_of (es @ [e]) = (if ae_tag e = ACL_MASK then Some (ae_perm e) else acl_mask_of es)"
  by (simp add: acl_mask_of_def)

lemma mask_of_None: "acl_mask_of es = None \<longleftrightarrow> \<not> has_tag ACL_MASK es"
  by (induction es rule: rev_induct) (auto simp: mask_of_append has_tag_def, simp add: acl_mask_of_def)

lemma mask_of_Some: "acl_mask_of es = Some p \<Longrightarrow> \<exists>e\<in>set es. ae_tag e = ACL_MASK \<and> ae_perm e = p"
  by (induction es rule: rev_induct) (auto simp: mask_of_append split: if_splits, simp add: acl_mask_of_def)

text \<open>A permission value allows a kind of access when it has the one bit of that kind.\<close>

definition kind_bit :: "acl_check_kind \<Rightarrow> nat" where
  "kind_bit kind = (case kind of AclRead \<Rightarrow> 2 | AclWrite \<Rightarrow> 1 | AclExec _ \<Rightarrow> 0)"

lemma perm_allows_bit: "perm_allows kind p \<longleftrightarrow> bit p (kind_bit kind)"
proof -
  have "perm_bit kind = push_bit (kind_bit kind) 1" by (cases kind) (simp_all add: kind_bit_def)
  then show ?thesis by (simp add: perm_allows_def bit_iff_and_push_bit_not_eq_0)
qed

lemma perm_allows_and: "perm_allows kind (p AND q) \<longleftrightarrow> perm_allows kind p \<and> perm_allows kind q"
  by (simp add: perm_allows_bit bit_and_iff)

section \<open>The reference decision\<close>

definition mask_allows :: "acl_check_kind \<Rightarrow> acl_entry list \<Rightarrow> bool" where
  "mask_allows kind es \<longleftrightarrow> (\<forall>e\<in>set es. ae_tag e = ACL_MASK \<longrightarrow> perm_allows kind (ae_perm e))"

definition names_user :: "credentials \<Rightarrow> acl_entry \<Rightarrow> bool" where
  "names_user c e \<longleftrightarrow> ae_tag e = ACL_USER \<and> ae_id e = cr_fsuid c"

definition acl_reference :: "credentials \<Rightarrow> acl_entry list \<Rightarrow> uid \<Rightarrow> gid \<Rightarrow> acl_check_kind \<Rightarrow> bool" where
  "acl_reference c es u g kind \<longleftrightarrow>
     (if cr_fsuid c = u then \<exists>e\<in>set es. ae_tag e = ACL_USER_OBJ \<and> perm_allows kind (ae_perm e)
      else if \<exists>e\<in>set es. names_user c e
        then (\<exists>e\<in>set es. names_user c e \<and> perm_allows kind (ae_perm e)) \<and> mask_allows kind es
      else if \<exists>e\<in>set es. group_matches c g e
        then (\<exists>e\<in>set es. group_matches c g e \<and> perm_allows kind (ae_perm e)) \<and> mask_allows kind es
      else \<exists>e\<in>set es. ae_tag e = ACL_OTHER \<and> perm_allows kind (ae_perm e))"

lemma group_scan_eq:
  "group_scan c g kind mk hit es =
     (if \<exists>e\<in>set es. group_matches c g e \<and> perm_allows kind (group_effective mk e) then Some True
      else if hit \<or> (\<exists>e\<in>set es. group_matches c g e) then Some False else None)"
  by (induction es arbitrary: hit) auto

lemma mask_of_allows:
  assumes "acl_valid es"
  shows "(case acl_mask_of es of Some m \<Rightarrow> perm_allows kind m | None \<Rightarrow> True) \<longleftrightarrow> mask_allows kind es"
proof (cases "acl_mask_of es")
  case None
  then have "mask_allows kind es" using mask_of_None [of es] by (auto simp: mask_allows_def has_tag_def)
  then show ?thesis using None by simp
next
  case (Some p)
  then obtain e where e: "e \<in> set es" "ae_tag e = ACL_MASK" "ae_perm e = p" using mask_of_Some by blast
  have uniq: "f = e" if "f \<in> set es" "ae_tag f = ACL_MASK" for f
    using base_entry_unique [OF assms that(1) e(1) that(2) e(2)] by simp
  have "mask_allows kind es \<longleftrightarrow> perm_allows kind p"
    unfolding mask_allows_def using e uniq by blast
  then show ?thesis using Some by simp
qed

lemma group_effective_allows:
  "perm_allows kind (group_effective mk e) \<longleftrightarrow>
     perm_allows kind (ae_perm e) \<and> (case mk of Some m \<Rightarrow> perm_allows kind m | None \<Rightarrow> True)"
  by (cases mk) (simp_all add: group_effective_def perm_allows_and)

lemma named_user_eq:
  assumes "acl_valid es"
  shows "(case List.find (\<lambda>e. ae_tag e = ACL_USER \<and> ae_id e = cr_fsuid c) es of
      Some e \<Rightarrow> perm_allows kind (ae_perm e AND (case acl_mask_of es of Some m \<Rightarrow> m | None \<Rightarrow> 0))
    | None \<Rightarrow> r) \<longleftrightarrow>
    (if \<exists>e\<in>set es. names_user c e
     then (\<exists>e\<in>set es. names_user c e \<and> perm_allows kind (ae_perm e)) \<and> mask_allows kind es else r)"
proof (cases "List.find (\<lambda>e. ae_tag e = ACL_USER \<and> ae_id e = cr_fsuid c) es")
  case None
  then have "\<not> (\<exists>e\<in>set es. names_user c e)" by (auto simp: find_None_iff names_user_def)
  then show ?thesis using None by simp
next
  case (Some e)
  then have e: "e \<in> set es" "names_user c e" by (auto simp: find_Some_iff names_user_def)
  then have uniq: "f = e" if "f \<in> set es" "names_user c f" for f
    using that named_entry_unique [OF assms, of f e] by (simp add: names_user_def)
  from e have "has_tag ACL_USER es" by (auto simp: has_tag_def names_user_def)
  then have "has_tag ACL_MASK es" using assms unfolding acl_valid_def by blast
  then obtain m where m: "acl_mask_of es = Some m" using mask_of_None [of es] by (cases "acl_mask_of es") auto
  have "mask_allows kind es \<longleftrightarrow> perm_allows kind m" using mask_of_allows [OF assms, of kind] by (simp add: m)
  moreover have "(\<exists>f\<in>set es. names_user c f \<and> perm_allows kind (ae_perm f)) \<longleftrightarrow> perm_allows kind (ae_perm e)"
    using e uniq by blast
  moreover have "\<exists>f\<in>set es. names_user c f" using e by blast
  ultimately show ?thesis by (simp add: Some m perm_allows_and)
qed

lemma acl_check_eq:
  assumes "acl_valid (acl_entries acl)"
  shows "acl_check c acl u g kind = acl_reference c (acl_entries acl) u g kind"
proof -
  note base = base_entry_unique [OF assms]
  have owner: "(case List.find (\<lambda>e. ae_tag e = t) (acl_entries acl) of Some e \<Rightarrow> perm_allows kind (ae_perm e) | None \<Rightarrow> False)
      \<longleftrightarrow> (\<exists>e\<in>set (acl_entries acl). ae_tag e = t \<and> perm_allows kind (ae_perm e))"
    if "t \<in> {ACL_USER_OBJ, ACL_OTHER}" for t
    by (rule find_unique) (use base [of _ _ t] that in blast)
  have groups: "(case group_scan c g kind (acl_mask_of (acl_entries acl)) False (acl_entries acl) of Some d \<Rightarrow> d | None \<Rightarrow> r) \<longleftrightarrow>
      (if \<exists>e\<in>set (acl_entries acl). group_matches c g e
       then (\<exists>e\<in>set (acl_entries acl). group_matches c g e \<and> perm_allows kind (ae_perm e)) \<and> mask_allows kind (acl_entries acl)
       else r)" for r
    unfolding group_scan_eq group_effective_allows mask_of_allows [OF assms] by auto
  show ?thesis
    unfolding acl_check_def Let_def acl_reference_def named_user_eq [OF assms] groups
    by (simp only: owner [OF insertI1] owner [OF insertI2 [OF singletonI]])
qed


section \<open>Permission bits as a list\<close>

lemma seven_take: "x AND 7 = take_bit 3 x" for x :: "16 word"
proof -
  have "(7 :: 16 word) = mask 3" by (simp add: mask_eq_exp_minus_1)
  then show ?thesis by (simp add: take_bit_eq_mask)
qed

lemma perm_le_seven [simp]: "owner_perm m \<le> 7" "group_perm m \<le> 7" "other_perm m \<le> 7"
  unfolding owner_perm_def group_perm_def other_perm_def by (simp_all add: word_and_le1)

lemma mode_has_single: "n < 16 \<Longrightarrow> mode_has m (push_bit n 1) \<longleftrightarrow> bit m n"
proof -
  assume n: "n < 16"
  have "m AND push_bit n 1 = (if bit m n then push_bit n 1 else 0)"
    by (rule bit_word_eqI) (auto simp: bit_and_iff bit_exp_iff)
  moreover have "push_bit n (1 :: 16 word) \<noteq> 0" using n by (simp add: push_bit_eq_mult)
  ultimately show ?thesis by (auto simp: mode_has_def)
qed

lemma mode_has_bits:
  "mode_has m IRUSR = bit m 8" "mode_has m IWUSR = bit m 7" "mode_has m IXUSR = bit m 6"
  "mode_has m IRGRP = bit m 5" "mode_has m IWGRP = bit m 4" "mode_has m IXGRP = bit m 3"
  "mode_has m IROTH = bit m 2" "mode_has m IWOTH = bit m 1" "mode_has m IXOTH = bit m 0"
  using mode_has_single [of 8 m] mode_has_single [of 7 m] mode_has_single [of 6 m] mode_has_single [of 5 m]
    mode_has_single [of 4 m] mode_has_single [of 3 m] mode_has_single [of 2 m] mode_has_single [of 1 m]
    mode_has_single [of 0 m]
  by (simp_all add: mode_bit_defs)

fun perm_kind :: "acl_check_kind \<Rightarrow> permission_kind" where
  "perm_kind AclRead = PermRead"
| "perm_kind AclWrite = PermWrite"
| "perm_kind (AclExec is_dir) = PermExec is_dir"

lemma mode_check_kind: "mode_check c u g m kind = check_permission c u g m (perm_kind kind)"
  by (cases kind) (simp_all add: can_read_def can_write_def can_exec_def)

lemma class_bits_allow:
  "class_bits (perm_kind kind) = (ob, gb, xb) \<Longrightarrow>
   perm_allows kind (owner_perm m) = mode_has m ob \<and> perm_allows kind (group_perm m) = mode_has m gb \<and>
   perm_allows kind (other_perm m) = mode_has m xb"
  unfolding perm_allows_bit owner_perm_def group_perm_def other_perm_def seven_take
  by (cases kind) (auto simp: kind_bit_def mode_has_bits bit_take_bit_iff bit_drop_bit_eq)

definition minimal_acl :: "file_mode \<Rightarrow> posix_acl" where
  "minimal_acl m = \<lparr>acl_entries =
     [\<lparr>ae_tag = ACL_USER_OBJ, ae_perm = owner_perm m, ae_id = ACL_UNDEFINED_ID\<rparr>,
      \<lparr>ae_tag = ACL_GROUP_OBJ, ae_perm = group_perm m, ae_id = ACL_UNDEFINED_ID\<rparr>,
      \<lparr>ae_tag = ACL_OTHER, ae_perm = other_perm m, ae_id = ACL_UNDEFINED_ID\<rparr>]\<rparr>"

lemma minimal_acl_valid: "acl_valid (acl_entries (minimal_acl m))"
  by (auto simp: acl_valid_def minimal_acl_def entry_ok_def entry_less_def has_tag_def) (simp_all add: acl_tag_defs)

lemma minimal_acl_check:
  assumes "\<not> capability_override c m (perm_kind kind)"
  shows "acl_check c (minimal_acl m) u g kind = mode_check c u g m kind"
proof -
  obtain ob gb xb where bits: "class_bits (perm_kind kind) = (ob, gb, xb)" by (cases "class_bits (perm_kind kind)")
  show ?thesis
    unfolding acl_check_eq [OF minimal_acl_valid] mode_check_kind check_permission_def bits
    using assms class_bits_allow [OF bits, of m]
    by (auto simp: acl_reference_def minimal_acl_def names_user_def group_matches_def mask_allows_def)
qed

section \<open>The list of a new file\<close>

lemma small_perm: "p \<le> 7 \<Longrightarrow> take_bit 3 p = p" for p :: "16 word"
proof -
  assume "p \<le> 7"
  then have "unat p \<le> 7" by (simp add: word_le_nat_alt)
  then have "take_bit 3 (unat p) = unat p" by (intro take_bit_nat_eq_self) simp
  then show ?thesis by (metis unsigned_take_bit_eq unsigned_word_eqI)
qed

lemma group_bits:
  "bit (((m :: file_mode) AND NOT 0x38) OR push_bit 3 (take_bit 3 p)) n \<longleftrightarrow>
     (if 3 \<le> n \<and> n < 6 then bit p (n - 3) else bit m n)"
proof -
  define k :: file_mode where "k = 0x38"
  have "k = push_bit 3 (mask 3)" by (simp add: k_def mask_eq_exp_minus_1)
  then have k: "bit k n \<longleftrightarrow> 3 \<le> n \<and> n < 6" for n by (auto simp: bit_push_bit_iff bit_mask_iff)
  show ?thesis
    unfolding k_def [symmetric]
    by (auto simp: bit_or_iff bit_and_iff bit_not_iff bit_push_bit_iff bit_take_bit_iff k dest: bit_imp_le_length)
qed

lemma group_perm_write:
  assumes "p \<le> 7"
  shows "group_perm ((m AND NOT 0x38) OR push_bit 3 p) = p"
proof -
  have "group_perm ((m AND NOT 0x38) OR push_bit 3 (take_bit 3 p)) = take_bit 3 p"
    unfolding group_perm_def seven_take
    by (rule bit_word_eqI) (auto simp only: bit_take_bit_iff bit_drop_bit_eq comp_apply group_bits, auto)
  then show ?thesis using small_perm [OF assms] by simp
qed

lemma group_perm_rewrite: "(m AND NOT 0x38) OR push_bit 3 (group_perm m) = m"
proof -
  have "(m AND NOT 0x38) OR push_bit 3 (take_bit 3 (drop_bit 3 m)) = m"
    by (rule bit_word_eqI) (auto simp only: group_bits bit_drop_bit_eq comp_apply, auto split: if_splits)
  then show ?thesis unfolding group_perm_def seven_take .
qed

text \<open>The adjusted mode of \<open>create\<close> is the mode it was given; the entries take their permissions from it.\<close>

lemma acl_create_Inr:
  assumes "acl_create d m = Inr (acl, m')"
  shows "m' = m \<and> acl_valid (acl_entries acl) \<and> acl_entries acl = map (create_entry m) (acl_entries d)"
  using assms unfolding acl_create_def Let_def group_perm_rewrite if_cancel acl_validate_eq by (auto split: if_splits)

lemma create_entry_ids [simp]: "ae_tag (create_entry m e) = ae_tag e" "ae_id (create_entry m e) = ae_id e"
  by (simp_all add: create_entry_def)

lemma create_keeps_valid:
  assumes "acl_valid es"
  shows "acl_valid (map (create_entry m) es)"
proof -
  have "entry_ok (create_entry m e)" if "entry_ok e" for e
    using that by (auto simp: entry_ok_def create_entry_def)
  moreover have "entry_less (create_entry m a) (create_entry m b) = entry_less a b" for a b by (simp add: entry_less_def)
  ultimately show ?thesis using assms by (auto simp: acl_valid_def sorted_wrt_map has_tag_def)
qed

lemma acl_create_total: "acl_valid (acl_entries d) \<Longrightarrow> \<exists>acl. acl_create d m = Inr (acl, m)"
  unfolding acl_create_def Let_def group_perm_rewrite if_cancel acl_validate_eq by (simp add: create_keeps_valid)


section \<open>Properties\<close>

text \<open>
  C23. The byte form of an access control list is faithful. Encoding a list and parsing it gives the list back
  when it is valid and the error for an invalid argument otherwise; whatever parses is valid and is encoded to
  exactly the bytes it came from; every other byte string is refused with that error. Valid means: every entry
  has a known tag, at most the three permission bits, and an identity exactly when its tag names one; entries
  ascend strictly by tag and identity; the three base entries are there, and with a named entry also the mask.
\<close>

theorem acl_codec:
  "acl_parse (acl_encode acl) = (if acl_valid (acl_entries acl) then Inr acl else Inl InvalidArgument)
   \<and> (case acl_parse bs of
         Inr a \<Rightarrow> acl_encode a = bs \<and> acl_valid (acl_entries a)
       | Inl err \<Rightarrow> err = InvalidArgument)
   \<and> acl_validate es = (if acl_valid es then Inr () else Inl InvalidArgument)"
  by (simp add: acl_parse_encode acl_validate_eq acl_encode_parse acl_parse_error split: sum.split)

text \<open>
  C25. The decision of a valid access control list. The owner gets the owner entry; otherwise a named user gets
  their entry as far as the mask allows; otherwise a member of some listed group gets access when one of the
  matching group entries grants it and the mask allows it, and is refused when none does; everyone else gets the
  entry for others. None of this depends on the order in which the loops visit the entries. The list made of
  the permission bits of a mode decides like the mode, for every process whose capabilities do not override it.
\<close>

theorem acl_check_reference:
  assumes "acl_valid (acl_entries acl)"
  shows "acl_check c acl u g kind = acl_reference c (acl_entries acl) u g kind
   \<and> (acl_check c (minimal_acl m) u g kind \<or> capability_override c m (perm_kind kind)) = mode_check c u g m kind"
proof -
  have "mode_check c u g m kind" if "capability_override c m (perm_kind kind)"
    using that by (simp add: mode_check_kind check_permission_def)
  then show ?thesis using acl_check_eq [OF assms] minimal_acl_check by blast
qed

theorem acl_check_reference_witness:
  "let acl = \<lparr>acl_entries =
      [\<lparr>ae_tag = ACL_USER_OBJ, ae_perm = 7, ae_id = ACL_UNDEFINED_ID\<rparr>,
       \<lparr>ae_tag = ACL_USER, ae_perm = 5, ae_id = 1000\<rparr>,
       \<lparr>ae_tag = ACL_GROUP_OBJ, ae_perm = 4, ae_id = ACL_UNDEFINED_ID\<rparr>,
       \<lparr>ae_tag = ACL_MASK, ae_perm = 4, ae_id = ACL_UNDEFINED_ID\<rparr>,
       \<lparr>ae_tag = ACL_OTHER, ae_perm = 0, ae_id = ACL_UNDEFINED_ID\<rparr>]\<rparr>;
       c = unprivileged 1000 100
   in acl_valid (acl_entries acl) \<and> acl_check c acl 0 0 AclRead \<and> \<not> acl_check c acl 0 0 (AclExec False)"
proof -
  let ?acl = "\<lparr>acl_entries =
      [\<lparr>ae_tag = ACL_USER_OBJ, ae_perm = 7, ae_id = ACL_UNDEFINED_ID\<rparr>,
       \<lparr>ae_tag = ACL_USER, ae_perm = 5, ae_id = 1000\<rparr>,
       \<lparr>ae_tag = ACL_GROUP_OBJ, ae_perm = 4, ae_id = ACL_UNDEFINED_ID\<rparr>,
       \<lparr>ae_tag = ACL_MASK, ae_perm = 4, ae_id = ACL_UNDEFINED_ID\<rparr>,
       \<lparr>ae_tag = ACL_OTHER, ae_perm = 0, ae_id = ACL_UNDEFINED_ID\<rparr>]\<rparr>"
  have valid: "acl_valid (acl_entries ?acl)"
    by (simp add: acl_valid_def entry_ok_def entry_less_def has_tag_def) (simp add: acl_tag_defs ACL_UNDEFINED_ID_def)
  note ref = acl_check_reference [OF valid, THEN conjunct1]
  show ?thesis
    unfolding Let_def using valid
    by (simp add: ref acl_reference_def names_user_def unprivileged_def mask_allows_def perm_allows_def)
qed

end
