(* ===== verification/XattrProps.thy ===== *)
theory XattrProps
  imports Xattr AclProps
begin

unbundle bit_operations_syntax

text \<open>
  The invariant of an inode's permission state, that every operation on permissions and attributes keeps it
  when nothing interferes, and what a change of mode does to a file with an access control list.
\<close>

section \<open>The invariant of an inode\<close>

definition mask_is :: "16 word \<Rightarrow> acl_entry list \<Rightarrow> bool" where
  "mask_is p es \<longleftrightarrow> (\<forall>e\<in>set es. ae_tag e = ACL_MASK \<longrightarrow> ae_perm e = p)"

definition access_ok :: "vfs_inode \<Rightarrow> bool" where
  "access_ok i \<longleftrightarrow>
     (\<forall>bs. Mapping.lookup (in_xattrs i) ACL_ACCESS_XATTR = Some bs \<longrightarrow>
        (\<exists>acl. acl_parse bs = Inr acl \<and> mask_is (group_perm (in_mode i)) (acl_entries acl)))"

definition default_ok :: "vfs_inode \<Rightarrow> bool" where
  "default_ok i \<longleftrightarrow>
     (\<forall>bs. Mapping.lookup (in_xattrs i) ACL_DEFAULT_XATTR = Some bs \<longrightarrow> (\<exists>acl. acl_parse bs = Inr acl))"

definition flag_ok :: "vfs_inode \<Rightarrow> bool" where
  "flag_ok i \<longleftrightarrow> finite (Mapping.keys (in_xattrs i)) \<and> (\<not> in_has_xattrs i \<longrightarrow> in_xattrs i = Mapping.empty)"

definition inode_ok :: "vfs_inode \<Rightarrow> bool" where
  "inode_ok i \<longleftrightarrow> flag_ok i \<and> access_ok i \<and> default_ok i"

lemmas inode_ok_defs = inode_ok_def flag_ok_def access_ok_def default_ok_def

lemma acl_names_distinct [simp]: "ACL_ACCESS_XATTR \<noteq> ACL_DEFAULT_XATTR" "ACL_DEFAULT_XATTR \<noteq> ACL_ACCESS_XATTR"
  by (simp_all add: ACL_ACCESS_XATTR_def ACL_DEFAULT_XATTR_def bytes_of_string_def)

lemma parse_name_acl [simp]:
  "parse_name ACL_ACCESS_XATTR = Inr NsPosixAclAccess" "parse_name ACL_DEFAULT_XATTR = Inr NsPosixAclDefault"
  by (simp_all add: parse_name_def ACL_ACCESS_XATTR_def ACL_DEFAULT_XATTR_def bytes_of_string_def strip_prefix_def
      XATTR_NAME_MAX_def)

lemma parse_name_only:
  "parse_name name = Inr NsPosixAclAccess \<longleftrightarrow> name = ACL_ACCESS_XATTR"
  "parse_name name = Inr NsPosixAclDefault \<longleftrightarrow> name = ACL_DEFAULT_XATTR"
proof -
  have "name = ACL_ACCESS_XATTR" if "parse_name name = Inr NsPosixAclAccess"
    using that by (auto simp: parse_name_def split: if_splits option.splits)
  moreover have "name = ACL_DEFAULT_XATTR" if "parse_name name = Inr NsPosixAclDefault"
    using that by (auto simp: parse_name_def split: if_splits option.splits)
  ultimately show "parse_name name = Inr NsPosixAclAccess \<longleftrightarrow> name = ACL_ACCESS_XATTR"
    "parse_name name = Inr NsPosixAclDefault \<longleftrightarrow> name = ACL_DEFAULT_XATTR" by auto
qed

section \<open>Each operation keeps the invariant\<close>

lemma keys_ordered_empty: "finite (Mapping.keys m) \<Longrightarrow> Mapping.ordered_keys m = [] \<longleftrightarrow> m = Mapping.empty"
proof -
  assume "finite (Mapping.keys m)"
  then have "Mapping.ordered_keys m = [] \<longleftrightarrow> Mapping.keys m = {}"
    by (simp add: Mapping.ordered_keys_def)
  also have "\<dots> \<longleftrightarrow> m = Mapping.empty"
    by (auto intro!: mapping_eqI simp: keys_dom_lookup)
  finally show ?thesis .
qed

lemma new_inode_ok: "inode_ok (tmpfs_new_inode kind m c)"
  by (simp add: inode_ok_defs tmpfs_new_inode_def)

lemma inode_ok_mode:
  assumes "inode_ok i" "group_perm m = group_perm (in_mode i)"
  shows "inode_ok (i\<lparr>in_mode := m, in_uid := u, in_gid := g, in_events := evs\<rparr>)"
  using assms by (simp add: inode_ok_defs)

lemma set_other_ok:
  assumes "inode_ok i" "name \<noteq> ACL_ACCESS_XATTR" "name \<noteq> ACL_DEFAULT_XATTR"
  shows "inode_ok (i\<lparr>in_xattrs := Mapping.update name v (in_xattrs i), in_has_xattrs := True\<rparr>)"
  using assms by (simp add: inode_ok_defs)

lemma set_default_ok:
  assumes "inode_ok i" "acl_parse v = Inr acl"
  shows "inode_ok (i\<lparr>in_xattrs := Mapping.update ACL_DEFAULT_XATTR v (in_xattrs i), in_has_xattrs := True\<rparr>)"
  using assms by (simp add: inode_ok_defs)

lemma set_access_ok:
  assumes "inode_ok i" "in_xattrs j = Mapping.update ACL_ACCESS_XATTR v (in_xattrs i)" "in_has_xattrs j"
    and "acl_parse v = Inr acl" "mask_is (group_perm (in_mode j)) (acl_entries acl)"
  shows "inode_ok j"
  using assms by (simp add: inode_ok_defs)

lemma mask_to_mode_mask_is:
  assumes "acl_valid (acl_entries acl)"
  shows "case mask_to_mode_group acl of
      None \<Rightarrow> mask_is p (acl_entries acl)
    | Some q \<Rightarrow> q \<le> 7 \<and> mask_is q (acl_entries acl)"
proof (cases "List.find (\<lambda>e. ae_tag e = ACL_MASK) (acl_entries acl)")
  case None
  then have "mask_is p (acl_entries acl)" by (auto simp: find_None_iff mask_is_def)
  then show ?thesis using None by (simp add: mask_to_mode_group_def)
next
  case (Some e)
  then have e: "e \<in> set (acl_entries acl)" "ae_tag e = ACL_MASK" by (auto simp: find_Some_iff)
  have "f = e" if "f \<in> set (acl_entries acl)" "ae_tag f = ACL_MASK" for f
    using base_entry_unique [OF assms that(1) e(1) that(2) e(2)] by simp
  then have "mask_is (ae_perm e) (acl_entries acl)" unfolding mask_is_def by blast
  moreover have "ae_perm e \<le> 7" using assms e(1) by (simp add: acl_valid_def entry_ok_def)
  ultimately show ?thesis using Some by (simp add: mask_to_mode_group_def)
qed


lemma sync_mode_group_ok:
  assumes "inode_ok i" "acl_parse v = Inr acl"
  shows "inode_ok (sync_mode_group (Some acl)
    (i\<lparr>in_xattrs := Mapping.update ACL_ACCESS_XATTR v (in_xattrs i), in_has_xattrs := True\<rparr>))"
proof -
  have valid: "acl_valid (acl_entries acl)" using acl_encode_parse [OF assms(2)] by simp
  note mode = mask_to_mode_mask_is [OF valid, of "group_perm (in_mode i)"]
  show ?thesis
  proof (cases "mask_to_mode_group acl")
    case None
    then show ?thesis
      using mode by (intro set_access_ok [OF assms(1) _ _ assms(2)]) (simp_all add: sync_mode_group_def)
  next
    case (Some q)
    then show ?thesis
      using mode group_perm_write [of q "in_mode i"]
      by (intro set_access_ok [OF assms(1) _ _ assms(2)]) (simp_all add: sync_mode_group_def tmpfs_chmod_def set_mode_def)
  qed
qed

lemma vfs_setxattr_Inr:
  assumes "vfs_setxattr i name v flags c = Inr i'"
  obtains ns acl where "parse_name name = Inr ns" "setxattr_guard i ns v c = Inr acl"
    "i' = (if ns = NsPosixAclAccess
       then sync_mode_group acl (i\<lparr>in_xattrs := Mapping.update name v (in_xattrs i), in_has_xattrs := True\<rparr>)
       else i\<lparr>in_xattrs := Mapping.update name v (in_xattrs i), in_has_xattrs := True\<rparr>)"
  using assms by (auto simp: vfs_setxattr_def tmpfs_setxattr_def Let_def split: if_splits sum.splits)

lemma guard_acl:
  "setxattr_guard i NsPosixAclAccess v c = Inr acl \<Longrightarrow> \<exists>a. acl = Some a \<and> acl_parse v = Inr a"
  "setxattr_guard i NsPosixAclDefault v c = Inr acl \<Longrightarrow> \<exists>a. acl = Some a \<and> acl_parse v = Inr a"
  by (cases "acl_parse v"; auto simp: setxattr_guard_def split: if_splits)+

lemma setxattr_ok:
  assumes "inode_ok i" "vfs_setxattr i name v flags c = Inr i'"
  shows "inode_ok i'"
  using assms(2)
proof (rule vfs_setxattr_Inr)
  fix ns acl
  let ?j = "i\<lparr>in_xattrs := Mapping.update name v (in_xattrs i), in_has_xattrs := True\<rparr>"
  assume ns: "parse_name name = Inr ns" and guard: "setxattr_guard i ns v c = Inr acl"
    and i': "i' = (if ns = NsPosixAclAccess then sync_mode_group acl ?j else ?j)"
  consider "ns = NsPosixAclAccess" | "ns = NsPosixAclDefault" | "ns \<noteq> NsPosixAclAccess" "ns \<noteq> NsPosixAclDefault" by blast
  then show ?thesis
  proof cases
    case 1
    then have "name = ACL_ACCESS_XATTR" using ns parse_name_only by simp
    moreover obtain a where "acl = Some a" "acl_parse v = Inr a" using guard 1 guard_acl(1) by blast
    ultimately show ?thesis using i' 1 sync_mode_group_ok [OF assms(1)] by simp
  next
    case 2
    then have "name = ACL_DEFAULT_XATTR" using ns parse_name_only by simp
    moreover obtain a where "acl_parse v = Inr a" using guard 2 guard_acl(2) by blast
    ultimately show ?thesis using i' 2 set_default_ok [OF assms(1)] by simp
  next
    case 3
    then have "name \<noteq> ACL_ACCESS_XATTR" "name \<noteq> ACL_DEFAULT_XATTR" using ns by auto
    then show ?thesis using i' 3 set_other_ok [OF assms(1)] by simp
  qed
qed

lemma removexattr_ok:
  assumes "inode_ok i" "vfs_removexattr i name c = Inr i'"
  shows "inode_ok i'"
proof -
  let ?m = "Mapping.delete name (in_xattrs i)"
  have fin: "finite (Mapping.keys ?m)" using assms(1) by (simp add: inode_ok_defs)
  have sub: "Mapping.lookup ?m n = Some b \<Longrightarrow> Mapping.lookup (in_xattrs i) n = Some b" for n b
    by (cases "n = name") (simp_all add: lookup_delete_neq)
  have has: "in_has_xattrs i"
    using assms by (auto simp: inode_ok_defs vfs_removexattr_def tmpfs_removexattr_def split: sum.splits if_splits)
  have "i' = i\<lparr>in_xattrs := ?m, in_has_xattrs := ?m \<noteq> Mapping.empty\<rparr>"
    using assms(2) has keys_ordered_empty [OF fin]
    by (auto simp: vfs_removexattr_def tmpfs_removexattr_def tmpfs_listxattr_def split: sum.splits if_splits)
  then show ?thesis
    using assms(1) fin by (auto simp: inode_ok_defs dest!: sub)
qed


lemma sync_entry_ids [simp]: "ae_tag (sync_acl_mask m e) = ae_tag e" "ae_id (sync_acl_mask m e) = ae_id e"
  by (simp_all add: sync_acl_mask_def)

lemma sync_keeps_valid:
  assumes "acl_valid es"
  shows "acl_valid (map (sync_acl_mask m) es)"
proof -
  have "entry_ok (sync_acl_mask m e)" if "entry_ok e" for e
    using that by (auto simp: entry_ok_def sync_acl_mask_def)
  moreover have "entry_less (sync_acl_mask m a) (sync_acl_mask m b) = entry_less a b" for a b
    by (simp add: entry_less_def)
  ultimately show ?thesis using assms by (auto simp: acl_valid_def sorted_wrt_map has_tag_def)
qed

lemma sync_mask_is: "mask_is (group_perm m) (map (sync_acl_mask m) es)"
  by (auto simp: mask_is_def sync_acl_mask_def)

text \<open>The list \<open>chmod\<close> leaves behind: it is the old one with its mask set to the group bits.\<close>

lemma sync_acl_stored:
  assumes "in_has_xattrs i" "Mapping.lookup (in_xattrs i) ACL_ACCESS_XATTR = Some bs" "acl_parse bs = Inr acl"
  shows "\<exists>bs'. Mapping.lookup (in_xattrs (sync_acl m i)) ACL_ACCESS_XATTR = Some bs' \<and>
      acl_parse bs' = Inr \<lparr>acl_entries = map (sync_acl_mask m) (acl_entries acl)\<rparr> \<and>
      sync_acl m i = i\<lparr>in_xattrs := Mapping.update ACL_ACCESS_XATTR bs' (in_xattrs i)\<rparr>"
proof -
  let ?acl' = "\<lparr>acl_entries = map (sync_acl_mask m) (acl_entries acl)\<rparr>"
  have valid: "acl_valid (acl_entries acl)" and enc: "acl_encode acl = bs" using acl_encode_parse [OF assms(3)] by auto
  have parse: "acl_parse (acl_encode ?acl') = Inr ?acl'"
    by (simp add: acl_parse_encode sync_keeps_valid [OF valid])
  show ?thesis
  proof (cases "list_ex (\<lambda>e. ae_tag e = ACL_MASK \<and> ae_perm e \<noteq> group_perm m) (acl_entries acl)")
    case True
    then show ?thesis
      using assms parse by (simp add: sync_acl_def tmpfs_getxattr_def tmpfs_setxattr_def)
  next
    case False
    then have "map (sync_acl_mask m) (acl_entries acl) = acl_entries acl"
      by (auto simp: list_ex_iff sync_acl_mask_def intro!: map_idI)
    then have "?acl' = acl" by simp
    moreover have "Mapping.update ACL_ACCESS_XATTR bs (in_xattrs i) = in_xattrs i"
      using assms(2) by (auto intro!: mapping_eqI simp: lookup_update')
    ultimately show ?thesis
      using False assms by (simp add: sync_acl_def tmpfs_getxattr_def)
  qed
qed

lemma sync_acl_none: "Mapping.lookup (in_xattrs i) ACL_ACCESS_XATTR = None \<Longrightarrow> sync_acl m i = i"
  by (simp add: sync_acl_def tmpfs_getxattr_def)

lemma chmod_Inr:
  assumes "chmod_inode c i m = Inr i'"
  obtains m' where "m' = m \<or> m' = mode_without m ISGID"
    "i' = sync_acl m' (i\<lparr>in_mode := m', in_events := in_events i @ [IN_ATTRIB]\<rparr>)"
  using assms by (auto simp: chmod_inode_def tmpfs_chmod_def set_mode_def Let_def split: if_splits)

lemma chmod_ok:
  assumes "inode_ok i" "chmod_inode c i m = Inr i'"
  shows "inode_ok i'"
  using assms(2)
proof (rule chmod_Inr)
  fix m'
  let ?j = "i\<lparr>in_mode := m', in_events := in_events i @ [IN_ATTRIB]\<rparr>"
  assume i': "i' = sync_acl m' ?j"
  show ?thesis
  proof (cases "Mapping.lookup (in_xattrs i) ACL_ACCESS_XATTR")
    case None
    then have "i' = ?j" using i' sync_acl_none [of ?j] by simp
    then show ?thesis using assms(1) None by (simp add: inode_ok_defs)
  next
    case (Some bs)
    then obtain acl where acl: "acl_parse bs = Inr acl" using assms(1) by (auto simp: inode_ok_defs)
    have has: "in_has_xattrs i" using assms(1) Some by (auto simp: inode_ok_defs)
    obtain bs' where "acl_parse bs' = Inr \<lparr>acl_entries = map (sync_acl_mask m') (acl_entries acl)\<rparr>"
      "i' = ?j\<lparr>in_xattrs := Mapping.update ACL_ACCESS_XATTR bs' (in_xattrs ?j)\<rparr>"
      using sync_acl_stored [of ?j bs acl m'] has Some acl i' by auto
    then show ?thesis
      using has
      by (intro set_access_ok [OF assms(1), where acl = "\<lparr>acl_entries = map (sync_acl_mask m') (acl_entries acl)\<rparr>"])
        (simp_all add: sync_mask_is)
  qed
qed

lemma clear_setid_group: "group_perm (clear_setid m) = group_perm m"
proof -
  define k :: file_mode where "k = (if mode_has m IXGRP then mode_with ISUID ISGID else ISUID)"
  have s: "ISUID = push_bit 11 1" "ISGID = push_bit 10 1" by (simp_all add: mode_bit_defs)
  have high: "\<not> bit (push_bit q (1 :: file_mode)) n" if "n < 6" "6 \<le> q" for n q
    using that by (auto simp: bit_exp_iff)
  have "\<not> bit ISUID n" "\<not> bit ISGID n" if "n < 6" for n unfolding s by (rule high; use that in simp)+
  then have k: "\<not> bit k n" if "n < 6" for n using that by (simp add: k_def mode_with_def bit_or_iff)
  show ?thesis
    unfolding clear_setid_def k_def [symmetric] mode_without_def group_perm_def seven_take
    by (rule bit_word_eqI) (auto simp: bit_take_bit_iff bit_drop_bit_eq bit_and_iff bit_not_iff k)
qed

lemma chown_ok:
  assumes "inode_ok i" "chown_inode c i u g = Inr i'"
  shows "inode_ok i'"
proof -
  have "\<exists>m u' g' evs. i' = i\<lparr>in_mode := m, in_uid := u', in_gid := g', in_events := evs\<rparr> \<and> group_perm m = group_perm (in_mode i)"
  proof -
    have "i' = i\<lparr>in_mode := in_mode i', in_uid := in_uid i', in_gid := in_gid i', in_events := in_events i'\<rparr>"
      "group_perm (in_mode i') = group_perm (in_mode i)"
      using assms(2)
      by (auto simp: chown_inode_def tmpfs_chown_def tmpfs_chmod_def set_mode_def inode_set_owner_def Let_def clear_setid_group
          split: if_splits)
    then show ?thesis by blast
  qed
  then show ?thesis using inode_ok_mode [OF assms(1)] by auto
qed

lemma install_ok:
  assumes attrs: "default_acl_for_create parent requested = Inr (child, m)"
  shows "inode_ok (install_child_acl (tmpfs_new_inode kind m owner) child)"
proof (cases child)
  case None
  then show ?thesis using new_inode_ok by (simp add: install_child_acl_def)
next
  case (Some bs)
  then obtain d acl where create: "acl_create d requested = Inr (acl, m)" and bs: "bs = acl_encode acl"
    using attrs by (auto simp: default_acl_for_create_def tmpfs_getxattr_def split: if_splits sum.splits option.splits)
  note c = acl_create_Inr [OF create]
  have mask: "mask_is (group_perm m) (acl_entries acl)"
    using c by (auto simp: mask_is_def create_entry_def)
  have parse: "acl_parse bs = Inr acl" using c [THEN conjunct2, THEN conjunct1] by (simp add: bs acl_parse_encode)
  show ?thesis
    unfolding Some
    using mask by (intro set_access_ok [OF new_inode_ok [of kind m owner] _ _ parse])
      (simp_all add: install_child_acl_def tmpfs_setxattr_def tmpfs_new_inode_def)
qed

lemma default_acl_parses:
  assumes "default_acl_for_create parent requested = Inr (Some bs, m)"
  shows "\<exists>acl. acl_parse bs = Inr acl"
  using assms acl_parse_encode acl_create_Inr
  by (fastforce simp: default_acl_for_create_def tmpfs_getxattr_def split: if_splits sum.splits option.splits)

section \<open>Ownership and set-id bits\<close>

lemma chown_unprivileged:
  assumes "chown_inode c i u g = Inr i'" "\<not> has_cap c Chown"
  shows "in_uid i' = in_uid i \<and>
    (in_gid i' = in_gid i \<or> cr_fsuid c = in_uid i \<and> (in_gid i' = cr_egid c \<or> in_gid i' \<in> set (cr_groups c)))"
  using assms
  by (auto simp: chown_inode_def chown_allowed_def tmpfs_chown_def inode_set_owner_def tmpfs_chmod_def set_mode_def Let_def
      split: if_splits option.splits)

lemma clear_setid_ISUID: "\<not> mode_has (clear_setid m) ISUID"
proof -
  have "ISUID AND NOT (if b then mode_with ISUID ISGID else ISUID) = 0" for b
    by (simp add: mode_with_def mode_bit_defs)
  then have "clear_setid m AND ISUID = 0"
    unfolding clear_setid_def mode_without_def by (metis and.assoc and.commute and_zero_eq)
  then show ?thesis by (simp add: mode_has_def) (simp add: mode_bit_defs)
qed

lemma chown_clears_setuid:
  assumes "chown_inode c i u g = Inr i'" "in_kind i = Regular" "u \<noteq> None \<or> g \<noteq> None"
  shows "\<not> mode_has (in_mode i') ISUID"
proof -
  have "in_mode i' = clear_setid (in_mode i)"
    using assms by (auto simp: chown_inode_def tmpfs_chown_def inode_set_owner_def tmpfs_chmod_def set_mode_def Let_def split: if_splits)
  then show ?thesis by (simp add: clear_setid_ISUID)
qed

lemma create_setgid:
  assumes "derive_create_attributes m c parent kind = (m', owner)" "mode_has m' ISGID"
  shows "mode_has (in_mode parent) ISGID \<and> kind = Directory \<or> has_cap c FSetId \<or>
    cr_fsgid owner \<in> insert (cr_fsgid c) (insert (cr_egid c) (set (cr_groups c)))"
proof -
  have "\<not> mode_has (mode_without x ISGID) ISGID" for x
  proof -
    have "mode_without x ISGID AND ISGID = 0" by (simp add: mode_without_def and.assoc)
    then show ?thesis by (simp add: mode_has_def) (simp add: mode_bit_defs)
  qed
  then show ?thesis using assms by (auto simp: derive_create_attributes_def Let_def split: if_splits)
qed

section \<open>The access check\<close>

lemma acl_override_kind: "acl_override c m kind = capability_override c m (perm_kind kind)"
  by (cases kind) simp_all

lemma mode_check_override: "acl_override c m kind \<Longrightarrow> mode_check c u g m kind"
  by (simp add: mode_check_kind check_permission_def acl_override_kind)

lemma check_access_acl:
  assumes "in_has_xattrs i" "Mapping.lookup (in_xattrs i) ACL_ACCESS_XATTR = Some bs" "acl_parse bs = Inr acl"
  shows "check_access c i kind \<longleftrightarrow>
    acl_override c (in_mode i) kind \<or> acl_reference c (acl_entries acl) (in_uid i) (in_gid i) kind"
  using assms acl_encode_parse [OF assms(3)] by (simp add: check_access_def tmpfs_getxattr_def acl_check_eq)

lemma check_access_mode:
  assumes "Mapping.lookup (in_xattrs i) ACL_ACCESS_XATTR = None"
  shows "check_access c i kind = mode_check c (in_uid i) (in_gid i) (in_mode i) kind"
  using assms mode_check_override by (auto simp: check_access_def tmpfs_getxattr_def)

lemma no_caps_override: "cr_caps d = CAP_EMPTY \<Longrightarrow> \<not> acl_override d m kind"
  by (cases kind) (simp_all add: has_cap_def)

lemma unprivileged_has_cap [simp]: "\<not> has_cap (unprivileged u g) k"
  by (simp add: has_cap_def unprivileged_def)

lemma sync_bex:
  assumes "\<And>e. P e \<Longrightarrow> ae_tag e \<noteq> ACL_MASK" "\<And>e. P (sync_acl_mask m e) = P e"
  shows "(\<exists>e\<in>set (map (sync_acl_mask m) es). P e \<and> perm_allows kind (ae_perm e)) \<longleftrightarrow>
    (\<exists>e\<in>set es. P e \<and> perm_allows kind (ae_perm e))"
proof -
  have "sync_acl_mask m e = e" if "P e" for e using assms(1) [OF that] by (simp add: sync_acl_mask_def)
  then show ?thesis by (auto simp: assms(2))
qed

lemma sync_owner_other:
  assumes "cr_fsuid d = u \<or> (\<forall>e\<in>set es. \<not> names_user d e \<and> \<not> group_matches d g e)"
  shows "acl_reference d (map (sync_acl_mask m) es) u g kind = acl_reference d es u g kind"
proof -
  have names: "names_user d (sync_acl_mask m e) = names_user d e" "group_matches d g (sync_acl_mask m e) = group_matches d g e"
    for e by (simp_all add: names_user_def group_matches_def)
  have owner: "(\<exists>e\<in>set (map (sync_acl_mask m) es). ae_tag e = t \<and> perm_allows kind (ae_perm e)) \<longleftrightarrow>
      (\<exists>e\<in>set es. ae_tag e = t \<and> perm_allows kind (ae_perm e))" if "t \<noteq> ACL_MASK" for t
    using that by (intro sync_bex) auto
  show ?thesis
  proof (cases "cr_fsuid d = u")
    case True
    then show ?thesis by (simp only: acl_reference_def owner [of ACL_USER_OBJ] refl if_True acl_tag_neqs not_False_eq_True)
  next
    case False
    then have none: "\<not> (\<exists>e\<in>set es. names_user d e)" "\<not> (\<exists>e\<in>set es. group_matches d g e)" using assms by auto
    moreover have "\<not> (\<exists>e\<in>set (map (sync_acl_mask m) es). names_user d e)"
      "\<not> (\<exists>e\<in>set (map (sync_acl_mask m) es). group_matches d g e)"
      using none by (auto simp: names)
    ultimately show ?thesis
      using False owner [of ACL_OTHER] by (simp only: acl_reference_def if_False acl_tag_neqs' not_False_eq_True)
  qed
qed

text \<open>A file of mode 0644 owned by root that carries its permission bits as an access list.\<close>

definition listed_file :: vfs_inode where
  "listed_file =
     \<lparr>in_kind = Regular, in_mode = 0x1A4, in_uid = 0, in_gid = 0, in_has_xattrs = True,
      in_xattrs = Mapping.update ACL_ACCESS_XATTR (acl_encode (minimal_acl 0x1A4)) Mapping.empty, in_events = []\<rparr>"

lemma listed_file_lookup:
  "tmpfs_getxattr listed_file ACL_ACCESS_XATTR = Inr (Some (acl_encode (minimal_acl 0x1A4)))"
  "acl_parse (acl_encode (minimal_acl 0x1A4)) = Inr (minimal_acl 0x1A4)"
  by (simp_all add: listed_file_def tmpfs_getxattr_def acl_parse_encode minimal_acl_valid)

lemma listed_file_set:
  "vfs_setxattr (tmpfs_new_inode Regular 0x1A4 (unprivileged 0 0)) ACL_ACCESS_XATTR (acl_encode (minimal_acl 0x1A4)) 0
     (unprivileged 0 0) = Inr listed_file"
proof -
  have len: "\<not> XATTR_SIZE_MAX < length (acl_encode (minimal_acl 0x1A4))"
    by (simp add: acl_encode_def encode_entry_def u16_to_le_bytes_def u32_to_le_bytes_def minimal_acl_def XATTR_SIZE_MAX_def)
  have mask: "mask_to_mode_group (minimal_acl 0x1A4) = None" by (simp add: mask_to_mode_group_def minimal_acl_def)
  show ?thesis
    unfolding vfs_setxattr_def setxattr_guard_def listed_file_lookup(2)
    using len mask
    by (simp add: tmpfs_new_inode_def unprivileged_def is_owner_def tmpfs_setxattr_def sync_mode_group_def listed_file_def)
qed

lemma listed_file_reference:
  "acl_reference (unprivileged 1000 100) (acl_entries (minimal_acl 0x1A4)) 0 0 kind \<longleftrightarrow> kind = AclRead"
  by (cases kind) (simp_all add: acl_reference_def minimal_acl_def unprivileged_def names_user_def group_matches_def
      perm_allows_def owner_perm_def group_perm_def other_perm_def)

lemma inode_ok_consistent:
  assumes ok: "inode_ok i"
  shows "(in_has_xattrs i \<or> in_xattrs i = Mapping.empty)
    \<and> (case tmpfs_getxattr i ACL_ACCESS_XATTR of
          Inr (Some bs) \<Rightarrow>
            (\<exists>acl. acl_parse bs = Inr acl
               \<and> mask_to_mode_group acl \<in> {None, Some (group_perm (in_mode i))}
               \<and> (\<forall>c kind. check_access c i kind \<longleftrightarrow>
                     acl_override c (in_mode i) kind \<or> acl_reference c (acl_entries acl) (in_uid i) (in_gid i) kind))
        | _ \<Rightarrow> (\<forall>c kind. check_access c i kind = mode_check c (in_uid i) (in_gid i) (in_mode i) kind))"
proof (cases "Mapping.lookup (in_xattrs i) ACL_ACCESS_XATTR")
  case None
  then show ?thesis using ok check_access_mode [OF None] by (auto simp: inode_ok_defs tmpfs_getxattr_def)
next
  case (Some bs)
  then obtain acl where acl: "acl_parse bs = Inr acl" "mask_is (group_perm (in_mode i)) (acl_entries acl)"
    using ok by (auto simp: inode_ok_defs)
  have has: "in_has_xattrs i" using ok Some by (auto simp: inode_ok_defs)
  have "mask_to_mode_group acl \<in> {None, Some (group_perm (in_mode i))}"
    using acl(2) by (cases "List.find (\<lambda>e. ae_tag e = ACL_MASK) (acl_entries acl)")
      (auto simp: mask_to_mode_group_def mask_is_def find_Some_iff)
  then show ?thesis
    using has Some acl(1) check_access_acl [OF has Some acl(1)] by (simp add: tmpfs_getxattr_def)
qed

section \<open>Properties\<close>

text \<open>
  C9. On a file with an access list, chmod changes nothing for the owner and for others. Whatever mode the call
  sets, a process without capabilities that owns the file, or that no entry of the list names, gets exactly the
  access it had before: only the mask entry is rewritten, while the owner's and the others' entries, which
  decide for these processes, keep their permissions.
\<close>

theorem chmod_keeps_owner_and_other_access:
  assumes "in_has_xattrs i" "tmpfs_getxattr i ACL_ACCESS_XATTR = Inr (Some bs)" "acl_parse bs = Inr acl"
    and "chmod_inode c i m = Inr i'" "cr_caps d = CAP_EMPTY"
    and "cr_fsuid d = in_uid i \<or> (\<forall>e\<in>set (acl_entries acl). \<not> names_user d e \<and> \<not> group_matches d (in_gid i) e)"
  shows "in_mode i' \<in> {m, mode_without m ISGID} \<and> check_access d i' kind = check_access d i kind"
  using assms(4)
proof (rule chmod_Inr)
  fix m'
  let ?j = "i\<lparr>in_mode := m', in_events := in_events i @ [IN_ATTRIB]\<rparr>"
  assume m': "m' = m \<or> m' = mode_without m ISGID" and i': "i' = sync_acl m' ?j"
  have look: "Mapping.lookup (in_xattrs i) ACL_ACCESS_XATTR = Some bs" using assms(2) by (simp add: tmpfs_getxattr_def)
  obtain bs' where new: "Mapping.lookup (in_xattrs i') ACL_ACCESS_XATTR = Some bs'"
    "acl_parse bs' = Inr \<lparr>acl_entries = map (sync_acl_mask m') (acl_entries acl)\<rparr>"
    "i' = ?j\<lparr>in_xattrs := Mapping.update ACL_ACCESS_XATTR bs' (in_xattrs ?j)\<rparr>"
    using sync_acl_stored [of ?j bs acl m'] assms(1,3) look i' by auto
  have "check_access d i' kind = acl_reference d (map (sync_acl_mask m') (acl_entries acl)) (in_uid i) (in_gid i) kind"
    using check_access_acl [OF _ new(1,2)] assms(1,5) by (simp add: new(3) no_caps_override)
  moreover have "check_access d i kind = acl_reference d (acl_entries acl) (in_uid i) (in_gid i) kind"
    using check_access_acl [OF assms(1) look assms(3)] assms(5) by (simp add: no_caps_override)
  ultimately show ?thesis using sync_owner_other [OF assms(6)] m' new(3) by auto
qed


theorem chmod_keeps_owner_and_other_access_witness:
  "case chmod_inode (unprivileged 0 0) listed_file 0x180 of
     Inr i' \<Rightarrow> in_mode i' = 0x180 \<and> check_access (unprivileged 1000 100) i' AclRead
       \<and> \<not> mode_check (unprivileged 1000 100) 0 0 (in_mode i') AclRead
   | Inl _ \<Rightarrow> False"
proof -
  let ?d = "unprivileged 1000 100"
  have has: "in_has_xattrs listed_file" by (simp add: listed_file_def)
  have caps: "cr_caps ?d = CAP_EMPTY" by (simp add: unprivileged_def)
  obtain i' where ch: "chmod_inode (unprivileged 0 0) listed_file 0x180 = Inr i'"
    by (simp add: chmod_inode_def is_owner_def unprivileged_def listed_file_def tmpfs_chmod_def Let_def)
  have none: "cr_fsuid ?d = in_uid listed_file \<or>
      (\<forall>e\<in>set (acl_entries (minimal_acl 0x1A4)). \<not> names_user ?d e \<and> \<not> group_matches ?d (in_gid listed_file) e)"
    by (simp add: minimal_acl_def names_user_def group_matches_def unprivileged_def listed_file_def)
  note keeps = chmod_keeps_owner_and_other_access [OF has listed_file_lookup ch caps none, of AclRead]
  have "mode_without 0x180 ISGID = 0x180" by (simp add: mode_without_def mode_bit_defs)
  then have mode: "in_mode i' = 0x180" using keeps by simp
  have "check_access ?d listed_file AclRead"
    using check_access_acl [OF has _ listed_file_lookup(2), of ?d AclRead] listed_file_lookup(1)
    by (simp add: tmpfs_getxattr_def) (simp add: listed_file_def listed_file_reference)
  moreover have "\<not> mode_check ?d 0 0 0x180 AclRead"
    by (simp add: can_read_def check_permission_def has_cap_def unprivileged_def mode_has_def mode_bit_defs)
  ultimately show ?thesis using ch mode keeps by simp
qed

end
