(* ===== verification/XattrSystem.thy ===== *)
theory XattrSystem
  imports XattrProps
begin

unbundle bit_operations_syntax

text \<open>
  Concurrent permission calls on one inode. The metadata, the attribute map and the attribute hint of an inode
  have separate locks (the hint is an atomic), and no call of \<open>libs/vfs/src/xattr.rs\<close>, of \<open>chmod_inode\<close>, of
  \<open>chown_inode\<close>, of \<open>install_child_acl\<close> or of \<open>check_access\<close> holds one of them across two accesses. A program
  counter value stands between two such accesses, and one step of the model is one critical section or one
  atomic access, with the local computation that follows it.
\<close>

section \<open>The calls, one access at a time\<close>

datatype setxattr_pc =
    SetGuard bytes bytes "32 word" credentials
  | SetSticky bytes bytes "32 word" credentials
  | SetStickyOwner bytes bytes "32 word" credentials
  | SetStore xattr_namespace bytes bytes "32 word" "posix_acl option"
  | SetMark xattr_namespace "posix_acl option"
  | SetMeta "16 word"
  | SetMode file_mode

datatype removexattr_pc = RemGuard bytes credentials | RemDelete bytes | RemList | RemClear

datatype chmod_pc =
    ModUid credentials file_mode
  | ModGid credentials file_mode uid
  | ModSet file_mode
  | ModEvent file_mode
  | ModFlag file_mode
  | ModGet file_mode
  | ModStore bytes

datatype chown_pc =
    OwnGuard credentials "uid option" "gid option"
  | OwnSet "uid option" "gid option"
  | OwnMeta
  | OwnMode file_mode
  | OwnEvent

datatype install_pc = NewInstall "bytes option" | NewMark

datatype access_pc =
    AccMeta credentials acl_check_kind
  | AccFlag credentials acl_check_kind uid gid file_mode
  | AccAcl credentials acl_check_kind uid gid file_mode

text \<open>The first three values are those of a task outside every call, with the answer of its last one.\<close>

datatype xattr_pc =
    XIdle
  | XFailed vfs_error
  | XDecided bool
  | InSetxattr setxattr_pc
  | InRemovexattr removexattr_pc
  | InChmod chmod_pc
  | InChown chown_pc
  | InInstall install_pc
  | InAccess access_pc

fun setxattr_next :: "vfs_inode \<Rightarrow> setxattr_pc \<Rightarrow> vfs_inode \<times> xattr_pc" where
  "setxattr_next i (SetGuard name v flags c) =
     (if flags AND NOT (XATTR_CREATE OR XATTR_REPLACE) \<noteq> 0 then (i, XFailed InvalidArgument)
      else case parse_name name of
        Inl err \<Rightarrow> (i, XFailed err)
      | Inr ns \<Rightarrow>
          if XATTR_SIZE_MAX < length v then (i, XFailed FileTooLarge)
          else if ns = NsUser then
            (if \<not> can_write c (in_uid i) (in_gid i) (in_mode i) then (i, XFailed PermissionDenied)
             else if in_kind i = Directory then (i, InSetxattr (SetSticky name v flags c))
             else (i, InSetxattr (SetStore NsUser name v flags None)))
          else (case setxattr_guard i ns v c of
                  Inl err \<Rightarrow> (i, XFailed err)
                | Inr acl \<Rightarrow> (i, InSetxattr (SetStore ns name v flags acl))))"
| "setxattr_next i (SetSticky name v flags c) =
     (i, InSetxattr (if \<not> mode_has (in_mode i) ISVTX then SetStore NsUser name v flags None
                     else SetStickyOwner name v flags c))"
| "setxattr_next i (SetStickyOwner name v flags c) =
     (i, if is_owner c (in_uid i) \<or> has_cap c FOwner then InSetxattr (SetStore NsUser name v flags None)
         else XFailed OperationNotPermitted)"
| "setxattr_next i (SetStore ns name v flags acl) =
     (case tmpfs_setxattr i name v flags of
        Inl err \<Rightarrow> (i, XFailed err)
      | Inr i' \<Rightarrow> (i', InSetxattr (SetMark ns acl)))"
| "setxattr_next i (SetMark ns acl) =
     (i\<lparr>in_has_xattrs := True\<rparr>,
      if ns = NsPosixAclAccess then
        (case Option.bind acl mask_to_mode_group of
           None \<Rightarrow> XIdle
         | Some mask_perm \<Rightarrow> InSetxattr (SetMeta mask_perm))
      else XIdle)"
| "setxattr_next i (SetMeta mask_perm) =
     (i, InSetxattr (SetMode ((in_mode i AND NOT 0x38) OR push_bit 3 mask_perm)))"
| "setxattr_next i (SetMode new_mode) =
     (case tmpfs_chmod i new_mode of Inl _ \<Rightarrow> i | Inr i' \<Rightarrow> i', XIdle)"

fun removexattr_next :: "vfs_inode \<Rightarrow> removexattr_pc \<Rightarrow> vfs_inode \<times> xattr_pc" where
  "removexattr_next i (RemGuard name c) =
     (i, case parse_name name of
           Inl err \<Rightarrow> XFailed err
         | Inr ns \<Rightarrow>
             (case removexattr_guard i ns c of
                Inl err \<Rightarrow> XFailed err
              | Inr _ \<Rightarrow> InRemovexattr (RemDelete name)))"
| "removexattr_next i (RemDelete name) =
     (case tmpfs_removexattr i name of
        Inl err \<Rightarrow> (i, XFailed err)
      | Inr i' \<Rightarrow> (i', InRemovexattr RemList))"
| "removexattr_next i RemList =
     (i, case tmpfs_listxattr i of
           Inl _ \<Rightarrow> XIdle
         | Inr names \<Rightarrow> if names = [] then InRemovexattr RemClear else XIdle)"
| "removexattr_next i RemClear = (i\<lparr>in_has_xattrs := False\<rparr>, XIdle)"

fun chmod_next :: "vfs_inode \<Rightarrow> chmod_pc \<Rightarrow> vfs_inode \<times> xattr_pc" where
  "chmod_next i (ModUid c m) = (i, InChmod (ModGid c m (in_uid i)))"
| "chmod_next i (ModGid c m inode_uid) =
     (i, if \<not> is_owner c inode_uid then XFailed OperationNotPermitted
         else InChmod (ModSet
           (if \<not> has_cap c FSetId \<and> cr_egid c \<noteq> in_gid i \<and> in_gid i \<notin> set (cr_groups c)
            then mode_without m ISGID else m)))"
| "chmod_next i (ModSet m) =
     (case tmpfs_chmod i m of Inl err \<Rightarrow> (i, XFailed err) | Inr i' \<Rightarrow> (i', InChmod (ModEvent m)))"
| "chmod_next i (ModEvent m) = (i\<lparr>in_events := in_events i @ [IN_ATTRIB]\<rparr>, InChmod (ModFlag m))"
| "chmod_next i (ModFlag m) = (i, if in_has_xattrs i then InChmod (ModGet m) else XIdle)"
| "chmod_next i (ModGet m) =
     (i, case tmpfs_getxattr i ACL_ACCESS_XATTR of
           Inr (Some bs) \<Rightarrow>
             (case acl_parse bs of
                Inr acl \<Rightarrow>
                  if list_ex (\<lambda>e. ae_tag e = ACL_MASK \<and> ae_perm e \<noteq> group_perm m) (acl_entries acl)
                  then InChmod (ModStore (acl_encode \<lparr>acl_entries = map (sync_acl_mask m) (acl_entries acl)\<rparr>))
                  else XIdle
              | Inl _ \<Rightarrow> XIdle)
         | _ \<Rightarrow> XIdle)"
| "chmod_next i (ModStore bs) =
     (case tmpfs_setxattr i ACL_ACCESS_XATTR bs 0 of Inl _ \<Rightarrow> i | Inr i' \<Rightarrow> i', XIdle)"

fun chown_next :: "vfs_inode \<Rightarrow> chown_pc \<Rightarrow> vfs_inode \<times> xattr_pc" where
  "chown_next i (OwnGuard c u g) =
     (i, if \<not> chown_allowed c i u g then XFailed OperationNotPermitted else InChown (OwnSet u g))"
| "chown_next i (OwnSet u g) =
     (case tmpfs_chown i u g of
        Inl err \<Rightarrow> (i, XFailed err)
      | Inr i' \<Rightarrow>
          (i', InChown (if (u \<noteq> None \<or> g \<noteq> None) \<and> in_kind i' = Regular then OwnMeta else OwnEvent)))"
| "chown_next i OwnMeta =
     (i, InChown (if clear_setid (in_mode i) \<noteq> in_mode i then OwnMode (clear_setid (in_mode i)) else OwnEvent))"
| "chown_next i (OwnMode m) =
     (case tmpfs_chmod i m of Inl err \<Rightarrow> (i, XFailed err) | Inr i' \<Rightarrow> (i', InChown OwnEvent))"
| "chown_next i OwnEvent = (i\<lparr>in_events := in_events i @ [IN_ATTRIB]\<rparr>, XIdle)"

fun install_next :: "vfs_inode \<Rightarrow> install_pc \<Rightarrow> vfs_inode \<times> xattr_pc" where
  "install_next i (NewInstall acl_bytes) =
     (case acl_bytes of
        None \<Rightarrow> (i, XIdle)
      | Some bs \<Rightarrow>
          (case tmpfs_setxattr i ACL_ACCESS_XATTR bs 0 of
             Inl _ \<Rightarrow> (i, XIdle)
           | Inr i' \<Rightarrow> (i', InInstall NewMark)))"
| "install_next i NewMark = (i\<lparr>in_has_xattrs := True\<rparr>, XIdle)"

fun access_next :: "vfs_inode \<Rightarrow> access_pc \<Rightarrow> vfs_inode \<times> xattr_pc" where
  "access_next i (AccMeta c kind) =
     (i, if acl_override c (in_mode i) kind then XDecided True
         else InAccess (AccFlag c kind (in_uid i) (in_gid i) (in_mode i)))"
| "access_next i (AccFlag c kind u g m) =
     (i, if \<not> in_has_xattrs i then XDecided (mode_check c u g m kind) else InAccess (AccAcl c kind u g m))"
| "access_next i (AccAcl c kind u g m) =
     (i, XDecided
        (case tmpfs_getxattr i ACL_ACCESS_XATTR of
           Inr (Some bs) \<Rightarrow>
             (case acl_parse bs of Inr acl \<Rightarrow> acl_check c acl u g kind | Inl _ \<Rightarrow> mode_check c u g m kind)
         | _ \<Rightarrow> mode_check c u g m kind))"

fun at_rest :: "xattr_pc \<Rightarrow> bool" where
  "at_rest XIdle = True"
| "at_rest (XFailed _) = True"
| "at_rest (XDecided _) = True"
| "at_rest _ = False"

fun xattr_next :: "vfs_inode \<Rightarrow> xattr_pc \<Rightarrow> vfs_inode \<times> xattr_pc" where
  "xattr_next i (InSetxattr q) = setxattr_next i q"
| "xattr_next i (InRemovexattr q) = removexattr_next i q"
| "xattr_next i (InChmod q) = chmod_next i q"
| "xattr_next i (InChown q) = chown_next i q"
| "xattr_next i (InInstall q) = install_next i q"
| "xattr_next i (InAccess q) = access_next i q"
| "xattr_next i p = (i, p)"

text \<open>Where a call starts.\<close>

fun is_call :: "xattr_pc \<Rightarrow> bool" where
  "is_call (InSetxattr (SetGuard _ _ _ _)) = True"
| "is_call (InRemovexattr (RemGuard _ _)) = True"
| "is_call (InChmod (ModUid _ _)) = True"
| "is_call (InChown (OwnGuard _ _ _)) = True"
| "is_call (InAccess (AccMeta _ _)) = True"
| "is_call _ = False"

type_synonym xattr_sys = "vfs_inode \<times> (nat \<Rightarrow> xattr_pc)"

inductive xattr_step :: "xattr_sys \<Rightarrow> xattr_sys \<Rightarrow> bool" where
  xs_call: "at_rest (pc t) \<Longrightarrow> is_call p \<Longrightarrow> xattr_step (i, pc) (i, pc(t := p))"
| xs_act: "\<not> at_rest (pc t) \<Longrightarrow> xattr_next i (pc t) = (i', p') \<Longrightarrow> xattr_step (i, pc) (i', pc(t := p'))"

text \<open>
  The runs in which the calls that write do not overlap: one starts only when no other is under way. Access
  checks start and proceed at any time.
\<close>

fun quiet :: "xattr_pc \<Rightarrow> bool" where
  "quiet (InAccess _) = True"
| "quiet p = at_rest p"

inductive serial_step :: "xattr_sys \<Rightarrow> xattr_sys \<Rightarrow> bool" where
  ss_call: "at_rest (pc t) \<Longrightarrow> is_call p \<Longrightarrow> quiet p \<or> (\<forall>t'. quiet (pc t')) \<Longrightarrow>
    serial_step (i, pc) (i, pc(t := p))"
| ss_act: "\<not> at_rest (pc t) \<Longrightarrow> xattr_next i (pc t) = (i', p') \<Longrightarrow> serial_step (i, pc) (i', pc(t := p'))"

text \<open>
  A file comes into being with task 0 about to install the list derived from the directory's default list. The
  hint and the list of the directory are read one after the other, so the directory of the formula is whatever
  the two reads saw together and need not be a state it ever was in.
\<close>

definition xattr_init :: "xattr_sys \<Rightarrow> bool" where
  "xattr_init s \<longleftrightarrow> (\<exists>kind m owner parent requested acl_bytes.
     default_acl_for_create parent requested = Inr (acl_bytes, m) \<and>
     s = (tmpfs_new_inode kind m owner, (\<lambda>_. XIdle)(0 := InInstall (NewInstall acl_bytes))))"

section \<open>A call without interference\<close>

fun xattr_rank :: "xattr_pc \<Rightarrow> nat" where
  "xattr_rank (InSetxattr q) =
     (case q of SetGuard _ _ _ _ \<Rightarrow> 7 | SetSticky _ _ _ _ \<Rightarrow> 6 | SetStickyOwner _ _ _ _ \<Rightarrow> 5
      | SetStore _ _ _ _ _ \<Rightarrow> 4 | SetMark _ _ \<Rightarrow> 3 | SetMeta _ \<Rightarrow> 2 | SetMode _ \<Rightarrow> 1)"
| "xattr_rank (InRemovexattr q) = (case q of RemGuard _ _ \<Rightarrow> 4 | RemDelete _ \<Rightarrow> 3 | RemList \<Rightarrow> 2 | RemClear \<Rightarrow> 1)"
| "xattr_rank (InChmod q) =
     (case q of ModUid _ _ \<Rightarrow> 7 | ModGid _ _ _ \<Rightarrow> 6 | ModSet _ \<Rightarrow> 5 | ModEvent _ \<Rightarrow> 4 | ModFlag _ \<Rightarrow> 3
      | ModGet _ \<Rightarrow> 2 | ModStore _ \<Rightarrow> 1)"
| "xattr_rank (InChown q) =
     (case q of OwnGuard _ _ _ \<Rightarrow> 5 | OwnSet _ _ \<Rightarrow> 4 | OwnMeta \<Rightarrow> 3 | OwnMode _ \<Rightarrow> 2 | OwnEvent \<Rightarrow> 1)"
| "xattr_rank (InInstall q) = (case q of NewInstall _ \<Rightarrow> 2 | NewMark \<Rightarrow> 1)"
| "xattr_rank (InAccess q) = (case q of AccMeta _ _ \<Rightarrow> 3 | AccFlag _ _ _ _ _ \<Rightarrow> 2 | AccAcl _ _ _ _ _ \<Rightarrow> 1)"
| "xattr_rank _ = 0"

lemma set_rank: "xattr_rank (snd (setxattr_next i q)) < xattr_rank (InSetxattr q)"
  by (cases q) (auto split: sum.splits option.splits)

lemma remove_rank: "xattr_rank (snd (removexattr_next i q)) < xattr_rank (InRemovexattr q)"
  by (cases q) (auto split: sum.splits)

lemma chmod_rank: "xattr_rank (snd (chmod_next i q)) < xattr_rank (InChmod q)"
  by (cases q) (auto split: sum.splits option.splits)

lemma chown_rank: "xattr_rank (snd (chown_next i q)) < xattr_rank (InChown q)"
  by (cases q) (auto split: sum.splits)

lemma install_rank: "xattr_rank (snd (install_next i q)) < xattr_rank (InInstall q)"
  by (cases q) (auto split: sum.splits option.splits)

lemma access_rank: "xattr_rank (snd (access_next i q)) < xattr_rank (InAccess q)"
  by (cases q) auto

lemma xattr_next_rank: "\<not> at_rest p \<Longrightarrow> xattr_rank (snd (xattr_next i p)) < xattr_rank p"
  using set_rank remove_rank chmod_rank chown_rank install_rank access_rank
  by (cases p) (simp_all del: xattr_rank.simps)

function complete :: "vfs_inode \<times> xattr_pc \<Rightarrow> vfs_inode \<times> xattr_pc" where
  "complete s = (if at_rest (snd s) then s else complete (xattr_next (fst s) (snd s)))"
  by pat_completeness auto
termination
  by (relation "measure (\<lambda>s. xattr_rank (snd s))") (auto intro: xattr_next_rank)

declare complete.simps [simp del]

lemma complete_rest: "at_rest p \<Longrightarrow> complete (i, p) = (i, p)"
  by (simp add: complete.simps)

lemma complete_next: "\<not> at_rest p \<Longrightarrow> complete (i, p) = complete (xattr_next i p)"
  by (subst complete.simps) simp

lemma complete_run [simp]:
  "complete (i, XIdle) = (i, XIdle)" "complete (i, XFailed e) = (i, XFailed e)" "complete (i, XDecided b) = (i, XDecided b)"
  "complete (i, InSetxattr q) = complete (setxattr_next i q)"
  "complete (i, InRemovexattr q1) = complete (removexattr_next i q1)"
  "complete (i, InChmod q2) = complete (chmod_next i q2)"
  "complete (i, InChown q3) = complete (chown_next i q3)"
  "complete (i, InInstall q4) = complete (install_next i q4)"
  "complete (i, InAccess q5) = complete (access_next i q5)"
  by (simp_all add: complete_rest complete_next)

definition call_result :: "vfs_inode \<Rightarrow> vfs_inode vfs_result \<Rightarrow> vfs_inode \<times> xattr_pc" where
  "call_result i r = (case r of Inl err \<Rightarrow> (i, XFailed err) | Inr i' \<Rightarrow> (i', XIdle))"

lemma setxattr_store_alone:
  "complete (i, InSetxattr (SetStore ns name v flags acl)) =
     call_result i (case tmpfs_setxattr i name v flags of
       Inl err \<Rightarrow> Inl err
     | Inr i1 \<Rightarrow> let i2 = i1\<lparr>in_has_xattrs := True\<rparr>
         in Inr (if ns = NsPosixAclAccess then sync_mode_group acl i2 else i2))"
  by (auto simp: call_result_def sync_mode_group_def tmpfs_chmod_def split: sum.splits option.splits)

lemma setxattr_sticky_alone:
  "complete (i, InSetxattr (SetSticky name v flags c)) =
     (case xattr_check_sticky i c of
        Inl err \<Rightarrow> (i, XFailed err)
      | Inr _ \<Rightarrow> complete (i, InSetxattr (SetStore NsUser name v flags None)))"
  by (auto simp: xattr_check_sticky_def)

lemma setxattr_alone:
  "complete (i, InSetxattr (SetGuard name v flags c)) = call_result i (vfs_setxattr i name v flags c)"
proof (cases "parse_name name")
  case (Inr ns)
  then show ?thesis
    unfolding complete_run(4) setxattr_next.simps vfs_setxattr_def
    by (cases ns)
      (auto simp: setxattr_sticky_alone setxattr_store_alone setxattr_guard_def call_result_def simp del: complete_run(4)
        split: sum.splits)
qed (simp add: vfs_setxattr_def call_result_def)

lemma removexattr_alone:
  "complete (i, InRemovexattr (RemGuard name c)) = call_result i (vfs_removexattr i name c)"
  by (auto simp: vfs_removexattr_def call_result_def split: sum.splits)

lemma chmod_alone: "complete (i, InChmod (ModUid c m)) = call_result i (chmod_inode c i m)"
  by (auto simp: chmod_inode_def call_result_def sync_acl_def tmpfs_chmod_def set_mode_def tmpfs_getxattr_def
      tmpfs_setxattr_def Let_def split: sum.splits option.splits)

lemma chown_alone: "complete (i, InChown (OwnGuard c u g)) = call_result i (chown_inode c i u g)"
  by (auto simp: chown_inode_def call_result_def tmpfs_chown_def tmpfs_chmod_def Let_def)

lemma install_alone: "complete (i, InInstall (NewInstall acl_bytes)) = (install_child_acl i acl_bytes, XIdle)"
  by (auto simp: install_child_acl_def split: option.splits sum.splits)

lemma access_alone: "complete (i, InAccess (AccMeta c kind)) = (i, XDecided (check_access c i kind))"
  by (simp add: check_access_def)

lemma create_alone:
  assumes "create_child umask c parent requested kind = Inr i'"
  shows "\<exists>i acl_bytes. xattr_init (i, (\<lambda>_. XIdle)(0 := InInstall (NewInstall acl_bytes))) \<and>
    complete (i, InInstall (NewInstall acl_bytes)) = (i', XIdle)"
  using assms unfolding xattr_init_def install_alone
  by (fastforce simp: create_child_def split: sum.splits prod.splits)

section \<open>Every interleaving: the stored lists parse\<close>

definition parses :: "bytes \<Rightarrow> bool" where
  "parses bs \<longleftrightarrow> (\<exists>acl. acl_parse bs = Inr acl)"

definition lists_parse :: "vfs_inode \<Rightarrow> bool" where
  "lists_parse i \<longleftrightarrow>
     (\<forall>name\<in>{ACL_ACCESS_XATTR, ACL_DEFAULT_XATTR}. \<forall>bs. Mapping.lookup (in_xattrs i) name = Some bs \<longrightarrow> parses bs)"

text \<open>A task about to store an attribute has checked it, unless the name is not one of a list.\<close>

fun checked :: "xattr_pc \<Rightarrow> bool" where
  "checked (InSetxattr (SetStore ns name v flags acl)) \<longleftrightarrow>
     (name \<in> {ACL_ACCESS_XATTR, ACL_DEFAULT_XATTR} \<longrightarrow> parses v)"
| "checked (InSetxattr (SetSticky name v flags c)) \<longleftrightarrow> name \<notin> {ACL_ACCESS_XATTR, ACL_DEFAULT_XATTR}"
| "checked (InSetxattr (SetStickyOwner name v flags c)) \<longleftrightarrow> name \<notin> {ACL_ACCESS_XATTR, ACL_DEFAULT_XATTR}"
| "checked (InChmod (ModStore bs)) \<longleftrightarrow> parses bs"
| "checked (InInstall (NewInstall (Some bs))) \<longleftrightarrow> parses bs"
| "checked _ \<longleftrightarrow> True"

lemma checked_call: "is_call p \<Longrightarrow> checked p"
  by (cases p rule: is_call.cases) simp_all

lemma lists_parse_update:
  "lists_parse i \<Longrightarrow> (name \<in> {ACL_ACCESS_XATTR, ACL_DEFAULT_XATTR} \<Longrightarrow> parses v) \<Longrightarrow>
     lists_parse (i\<lparr>in_xattrs := Mapping.update name v (in_xattrs i)\<rparr>)"
  by (auto simp: lists_parse_def lookup_update')

lemma lists_parse_delete:
  assumes "lists_parse i"
  shows "lists_parse (i\<lparr>in_xattrs := Mapping.delete name (in_xattrs i)\<rparr>)"
proof -
  have "Mapping.lookup (Mapping.delete name (in_xattrs i)) n = Some b \<Longrightarrow> Mapping.lookup (in_xattrs i) n = Some b" for n b
    by (cases "n = name") (simp_all add: lookup_delete_neq)
  then show ?thesis using assms by (auto simp: lists_parse_def)
qed

lemma lists_parse_other [simp]:
  "lists_parse (i\<lparr>in_has_xattrs := b\<rparr>) = lists_parse i" "lists_parse (i\<lparr>in_mode := m\<rparr>) = lists_parse i"
  "lists_parse (i\<lparr>in_events := evs\<rparr>) = lists_parse i" "lists_parse (i\<lparr>in_uid := u, in_gid := g\<rparr>) = lists_parse i"
  by (simp_all add: lists_parse_def)

lemma guard_parses:
  assumes "parse_name name = Inr ns" "setxattr_guard i ns v c = Inr acl" "name \<in> {ACL_ACCESS_XATTR, ACL_DEFAULT_XATTR}"
  shows "parses v"
proof -
  have "ns = NsPosixAclAccess \<or> ns = NsPosixAclDefault" using assms(1,3) by auto
  then show ?thesis using assms(2) by (auto simp: parses_def dest: guard_acl)
qed

definition keeps :: "vfs_inode \<times> xattr_pc \<Rightarrow> bool" where
  "keeps s \<longleftrightarrow> lists_parse (fst s) \<and> checked (snd s)"

lemma setxattr_keeps:
  assumes "lists_parse i" "checked (InSetxattr q)"
  shows "keeps (setxattr_next i q)"
proof (cases q)
  case (SetGuard name v flags c)
  then show ?thesis
    using assms guard_parses [of name _ i v c] by (auto simp: keeps_def split: sum.splits)
next
  case (SetStore ns name v flags acl)
  then show ?thesis
    using assms by (auto simp: keeps_def tmpfs_setxattr_def Let_def intro: lists_parse_update)
qed (use assms in \<open>auto simp: keeps_def tmpfs_chmod_def set_mode_def split: option.splits\<close>)

lemma removexattr_keeps: "lists_parse i \<Longrightarrow> keeps (removexattr_next i q)"
  by (cases q) (auto simp: keeps_def tmpfs_removexattr_def tmpfs_listxattr_def lists_parse_delete split: sum.splits)

lemma sync_parses:
  assumes "acl_parse bs = Inr acl"
  shows "parses (acl_encode \<lparr>acl_entries = map (sync_acl_mask m) (acl_entries acl)\<rparr>)"
  using acl_parse_encode sync_keeps_valid acl_encode_parse [OF assms] by (fastforce simp: parses_def)

lemma chmod_keeps:
  assumes "lists_parse i" "checked (InChmod q)"
  shows "keeps (chmod_next i q)"
proof (cases q)
  case (ModGet m)
  then show ?thesis using assms sync_parses by (auto simp: keeps_def split: sum.splits option.splits)
next
  case (ModStore bs)
  then show ?thesis using assms by (auto simp: keeps_def tmpfs_setxattr_def intro: lists_parse_update)
qed (use assms in \<open>auto simp: keeps_def tmpfs_chmod_def set_mode_def\<close>)

lemma chown_keeps: "lists_parse i \<Longrightarrow> keeps (chown_next i q)"
  by (cases q) (auto simp: keeps_def tmpfs_chown_def tmpfs_chmod_def set_mode_def inode_set_owner_def)

lemma install_keeps:
  assumes "lists_parse i" "checked (InInstall q)"
  shows "keeps (install_next i q)"
  using assms
  by (cases q) (auto simp: keeps_def tmpfs_setxattr_def intro: lists_parse_update split: option.splits)

lemma access_keeps: "lists_parse i \<Longrightarrow> keeps (access_next i q)"
  by (cases q) (auto simp: keeps_def)

lemma xattr_next_keeps:
  "lists_parse i \<Longrightarrow> checked p \<Longrightarrow> \<not> at_rest p \<Longrightarrow> keeps (xattr_next i p)"
  using setxattr_keeps removexattr_keeps chmod_keeps chown_keeps install_keeps access_keeps by (cases p) auto

definition all_checked :: "xattr_sys \<Rightarrow> bool" where
  "all_checked s \<longleftrightarrow> lists_parse (fst s) \<and> (\<forall>t. checked (snd s t))"

interpretation xattr_lists: inductive_invariant xattr_init xattr_step all_checked
proof unfold_locales
  fix s assume "xattr_init s"
  then obtain kind m owner parent requested acl_bytes where
    "default_acl_for_create parent requested = Inr (acl_bytes, m)"
    "s = (tmpfs_new_inode kind m owner, (\<lambda>_. XIdle)(0 := InInstall (NewInstall acl_bytes)))"
    unfolding xattr_init_def by blast
  then show "all_checked s"
    using default_acl_parses
    by (cases acl_bytes) (auto simp: all_checked_def lists_parse_def tmpfs_new_inode_def parses_def)
next
  fix s s' assume "all_checked s" "xattr_step s s'"
  from this(2,1) show "all_checked s'"
  proof (induction rule: xattr_step.induct)
    case (xs_act pc t i i' p')
    then have "keeps (i', p')" using xattr_next_keeps [of i "pc t"] by (simp add: all_checked_def)
    with xs_act show ?case by (simp add: all_checked_def keeps_def)
  qed (simp add: all_checked_def checked_call)
qed

section \<open>Writers that do not overlap\<close>

lemma serial_xattr_step: "serial_step s s' \<Longrightarrow> xattr_step s s'"
  by (induction rule: serial_step.induct) (auto intro: xattr_step.intros)

lemma serial_reachable: "reachable xattr_init serial_step s \<Longrightarrow> reachable xattr_init xattr_step s"
  by (induction rule: reachable.induct) (auto intro: reachable.intros serial_xattr_step)

lemma access_quiet: "quiet (snd (access_next i q)) \<and> fst (access_next i q) = i"
  by (cases q) auto

lemma quiet_next: "quiet p \<Longrightarrow> \<not> at_rest p \<Longrightarrow> \<exists>p'. xattr_next i p = (i, p') \<and> quiet p'"
  using access_quiet by (cases p) (auto simp: prod_eq_iff)

lemma quiet_complete: "quiet p \<Longrightarrow> fst (complete (i, p)) = i"
proof (induction "xattr_rank p" arbitrary: p rule: less_induct)
  case less
  show ?case
  proof (cases "at_rest p")
    case False
    then obtain p' where p': "xattr_next i p = (i, p')" "quiet p'" using quiet_next less.prems by blast
    then have "xattr_rank p' < xattr_rank p" using xattr_next_rank [OF False, of i] by simp
    with less.hyps p' False show ?thesis by (simp add: complete_next)
  qed (simp add: complete_rest)
qed

lemma call_result_ok: "inode_ok i \<Longrightarrow> (\<And>i'. r = Inr i' \<Longrightarrow> inode_ok i') \<Longrightarrow> inode_ok (fst (call_result i r))"
  by (auto simp: call_result_def split: sum.splits)

lemma call_ok:
  assumes "inode_ok i" "is_call p"
  shows "inode_ok (fst (complete (i, p)))"
  using assms(2)
proof (cases p rule: is_call.cases)
  case (1 name v flags c)
  then show ?thesis unfolding 1 setxattr_alone using assms(1) setxattr_ok by (intro call_result_ok) blast+
next
  case (2 name c)
  then show ?thesis unfolding 2 removexattr_alone using assms(1) removexattr_ok by (intro call_result_ok) blast+
next
  case (3 c m)
  then show ?thesis unfolding 3 chmod_alone using assms(1) chmod_ok by (intro call_result_ok) blast+
next
  case (4 c u g)
  then show ?thesis unfolding 4 chown_alone using assms(1) chown_ok by (intro call_result_ok) blast+
next
  case (5 c kind)
  then show ?thesis unfolding 5 access_alone using assms(1) by simp
qed simp_all

text \<open>At most one task is in a call that writes, and finishing that call leaves a consistent inode.\<close>

definition one_writer :: "xattr_sys \<Rightarrow> bool" where
  "one_writer s \<longleftrightarrow>
     (\<exists>w. (\<forall>t. t \<noteq> w \<longrightarrow> quiet (snd s t)) \<and> inode_ok (fst (complete (fst s, snd s w))))"

lemma one_writer_quiet: "one_writer (i, pc) \<Longrightarrow> \<forall>t. quiet (pc t) \<Longrightarrow> inode_ok i"
  by (auto simp: one_writer_def quiet_complete)

lemma one_writer_call:
  assumes "one_writer (i, pc)" "at_rest (pc t)" "is_call p" "quiet p \<or> (\<forall>t'. quiet (pc t'))"
  shows "one_writer (i, pc(t := p))"
proof -
  obtain w where w: "\<And>t'. t' \<noteq> w \<Longrightarrow> quiet (pc t')" "inode_ok (fst (complete (i, pc w)))"
    using assms(1) by (auto simp: one_writer_def)
  have rest: "quiet (pc t)" using assms(2) by (cases "pc t") simp_all
  show ?thesis
  proof (cases "\<forall>t'. quiet (pc t')")
    case True
    then show ?thesis
      using call_ok [OF one_writer_quiet [OF assms(1) True] assms(3)] unfolding one_writer_def by (intro exI [of _ t]) simp
  next
    case False
    then have "t \<noteq> w" "quiet p" using w rest assms(4) by metis+
    with w show ?thesis unfolding one_writer_def by (intro exI [of _ w]) simp
  qed
qed

lemma one_writer_act:
  assumes "one_writer (i, pc)" "\<not> at_rest (pc t)" "xattr_next i (pc t) = (i', p')"
  shows "one_writer (i', pc(t := p'))"
proof -
  obtain w where w: "\<And>t'. t' \<noteq> w \<Longrightarrow> quiet (pc t')" "inode_ok (fst (complete (i, pc w)))"
    using assms(1) by (auto simp: one_writer_def)
  show ?thesis
  proof (cases "t = w")
    case True
    then have "complete (i', p') = complete (i, pc w)" using assms(2,3) by (simp add: complete_next)
    with True w show ?thesis unfolding one_writer_def by (intro exI [of _ w]) simp
  next
    case False
    then have "i' = i" "quiet p'" using quiet_next [OF w(1) assms(2), of i] assms(3) by auto
    with False w show ?thesis unfolding one_writer_def by (intro exI [of _ w]) simp
  qed
qed

interpretation xattr_serial: inductive_invariant xattr_init serial_step one_writer
proof unfold_locales
  fix s assume "xattr_init s"
  then obtain kind m owner parent requested acl_bytes where
    attrs: "default_acl_for_create parent requested = Inr (acl_bytes, m)"
    and s: "s = (tmpfs_new_inode kind m owner, (\<lambda>_. XIdle)(0 := InInstall (NewInstall acl_bytes)))"
    unfolding xattr_init_def by blast
  show "one_writer s"
    unfolding one_writer_def s
    using install_ok [OF attrs, of kind owner] install_alone by (intro exI [of _ 0]) (simp del: complete_run)
next
  fix s s' assume "one_writer s" "serial_step s s'"
  from this(2,1) show "one_writer s'"
    by (induction rule: serial_step.induct) (blast intro: one_writer_call one_writer_act)+
qed

lemma serial_run:
  assumes "reachable xattr_init serial_step (i, pc)" "pc t = p"
  shows "reachable xattr_init serial_step (fst (complete (i, p)), pc(t := snd (complete (i, p))))"
  using assms
proof (induction "(i, p)" arbitrary: i p pc rule: complete.induct)
  case 1
  show ?case
  proof (cases "at_rest p")
    case True
    then show ?thesis using "1.prems" by (simp add: complete_rest fun_upd_idem)
  next
    case False
    obtain i' p' where n: "xattr_next i p = (i', p')" by fastforce
    then have "reachable xattr_init serial_step (i', pc(t := p'))"
      using reach_step [OF "1.prems"(1) ss_act [of pc t]] False "1.prems"(2) by simp
    from "1.hyps" [of i' p' "pc(t := p')"] this False n show ?thesis by (simp add: complete_next)
  qed
qed

section \<open>Writers that overlap\<close>

lemma xattr_run:
  assumes "pc t = p"
  shows "xattr_step\<^sup>*\<^sup>* (i, pc) (fst (complete (i, p)), pc(t := snd (complete (i, p))))"
  using assms
proof (induction "(i, p)" arbitrary: i p pc rule: complete.induct)
  case 1
  show ?case
  proof (cases "at_rest p")
    case True
    then show ?thesis using "1.prems" by (simp add: complete_rest fun_upd_idem)
  next
    case False
    obtain i' p' where n: "xattr_next i p = (i', p')" by fastforce
    then have "xattr_step (i, pc) (i', pc(t := p'))" using xs_act [of pc t] False "1.prems" by simp
    with "1.hyps" [of i' p' "pc(t := p')"] False n show ?thesis
      by (simp add: complete_next converse_rtranclp_into_rtranclp)
  qed
qed

lemma removexattr_to_clear:
  assumes "vfs_removexattr i name c = Inr i1" "in_xattrs i1 = Mapping.empty" "at_rest (pc t)"
  shows "xattr_step\<^sup>*\<^sup>* (i, pc) (i\<lparr>in_xattrs := Mapping.empty\<rparr>, pc(t := InRemovexattr RemClear))"
proof -
  let ?j = "i\<lparr>in_xattrs := Mapping.empty\<rparr>"
  have guard: "removexattr_next i (RemGuard name c) = (i, InRemovexattr (RemDelete name))"
    using assms(1) by (auto simp: vfs_removexattr_def split: sum.splits)
  have "Mapping.delete name (in_xattrs i) = Mapping.empty" "Mapping.lookup (in_xattrs i) name \<noteq> None"
    using assms(1,2) by (auto simp: vfs_removexattr_def tmpfs_removexattr_def tmpfs_listxattr_def split: sum.splits if_splits)
  then have del: "removexattr_next i (RemDelete name) = (?j, InRemovexattr RemList)"
    by (simp add: tmpfs_removexattr_def)
  have list: "removexattr_next ?j RemList = (?j, InRemovexattr RemClear)"
    by (simp add: tmpfs_listxattr_def)
  have "xattr_step\<^sup>*\<^sup>* (i, pc) (i, pc(t := InRemovexattr (RemGuard name c)))"
    using assms(3) by (intro r_into_rtranclp xs_call) simp_all
  also have "xattr_step (i, pc(t := InRemovexattr (RemGuard name c))) (i, pc(t := InRemovexattr (RemDelete name)))"
    using xs_act [of "pc(t := InRemovexattr (RemGuard name c))" t i] guard by (simp del: removexattr_next.simps)
  also have "xattr_step (i, pc(t := InRemovexattr (RemDelete name))) (?j, pc(t := InRemovexattr RemList))"
    using xs_act [of "pc(t := InRemovexattr (RemDelete name))" t i] del by (simp del: removexattr_next.simps)
  also have "xattr_step (?j, pc(t := InRemovexattr RemList)) (?j, pc(t := InRemovexattr RemClear))"
    using xs_act [of "pc(t := InRemovexattr RemList)" t ?j] list by (simp del: removexattr_next.simps)
  finally show ?thesis .
qed

text \<open>
  Why the writers must not overlap. The removal of the last attribute empties the map, lists it and clears the
  hint in three separate accesses. When another task sets an access list between the last two, both calls
  succeed and the list is stored, but the hint ends up clear: the list is ignored by every check from then on.
\<close>

theorem removexattr_hides_acl:
  assumes "at_rest (pc t)" "at_rest (pc s)" "t \<noteq> s"
    and "vfs_removexattr i name c = Inr i1" "in_xattrs i1 = Mapping.empty"
    and "vfs_setxattr (i\<lparr>in_xattrs := Mapping.empty\<rparr>) ACL_ACCESS_XATTR v flags d = Inr i2"
  defines "j \<equiv> i2\<lparr>in_has_xattrs := False\<rparr>"
  shows "xattr_step\<^sup>*\<^sup>* (i, pc) (j, pc(t := XIdle, s := XIdle)) \<and>
    tmpfs_getxattr j ACL_ACCESS_XATTR = Inr (Some v) \<and>
    check_access e j kind = mode_check e (in_uid j) (in_gid j) (in_mode j) kind"
proof -
  let ?i = "i\<lparr>in_xattrs := Mapping.empty\<rparr>" and ?p = "InSetxattr (SetGuard ACL_ACCESS_XATTR v flags d)"
  let ?pc = "pc(t := InRemovexattr RemClear)"
  have "xattr_step\<^sup>*\<^sup>* (i, pc) (?i, ?pc)" using removexattr_to_clear [OF assms(4,5), of pc t] assms(1) by simp
  also have "xattr_step (?i, ?pc) (?i, ?pc(s := ?p))" using assms(2,3) by (intro xs_call) simp_all
  also have "xattr_step\<^sup>*\<^sup>* (?i, ?pc(s := ?p)) (i2, ?pc(s := XIdle))"
    using xattr_run [of "?pc(s := ?p)" s ?p ?i] unfolding setxattr_alone assms(6) by (simp add: call_result_def)
  also have "xattr_step (i2, ?pc(s := XIdle)) (j, (?pc(s := XIdle))(t := XIdle))"
    unfolding j_def using assms(3) by (intro xs_act) simp_all
  finally have run: "xattr_step\<^sup>*\<^sup>* (i, pc) (j, pc(t := XIdle, s := XIdle))"
    using assms(3) by (simp add: fun_upd_twist)
  have "Mapping.lookup (in_xattrs i2) ACL_ACCESS_XATTR = Some v"
    using assms(6) by (rule vfs_setxattr_Inr)
      (auto simp: sync_mode_group_def tmpfs_chmod_def set_mode_def split: option.splits if_splits)
  then have "tmpfs_getxattr j ACL_ACCESS_XATTR = Inr (Some v)" by (simp add: j_def tmpfs_getxattr_def)
  moreover have "check_access e j kind = mode_check e (in_uid j) (in_gid j) (in_mode j) kind"
    using mode_check_override by (auto simp: check_access_def j_def)
  ultimately show ?thesis using run by blast
qed

section \<open>Properties\<close>

text \<open>
  C8. The permission state of a file under concurrent creation, attribute changes, chmod, chown and access
  checks, by any processes. Over every interleaving of their accesses, a stored access or default list parses,
  so a check that reads an access list decides by that list and never falls back to the mode bits for a damaged
  one. In runs where the calls that write do not overlap, whatever checks run meanwhile, every state between
  two of them is consistent: the hint is only clear when there is no attribute, so the shortcut that skips the
  attributes misses nothing; the mask of the access list, if it has one, equals the group bits of the mode; and
  access is decided by the stored list, or by the mode bits when there is none, up to the capabilities that
  override both.
\<close>

theorem permission_state_consistent:
  assumes "reachable xattr_init xattr_step (i, pc)"
  shows "(\<forall>name\<in>{ACL_ACCESS_XATTR, ACL_DEFAULT_XATTR}. \<forall>bs.
      tmpfs_getxattr i name = Inr (Some bs) \<longrightarrow> (\<exists>acl. acl_parse bs = Inr acl))
    \<and> (\<forall>c kind u g m. xattr_next i (InAccess (AccAcl c kind u g m)) =
          (i, XDecided (case tmpfs_getxattr i ACL_ACCESS_XATTR of
                Inr (Some bs) \<Rightarrow> acl_reference c (acl_entries (projr (acl_parse bs))) u g kind
              | _ \<Rightarrow> mode_check c u g m kind)))
    \<and> (reachable xattr_init serial_step (i, pc) \<and> (\<forall>t. quiet (pc t)) \<longrightarrow>
        (in_has_xattrs i \<or> in_xattrs i = Mapping.empty)
        \<and> (case tmpfs_getxattr i ACL_ACCESS_XATTR of
              Inr (Some bs) \<Rightarrow>
                (\<exists>acl. acl_parse bs = Inr acl
                   \<and> mask_to_mode_group acl \<in> {None, Some (group_perm (in_mode i))}
                   \<and> (\<forall>c kind. check_access c i kind \<longleftrightarrow>
                         acl_override c (in_mode i) kind \<or> acl_reference c (acl_entries acl) (in_uid i) (in_gid i) kind))
            | _ \<Rightarrow> (\<forall>c kind. check_access c i kind = mode_check c (in_uid i) (in_gid i) (in_mode i) kind)))"
proof (intro conjI impI)
  have lists: "lists_parse i" using xattr_lists.reachable_inv [OF assms] by (simp add: all_checked_def)
  then show "\<forall>name\<in>{ACL_ACCESS_XATTR, ACL_DEFAULT_XATTR}. \<forall>bs.
      tmpfs_getxattr i name = Inr (Some bs) \<longrightarrow> (\<exists>acl. acl_parse bs = Inr acl)"
    by (auto simp: lists_parse_def parses_def tmpfs_getxattr_def)
  show "\<forall>c kind u g m. xattr_next i (InAccess (AccAcl c kind u g m)) =
          (i, XDecided (case tmpfs_getxattr i ACL_ACCESS_XATTR of
                Inr (Some bs) \<Rightarrow> acl_reference c (acl_entries (projr (acl_parse bs))) u g kind
              | _ \<Rightarrow> mode_check c u g m kind))"
  proof (cases "Mapping.lookup (in_xattrs i) ACL_ACCESS_XATTR")
    case (Some bs)
    then obtain acl where acl: "acl_parse bs = Inr acl" using lists by (auto simp: lists_parse_def parses_def)
    then show ?thesis using Some acl_encode_parse [OF acl] by (simp add: tmpfs_getxattr_def acl_check_eq)
  qed (simp add: tmpfs_getxattr_def)
next
  assume "reachable xattr_init serial_step (i, pc) \<and> (\<forall>t. quiet (pc t))"
  then have "inode_ok i" using xattr_serial.reachable_inv one_writer_quiet by blast
  note ok = inode_ok_consistent [OF this]
  show "in_has_xattrs i \<or> in_xattrs i = Mapping.empty" by (rule ok [THEN conjunct1])
  show "case tmpfs_getxattr i ACL_ACCESS_XATTR of
      Inr (Some bs) \<Rightarrow>
        (\<exists>acl. acl_parse bs = Inr acl
           \<and> mask_to_mode_group acl \<in> {None, Some (group_perm (in_mode i))}
           \<and> (\<forall>c kind. check_access c i kind \<longleftrightarrow>
                 acl_override c (in_mode i) kind \<or> acl_reference c (acl_entries acl) (in_uid i) (in_gid i) kind))
    | _ \<Rightarrow> (\<forall>c kind. check_access c i kind = mode_check c (in_uid i) (in_gid i) (in_mode i) kind)"
    by (rule ok [THEN conjunct2])
qed

lemma listed_file_reachable: "reachable xattr_init serial_step (listed_file, \<lambda>_. XIdle)"
proof -
  let ?i = "tmpfs_new_inode Regular 0x1A4 (unprivileged 0 0)"
  let ?p = "InSetxattr (SetGuard ACL_ACCESS_XATTR (acl_encode (minimal_acl 0x1A4)) 0 (unprivileged 0 0))"
  have d: "default_acl_for_create (tmpfs_new_inode Directory 0 (unprivileged 0 0)) 0x1A4 = Inr (None, 0x1A4)"
    by (simp add: default_acl_for_create_def tmpfs_new_inode_def)
  have "xattr_init (?i, (\<lambda>_. XIdle)(0 := InInstall (NewInstall None)))"
    unfolding xattr_init_def by (intro exI conjI, rule d, rule refl)
  then have "reachable xattr_init serial_step (?i, (\<lambda>_. XIdle)(0 := InInstall (NewInstall None)))"
    by (rule reach_init)
  from serial_run [OF this, of 0] have "reachable xattr_init serial_step (?i, \<lambda>_. XIdle)"
    by (simp add: fun_upd_idem)
  then have "reachable xattr_init serial_step (?i, (\<lambda>_. XIdle)(0 := ?p))"
    by (rule reach_step) (rule ss_call, simp_all)
  from serial_run [OF this, of 0 ?p] show ?thesis
    unfolding setxattr_alone listed_file_set by (simp add: call_result_def fun_upd_idem)
qed

theorem permission_state_consistent_witness:
  "reachable xattr_init xattr_step (listed_file, \<lambda>_. XIdle) \<and>
   reachable xattr_init serial_step (listed_file, \<lambda>_. XIdle) \<and>
   check_access (unprivileged 1000 100) listed_file AclRead \<and>
   \<not> check_access (unprivileged 1000 100) listed_file AclWrite"
proof -
  note r = listed_file_reachable serial_reachable [OF listed_file_reachable]
  have "check_access c listed_file kind \<longleftrightarrow>
      acl_override c (in_mode listed_file) kind
      \<or> acl_reference c (acl_entries (minimal_acl 0x1A4)) (in_uid listed_file) (in_gid listed_file) kind" for c kind
    using permission_state_consistent [OF r(2)] r(1) by (simp add: listed_file_lookup)
  moreover have "in_uid listed_file = 0" "in_gid listed_file = 0" by (simp_all add: listed_file_def)
  ultimately show ?thesis using r by (simp add: listed_file_reference)
qed

text \<open>The overlap on this file: a list that gives nobody any access is set, and a stranger still reads.\<close>

lemma removexattr_hides_acl_run:
  "\<exists>j. reachable xattr_init xattr_step (j, \<lambda>_. XIdle) \<and>
     tmpfs_getxattr j ACL_ACCESS_XATTR = Inr (Some (acl_encode (minimal_acl 0))) \<and>
     \<not> acl_reference (unprivileged 1000 100) (acl_entries (minimal_acl 0)) (in_uid j) (in_gid j) AclRead \<and>
     check_access (unprivileged 1000 100) j AclRead"
proof -
  let ?v = "acl_encode (minimal_acl 0)" and ?c = "unprivileged 0 0"
  let ?i = "listed_file\<lparr>in_xattrs := Mapping.empty\<rparr>"
  let ?i2 = "listed_file\<lparr>in_xattrs := Mapping.update ACL_ACCESS_XATTR ?v Mapping.empty, in_has_xattrs := True\<rparr>"
  have "Mapping.delete n (Mapping.update n b Mapping.empty) = Mapping.empty" for n b :: bytes
    by (rule mapping_eqI) (metis lookup_delete lookup_delete_neq lookup_empty lookup_update_neq)
  then have rem: "vfs_removexattr listed_file ACL_ACCESS_XATTR ?c = Inr (?i\<lparr>in_has_xattrs := False\<rparr>)"
    by (simp add: vfs_removexattr_def removexattr_guard_def tmpfs_removexattr_def tmpfs_listxattr_def listed_file_def
        is_owner_def unprivileged_def)
  have len: "\<not> XATTR_SIZE_MAX < length ?v"
    by (simp add: acl_encode_def encode_entry_def u16_to_le_bytes_def u32_to_le_bytes_def minimal_acl_def XATTR_SIZE_MAX_def)
  have parse: "acl_parse ?v = Inr (minimal_acl 0)" by (simp add: acl_parse_encode minimal_acl_valid)
  have mask: "mask_to_mode_group (minimal_acl 0) = None" by (simp add: mask_to_mode_group_def minimal_acl_def)
  have "vfs_setxattr ?i ACL_ACCESS_XATTR ?v 0 ?c = Inr ?i2"
    unfolding vfs_setxattr_def setxattr_guard_def parse using len mask
    by (simp add: unprivileged_def is_owner_def tmpfs_setxattr_def sync_mode_group_def listed_file_def)
  from removexattr_hides_acl [where t = 0 and s = 1 and pc = "\<lambda>_. XIdle", OF _ _ _ rem _ this, of "unprivileged 1000 100" AclRead]
  have run: "xattr_step\<^sup>*\<^sup>* (listed_file, \<lambda>_. XIdle) (?i2\<lparr>in_has_xattrs := False\<rparr>, \<lambda>_. XIdle)"
    and out: "tmpfs_getxattr (?i2\<lparr>in_has_xattrs := False\<rparr>) ACL_ACCESS_XATTR = Inr (Some ?v)"
      "check_access (unprivileged 1000 100) (?i2\<lparr>in_has_xattrs := False\<rparr>) AclRead =
       mode_check (unprivileged 1000 100) 0 0 0x1A4 AclRead"
    by (simp_all add: fun_upd_idem) (simp_all add: listed_file_def)
  have "reachable xattr_init xattr_step (?i2\<lparr>in_has_xattrs := False\<rparr>, \<lambda>_. XIdle)"
    using run serial_reachable [OF listed_file_reachable]
    by (induction rule: rtranclp_induct) (auto intro: reach_step)
  moreover have "mode_check (unprivileged 1000 100) 0 0 0x1A4 AclRead"
    by (simp add: can_read_def check_permission_def has_cap_def unprivileged_def mode_has_def mode_bit_defs)
  moreover have "\<not> acl_reference (unprivileged 1000 100) (acl_entries (minimal_acl 0)) u g AclRead" for u g
    by (simp add: acl_reference_def minimal_acl_def unprivileged_def names_user_def group_matches_def
      perm_allows_def owner_perm_def group_perm_def other_perm_def)
  ultimately show ?thesis using out by (intro exI [of _ "?i2\<lparr>in_has_xattrs := False\<rparr>"]) simp
qed

end
