(* ===== verification/Crc.thy ===== *)
theory Crc
  imports Bytes
begin

unbundle bit_operations_syntax

text \<open>
  The checksums of the ext4 driver: \<open>libs/extfs/src/crc.rs\<close>. The lookup tables are built by the loops of
  the source; the slicing loop reads sixteen and then eight bytes at a time. The reference processes one
  bit after the other.
\<close>

section \<open>CRC-32C\<close>

definition POLY :: "32 word" where "POLY = 0x82f63b78"

definition crc_bit :: "32 word \<Rightarrow> 32 word" where
  "crc_bit c = (if c AND 1 \<noteq> 0 then drop_bit 1 c XOR POLY else drop_bit 1 c)"

definition crc_table :: "32 word list" where
  "crc_table = map (\<lambda>i. (crc_bit ^^ 8) (of_nat i)) [0..<256]"

primrec slicing_table :: "nat \<Rightarrow> 32 word list" where
  "slicing_table 0 = crc_table"
| "slicing_table (Suc n) =
     map (\<lambda>previous. crc_table ! unat (previous AND 0xff) XOR drop_bit 8 previous) (slicing_table n)"

definition build_slicing_tables :: "32 word list list" where
  "build_slicing_tables = map slicing_table [0..<16]"

definition sliced :: "nat \<Rightarrow> 32 word \<Rightarrow> 32 word" where
  "sliced n w = build_slicing_tables ! n ! unat w"

text \<open>The terms of one block: the four bytes of the mixed word, then the remaining bytes of the block.\<close>

definition slice_word :: "nat \<Rightarrow> 32 word \<Rightarrow> 32 word" where
  "slice_word n c =
     sliced (n + 3) (c AND 0xff) XOR sliced (n + 2) (drop_bit 8 c AND 0xff) XOR sliced (n + 1) (drop_bit 16 c AND 0xff)
       XOR sliced n (drop_bit 24 c)"

fun slice_bytes :: "8 word list \<Rightarrow> 32 word" where
  "slice_bytes [] = 0"
| "slice_bytes (b # bs) = sliced (length bs) (ucast b) XOR slice_bytes bs"

fun slice_block :: "32 word \<Rightarrow> 8 word list \<Rightarrow> 32 word" where
  "slice_block c (b0 # b1 # b2 # b3 # bs) =
     slice_word (length bs) (c XOR u32_from_le_bytes b0 b1 b2 b3) XOR slice_bytes bs"
| "slice_block c bs = c"

fun update_tail :: "32 word \<Rightarrow> 8 word list \<Rightarrow> 32 word" where
  "update_tail c [] = c"
| "update_tail c (b # bs) = update_tail (crc_table ! unat ((c XOR ucast b) AND 0xff) XOR drop_bit 8 c) bs"

definition update_eight :: "32 word \<Rightarrow> 8 word list \<Rightarrow> 32 word" where
  "update_eight c data =
     (if 8 \<le> length data then update_tail (slice_block c (take 8 data)) (drop 8 data) else update_tail c data)"

function update_slicing_by_16 :: "32 word \<Rightarrow> 8 word list \<Rightarrow> 32 word" where
  "update_slicing_by_16 c data =
     (if 16 \<le> length data then update_slicing_by_16 (slice_block c (take 16 data)) (drop 16 data)
      else update_eight c data)"
  by pat_completeness auto
termination
  by (relation "measure (\<lambda>(c, data). length data)") auto

declare update_slicing_by_16.simps [simp del]

definition crc_update :: "32 word \<Rightarrow> 8 word list \<Rightarrow> 32 word" where
  "crc_update seed data = update_slicing_by_16 seed data"

definition crc32c :: "8 word list \<Rightarrow> 32 word" where
  "crc32c data = crc_update 0xffffffff data"

section \<open>Big-endian CRC-32\<close>

definition POLY_BE :: "32 word" where "POLY_BE = 0x04c11db7"

definition crc_be_bit :: "32 word \<Rightarrow> 32 word" where
  "crc_be_bit c = (if c AND 0x80000000 \<noteq> 0 then push_bit 1 c XOR POLY_BE else push_bit 1 c)"

definition crc_be_table :: "32 word list" where
  "crc_be_table = map (\<lambda>i. (crc_be_bit ^^ 8) (push_bit 24 (of_nat i))) [0..<256]"

fun crc32_be_update :: "32 word \<Rightarrow> 8 word list \<Rightarrow> 32 word" where
  "crc32_be_update c [] = c"
| "crc32_be_update c (b # bs) =
     crc32_be_update (push_bit 8 c XOR crc_be_table ! unat ((drop_bit 24 c XOR ucast b) AND 0xff)) bs"

section \<open>The reference\<close>

text \<open>One byte enters at the low (or high) end and eight bits are shifted out.\<close>

definition crc_reference :: "32 word \<Rightarrow> 8 word list \<Rightarrow> 32 word" where
  "crc_reference c data = foldl (\<lambda>c b. (crc_bit ^^ 8) (c XOR ucast b)) c data"

definition crc_be_reference :: "32 word \<Rightarrow> 8 word list \<Rightarrow> 32 word" where
  "crc_be_reference c data = foldl (\<lambda>c b. (crc_be_bit ^^ 8) (c XOR push_bit 24 (ucast b))) c data"

section \<open>Linearity\<close>

lemma and_1_bit: "c AND 1 = 0 \<longleftrightarrow> \<not> bit c 0" for c :: "32 word"
  by (simp add: bit_iff_and_push_bit_not_eq_0)

lemma crc_bit_xor: "crc_bit (a XOR b) = crc_bit a XOR crc_bit b"
  by (rule bit_word_eqI) (auto simp: crc_bit_def and_1_bit bit_simps)

lemma crc_bits_xor: "(crc_bit ^^ n) (a XOR b) = (crc_bit ^^ n) a XOR (crc_bit ^^ n) b"
  by (induction n) (simp_all add: crc_bit_xor)

lemma crc_bit_0: "(crc_bit ^^ n) 0 = 0"
  by (induction n) (simp_all add: crc_bit_def)

lemma crc_bit_even: "\<not> bit c 0 \<Longrightarrow> crc_bit c = drop_bit 1 c"
  by (simp add: crc_bit_def and_1_bit)

lemma crc_bits_shift: "(\<And>i. i < n \<Longrightarrow> \<not> bit c i) \<Longrightarrow> (crc_bit ^^ n) c = drop_bit n c"
proof (induction n)
  case (Suc n)
  have "(crc_bit ^^ n) c = drop_bit n c" using Suc by simp
  moreover have "\<not> bit (drop_bit n c) 0" using Suc.prems [of n] by (simp add: bit_simps)
  ultimately show ?case by (simp add: crc_bit_even drop_bit_drop_bit)
qed simp

abbreviation crc_byte :: "32 word \<Rightarrow> 32 word" where
  "crc_byte \<equiv> crc_bit ^^ 8"

lemma ff_mask: "(0xff :: 32 word) = mask 8"
  by (simp add: mask_eq_exp_minus_1)

lemma ff_bits: "bit (0xff :: 32 word) n \<longleftrightarrow> n < 8"
  unfolding ff_mask bit_mask_iff by auto

lemma ff_take: "c AND 0xff = take_bit 8 c" for c :: "32 word"
  unfolding ff_mask by (simp add: take_bit_eq_mask)

lemma crc_byte_split: "crc_byte c = crc_byte (c AND 0xff) XOR drop_bit 8 c"
proof -
  define m :: "32 word" where "m = 0xff"
  have m: "bit m i \<longleftrightarrow> i < 8" for i unfolding m_def by (rule ff_bits)
  have "c = (c AND m) XOR (c AND NOT m)" by (rule bit_word_eqI) (auto simp: bit_simps)
  then have "crc_byte c = crc_byte (c AND m) XOR crc_byte (c AND NOT m)" by (metis crc_bits_xor)
  moreover have "crc_byte (c AND NOT m) = drop_bit 8 (c AND NOT m)"
    by (rule crc_bits_shift) (simp add: bit_and_iff bit_not_iff m)
  moreover have "drop_bit 8 (c AND NOT m) = drop_bit 8 c"
    by (rule bit_word_eqI) (auto simp: bit_simps m dest: bit_imp_le_length)
  ultimately show ?thesis by (simp add: m_def)
qed

section \<open>The tables\<close>

lemma unat_ff: "unat (c AND 0xff :: 32 word) < 256"
  unfolding ff_take unsigned_take_bit_eq using take_bit_nat_less_exp [of 8 "unat c"] by simp

lemma crc_table_nth: "unat w < 256 \<Longrightarrow> crc_table ! unat w = crc_byte w" for w :: "32 word"
  by (simp add: crc_table_def)

lemma crc_table_step: "crc_table ! unat (c AND 0xff) XOR drop_bit 8 c = crc_byte c"
  by (metis crc_byte_split crc_table_nth unat_ff)

lemma slicing_table_eq: "slicing_table n = map (\<lambda>i. (crc_byte ^^ Suc n) (of_nat i)) [0..<256]"
proof (induction n)
  case (Suc n)
  then show ?case by (simp add: crc_table_step)
qed (simp add: crc_table_def)

lemma sliced_eq: "n < 16 \<Longrightarrow> unat w < 256 \<Longrightarrow> sliced n w = (crc_byte ^^ Suc n) w"
  by (simp add: sliced_def build_slicing_tables_def slicing_table_eq)

lemma crc_bytes_xor: "(crc_byte ^^ n) (a XOR b) = (crc_byte ^^ n) a XOR (crc_byte ^^ n) b"
  by (induction n) (simp_all add: crc_bits_xor)

lemma crc_bytes_0: "(crc_byte ^^ n) 0 = 0"
  by (induction n) (simp_all add: crc_bit_0)

lemma crc_bytes_split:
  "(crc_byte ^^ Suc n) c = (crc_byte ^^ Suc n) (c AND 0xff) XOR (crc_byte ^^ n) (drop_bit 8 c)"
proof -
  have "(crc_byte ^^ Suc n) c = (crc_byte ^^ n) (crc_byte (c AND 0xff) XOR drop_bit 8 c)"
    using crc_byte_split [of c] by (simp add: funpow_swap1)
  then show ?thesis by (simp add: crc_bytes_xor funpow_swap1)
qed

section \<open>Blocks\<close>

lemma slice_word_eq:
  assumes "n + 3 < 16"
  shows "slice_word n c = (crc_byte ^^ (n + 4)) c"
proof -
  have d: "drop_bit 8 (drop_bit 8 c) = drop_bit 16 c" "drop_bit 8 (drop_bit 16 c) = drop_bit 24 c"
    by (simp_all add: drop_bit_drop_bit)
  have h: "unat (drop_bit 24 c) < 256"
    using unsigned_less [where 'a = nat, of c]
    unfolding unsigned_drop_bit_eq by (simp add: drop_bit_eq_div less_mult_imp_div_less take_bit_nat_eq_self)
  have l: "drop_bit 24 c AND 0xff = drop_bit 24 c" "drop_bit 8 (drop_bit 24 c) = 0"
    unfolding ff_take by (rule bit_word_eqI, auto simp: bit_simps dest: bit_imp_le_length)+
  have "(crc_byte ^^ (n + 4)) c =
      (crc_byte ^^ Suc (n + 3)) (c AND 0xff) XOR ((crc_byte ^^ Suc (n + 2)) (drop_bit 8 c AND 0xff) XOR
        ((crc_byte ^^ Suc (n + 1)) (drop_bit 16 c AND 0xff) XOR (crc_byte ^^ Suc n) (drop_bit 24 c)))"
    using crc_bytes_split [of "n + 3" c] crc_bytes_split [of "n + 2" "drop_bit 8 c"]
      crc_bytes_split [of "n + 1" "drop_bit 16 c"]
    by (simp only: d) (simp add: numeral_eq_Suc)
  then show ?thesis
    using assms by (simp only: slice_word_def sliced_eq unat_ff h xor.assoc)
qed


lemma reference_xor: "crc_reference c bs = (crc_byte ^^ length bs) c XOR crc_reference 0 bs"
proof (induction bs arbitrary: c)
  case (Cons b bs)
  have "crc_reference (crc_byte (c XOR ucast b)) bs =
      (crc_byte ^^ length bs) (crc_byte (c XOR ucast b)) XOR crc_reference 0 bs"
    by (rule Cons.IH)
  moreover have "crc_reference (crc_byte (ucast b)) bs = (crc_byte ^^ length bs) (crc_byte (ucast b)) XOR crc_reference 0 bs"
    by (rule Cons.IH)
  ultimately show ?case
    by (simp add: crc_reference_def crc_bits_xor crc_bytes_xor crc_bit_0 funpow_swap1 xor.assoc)
qed (simp add: crc_reference_def)

lemma unat_byte: "unat (ucast (b :: 8 word) :: 32 word) < 256"
  using unsigned_less [where 'a = nat, of b] by (simp add: unsigned_ucast_eq take_bit_nat_eq_self)

lemma slice_bytes_eq: "length bs \<le> 16 \<Longrightarrow> slice_bytes bs = crc_reference 0 bs"
proof (induction bs)
  case (Cons b bs)
  have "crc_reference 0 (b # bs) = (crc_byte ^^ length bs) (crc_byte (ucast b)) XOR crc_reference 0 bs"
    using reference_xor [of "crc_byte (ucast b)" bs] by (simp add: crc_reference_def)
  then show ?case using Cons by (simp add: sliced_eq unat_byte funpow_swap1)
qed (simp add: crc_reference_def)

lemma ucast_bits: "bit (ucast (b :: 8 word) :: 32 word) n \<longleftrightarrow> bit b n"
  by (auto simp: bit_simps dest: bit_imp_le_length)

lemma byte_step: "(\<And>n. bit w n \<Longrightarrow> n < 24) \<Longrightarrow> crc_byte (c XOR (ucast (b :: 8 word) XOR push_bit 8 w)) = crc_byte (c XOR ucast b) XOR w"
proof -
  assume w: "\<And>n. bit w n \<Longrightarrow> n < 24"
  have "crc_byte (push_bit 8 w) = drop_bit 8 (push_bit 8 w)"
    by (rule crc_bits_shift) (simp add: bit_simps)
  also have "\<dots> = w" by (rule bit_word_eqI) (auto simp: bit_simps dest: w)
  finally show ?thesis by (simp add: crc_bits_xor xor.assoc)
qed

lemma le_bytes_xor:
  "u32_from_le_bytes b0 b1 b2 b3 =
     ucast b0 XOR push_bit 8 (ucast b1 XOR push_bit 8 (ucast b2 XOR push_bit 8 (ucast b3)))"
  unfolding u32_from_le_bytes_def
  by (rule bit_word_eqI) (auto simp: bit_or_iff bit_xor_iff bit_push_bit_iff ucast_bits dest: bit_imp_le_length)

lemma reference_word: "crc_reference c [b0, b1, b2, b3] = (crc_byte ^^ 4) (c XOR u32_from_le_bytes b0 b1 b2 b3)"
proof -
  have 1: "crc_byte (c XOR u32_from_le_bytes b0 b1 b2 b3) =
      crc_byte (c XOR ucast b0) XOR (ucast b1 XOR push_bit 8 (ucast b2 XOR push_bit 8 (ucast b3)))" for c
    unfolding le_bytes_xor
    by (rule byte_step) (auto simp: bit_xor_iff bit_push_bit_iff ucast_bits dest: bit_imp_le_length)
  have 2: "crc_byte (c XOR (ucast b1 XOR push_bit 8 (ucast b2 XOR push_bit 8 (ucast b3)))) =
      crc_byte (c XOR ucast b1) XOR (ucast b2 XOR push_bit 8 (ucast b3))" for c
    by (rule byte_step) (auto simp: bit_xor_iff bit_push_bit_iff ucast_bits dest: bit_imp_le_length)
  have 3: "crc_byte (c XOR (ucast b2 XOR push_bit 8 (ucast b3))) = crc_byte (c XOR ucast b2) XOR ucast b3" for c
    by (rule byte_step) (auto simp: ucast_bits dest: bit_imp_le_length)
  have "(crc_byte ^^ 4) d = crc_byte (crc_byte (crc_byte (crc_byte d)))" for d by (simp add: eval_nat_numeral)
  then show ?thesis by (simp only: 1 2 3 crc_reference_def foldl.simps)
qed

lemma reference_append: "crc_reference c (xs @ ys) = crc_reference (crc_reference c xs) ys"
  by (simp add: crc_reference_def)

lemma slice_block_eq:
  assumes "4 \<le> length bs" "length bs \<le> 16"
  shows "slice_block c bs = crc_reference c bs"
proof -
  obtain b0 b1 b2 b3 r where bs: "bs = b0 # b1 # b2 # b3 # r"
    using assms(1) by (cases "(c, bs)" rule: slice_block.cases) auto
  have "crc_reference c ([b0, b1, b2, b3] @ r) = (crc_byte ^^ length r) ((crc_byte ^^ 4) (c XOR u32_from_le_bytes b0 b1 b2 b3)) XOR crc_reference 0 r"
    unfolding reference_append reference_word by (rule reference_xor)
  then show ?thesis
    using assms(2) by (simp add: bs slice_word_eq slice_bytes_eq funpow_add)
qed

lemma update_tail_eq: "update_tail c bs = crc_reference c bs"
proof (induction c bs rule: update_tail.induct)
  case (2 c b bs)
  have "drop_bit 8 (c XOR ucast b) = drop_bit 8 c"
    by (rule bit_word_eqI) (auto simp: bit_drop_bit_eq bit_xor_iff ucast_bits dest: bit_imp_le_length)
  then have "crc_table ! unat ((c XOR ucast b) AND 0xff) XOR drop_bit 8 c = crc_byte (c XOR ucast b)"
    using crc_table_step [of "c XOR ucast b"] by simp
  then show ?case using 2 by (simp add: crc_reference_def)
qed (simp add: crc_reference_def)

lemma update_eight_eq: "update_eight c bs = crc_reference c bs"
  using reference_append [of c "take 8 bs" "drop 8 bs", symmetric]
  by (simp add: update_eight_def update_tail_eq slice_block_eq)

lemma update_slicing_eq: "update_slicing_by_16 c bs = crc_reference c bs"
proof (induction c bs rule: update_slicing_by_16.induct)
  case (1 c bs)
  then show ?case
    using reference_append [of c "take 16 bs" "drop 16 bs", symmetric]
    by (simp add: update_slicing_by_16.simps [of c bs] update_eight_eq slice_block_eq)
qed


section \<open>The big-endian form\<close>

lemma and_top_bit: "c AND 0x80000000 = 0 \<longleftrightarrow> \<not> bit c 31" for c :: "32 word"
proof -
  have "(0x80000000 :: 32 word) = push_bit 31 1" by simp
  then show ?thesis by (simp only: bit_iff_and_push_bit_not_eq_0 not_not)
qed

lemma crc_be_bit_xor: "crc_be_bit (a XOR b) = crc_be_bit a XOR crc_be_bit b"
  by (rule bit_word_eqI) (auto simp: crc_be_bit_def and_top_bit bit_simps)

lemma crc_be_bits_xor: "(crc_be_bit ^^ n) (a XOR b) = (crc_be_bit ^^ n) a XOR (crc_be_bit ^^ n) b"
  by (induction n) (simp_all add: crc_be_bit_xor)

lemma crc_be_bit_low: "\<not> bit c 31 \<Longrightarrow> crc_be_bit c = push_bit 1 c"
  by (simp add: crc_be_bit_def and_top_bit)

lemma crc_be_bits_shift: "n \<le> 32 \<Longrightarrow> (\<And>i. 32 - n \<le> i \<Longrightarrow> \<not> bit c i) \<Longrightarrow> (crc_be_bit ^^ n) c = push_bit n c"
proof (induction n)
  case (Suc n)
  have "(crc_be_bit ^^ n) c = push_bit n c" using Suc by simp
  moreover have "\<not> bit (push_bit n c) 31" using Suc.prems(1) Suc.prems(2) [of "31 - n"] by (simp add: bit_simps)
  ultimately show ?case
    by (simp only: funpow.simps comp_apply crc_be_bit_low push_bit_push_bit plus_1_eq_Suc not_False_eq_True)
qed simp

lemma crc_be_table_step:
  "push_bit 8 c XOR crc_be_table ! unat ((drop_bit 24 c XOR ucast b) AND 0xff) =
     (crc_be_bit ^^ 8) (c XOR push_bit 24 (ucast (b :: 8 word)))"
proof -
  define h where "h = (drop_bit 24 c XOR ucast b) AND 0xff"
  have "c XOR push_bit 24 (ucast b) = take_bit 24 c XOR push_bit 24 h"
    unfolding h_def ff_take
    by (rule bit_word_eqI) (auto simp: bit_simps dest: bit_imp_le_length)
  moreover have "(crc_be_bit ^^ 8) (take_bit 24 c) = push_bit 8 (take_bit 24 c)"
    by (rule crc_be_bits_shift) (simp_all add: bit_simps)
  moreover have "push_bit 8 (take_bit 24 c) = push_bit 8 c"
    by (rule bit_word_eqI) (auto simp: bit_simps)
  moreover have "crc_be_table ! unat h = (crc_be_bit ^^ 8) (push_bit 24 h)"
    using unat_ff [of "drop_bit 24 c XOR ucast b"] unfolding crc_be_table_def h_def [symmetric] by simp
  ultimately show ?thesis by (simp only: crc_be_bits_xor h_def)
qed

lemma crc32_be_update_eq: "crc32_be_update c bs = crc_be_reference c bs"
  by (induction c bs rule: crc32_be_update.induct)
    (simp_all add: crc_be_table_step crc_be_reference_def)

section \<open>Properties\<close>

text \<open>
  C10. The table-driven checksums are the bitwise ones. For every seed and every byte string, of any length,
  the slicing-by-16 loop with its eight-byte step and byte-wise tail gives the CRC-32C that shifts one bit at a
  time through the reflected polynomial, and the big-endian table loop gives the CRC-32 that shifts the other
  way. Both can be continued: the checksum of a concatenation is that of the second part seeded with that of
  the first.
\<close>

theorem crc_tables_are_bitwise:
  "crc_update seed data = crc_reference seed data
   \<and> crc32c data = crc_reference 0xffffffff data
   \<and> crc32_be_update seed data = crc_be_reference seed data
   \<and> crc_update seed (data @ rest) = crc_update (crc_update seed data) rest
   \<and> crc32_be_update seed (data @ rest) = crc32_be_update (crc32_be_update seed data) rest"
proof -
  have "crc_be_reference seed (data @ rest) = crc_be_reference (crc_be_reference seed data) rest"
    by (simp add: crc_be_reference_def)
  then show ?thesis
    by (simp add: crc_update_def crc32c_def update_slicing_eq crc32_be_update_eq reference_append)
qed

end
