(* ===== verification/FatTime.thy ===== *)
theory FatTime
  imports "HOL-Library.Word" "HOL-Library.Signed_Division"
begin

unbundle bit_operations_syntax

text \<open>
  The time stamps of the FAT driver: \<open>libs/fatfs/src/time.rs\<close>. Dates are computed on 64-bit integers, modelled
  as integers: a day count comes from a 64-bit second count, so no intermediate value leaves the 64-bit range.
  The division of the source truncates toward zero and is \<open>sdiv\<close> here; the Euclidean division by a
  positive constant is \<open>div\<close>.
\<close>

section \<open>The calendar\<close>

definition as_u32 :: "int \<Rightarrow> nat" where
  "as_u32 x = nat (x mod 2 ^ 32)"

definition civil_from_days :: "int \<Rightarrow> int \<times> nat \<times> nat" where
  "civil_from_days z0 =
     (let z = z0 + 719468;
          era = (if z \<ge> 0 then z else z - 146096) sdiv 146097;
          doe = z - era * 146097;
          yoe = (doe - doe sdiv 1460 + doe sdiv 36524 - doe sdiv 146096) sdiv 365;
          y = yoe + era * 400;
          doy = doe - (365 * yoe + yoe sdiv 4 - yoe sdiv 100);
          mp = (5 * doy + 2) sdiv 153;
          d = as_u32 (doy - (153 * mp + 2) sdiv 5 + 1);
          m = as_u32 (if mp < 10 then mp + 3 else mp - 9)
      in (if m \<le> 2 then y + 1 else y, m, d))"

definition days_from_civil :: "int \<Rightarrow> nat \<Rightarrow> nat \<Rightarrow> int" where
  "days_from_civil y0 m d =
     (let y = (if m \<le> 2 then y0 - 1 else y0);
          era = (if y \<ge> 0 then y else y - 399) sdiv 400;
          yoe = y - era * 400;
          mp = int ((m + 9) mod 12);
          doy = (153 * mp + 2) sdiv 5 + int d - 1;
          doe = yoe * 365 + yoe sdiv 4 - yoe sdiv 100 + doy
      in era * 146097 + doe - 719468)"

section \<open>Time stamps\<close>

record timespec =
  ts_secs :: int
  ts_nsecs :: nat

record fat_timestamp =
  ft_time :: "16 word"
  ft_date :: "16 word"
  ft_tenths :: "8 word"
  ft_mtime :: "16 word"
  ft_mdate :: "16 word"
  ft_adate :: "16 word"

definition EPOCH_1980 :: "16 word \<times> 16 word \<times> 8 word" where
  "EPOCH_1980 = (0, 0x0021, 0)"

definition timespec_to_fat :: "timespec \<Rightarrow> 16 word \<times> 16 word \<times> 8 word" where
  "timespec_to_fat ts =
     (let days = ts_secs ts div 86400;
          secs_of_day = ts_secs ts mod 86400
      in case civil_from_days days of (year, month, day) \<Rightarrow>
        if year < 1980 then EPOCH_1980
        else if year > 2107 then
          (push_bit 11 23 OR push_bit 5 59 OR 29, push_bit 9 127 OR push_bit 5 12 OR 31, 199)
        else
          let hour = word_of_int (secs_of_day sdiv 3600);
              minute = word_of_int ((secs_of_day mod 3600) sdiv 60);
              second = word_of_int (secs_of_day mod 60)
          in (push_bit 11 hour OR push_bit 5 minute OR drop_bit 1 second,
              push_bit 9 (word_of_int (year - 1980)) OR push_bit 5 (word_of_nat month) OR word_of_nat day,
              word_of_nat (ts_nsecs ts div 10000000)))"

definition fat_to_timespec :: "16 word \<Rightarrow> 16 word \<Rightarrow> 8 word \<Rightarrow> timespec" where
  "fat_to_timespec time date tenths =
     (let year = uint (drop_bit 9 date AND 0x7f) + 1980;
          month = unat (drop_bit 5 date AND 0x0f);
          day = unat (date AND 0x1f);
          hour = uint (drop_bit 11 time AND 0x1f);
          minute = uint (drop_bit 5 time AND 0x3f);
          second = uint ((time AND 0x1f) * 2);
          days = days_from_civil year month day;
          secs = days * 86400 + hour * 3600 + minute * 60 + second;
          hundredths = uint tenths
      in \<lparr>ts_secs = secs + hundredths sdiv 100, ts_nsecs = nat (hundredths mod 100 * 10000000)\<rparr>)"

definition from_timespec :: "timespec \<Rightarrow> fat_timestamp" where
  "from_timespec ts =
     (case timespec_to_fat ts of (time, date, tenths) \<Rightarrow>
        \<lparr>ft_time = time, ft_date = date, ft_tenths = tenths, ft_mtime = time, ft_mdate = date, ft_adate = date\<rparr>)"

section \<open>Division\<close>

lemma sdiv_pos: "0 \<le> x \<Longrightarrow> 0 < k \<Longrightarrow> x sdiv k = x div k" for x k :: int
  by (cases "x = 0") (simp_all add: signed_divide_int_def sgn_if)

text \<open>The idiom for the era rounds down for every argument.\<close>

lemma era_floor:
  fixes z k :: int
  assumes "0 < k"
  shows "(if z \<ge> 0 then z else z - (k - 1)) sdiv k = z div k"
proof (cases "z \<ge> 0")
  case True
  then show ?thesis using assms by (simp add: sdiv_pos)
next
  case False
  have neg: "- ((k - 1 - z) div k) = z div k"
  proof -
    have "k - 1 - z = (k - 1 - z mod k) + k * (- (z div k))" using mult_div_mod_eq [of k z] by (simp add: algebra_simps)
    then have "(k - 1 - z) div k = - (z div k) + (k - 1 - z mod k) div k" using assms by (metis add.commute div_mult_self2 less_irrefl)
    moreover have "(k - 1 - z mod k) div k = 0" using pos_mod_bound [OF assms, of z] pos_mod_sign [OF assms, of z] by (intro div_pos_pos_trivial) linarith+
    ultimately show ?thesis by simp
  qed
  have "(z - (k - 1)) sdiv k = - ((k - 1 - z) div k)"
    using False assms by (simp add: signed_divide_int_def sgn_if)
  then show ?thesis using False neg by simp
qed

section \<open>The year of an era\<close>

definition year_start :: "int \<Rightarrow> int" where
  "year_start y = 365 * y + y div 4 - y div 100"

definition leap_free :: "int \<Rightarrow> int" where
  "leap_free doe = doe - doe div 1460 + doe div 36524 - doe div 146096"

definition year_end :: "int \<Rightarrow> int" where
  "year_end y = (if y = 399 then 146096 else year_start (y + 1) - 1)"

lemma year_table:
  "list_all (\<lambda>y. 365 * y \<le> leap_free (year_start y) \<and> leap_free (year_end y) < 365 * (y + 1) \<and>
     year_end y - year_start y \<le> 365) [0..399]"
  by code_simp

lemma leap_free_mono: "0 \<le> a \<Longrightarrow> a \<le> b \<Longrightarrow> leap_free a \<le> leap_free b"
proof -
  assume "0 \<le> a" "a \<le> b"
  define p q where "p = a div 36524" and "q = b div 36524"
  have pq: "a div 146096 = p div 4" "b div 146096 = q div 4"
    by (simp_all add: p_def q_def zdiv_zmult2_eq [symmetric])
  have "p \<le> q" unfolding p_def q_def using \<open>a \<le> b\<close> by (simp add: zdiv_mono1)
  then have "p - p div 4 \<le> q - q div 4" by linarith
  moreover have "a - a div 1460 \<le> b - b div 1460" using \<open>a \<le> b\<close> by linarith
  ultimately show ?thesis unfolding leap_free_def pq p_def [symmetric] q_def [symmetric] by linarith
qed


lemma year_table_nth:
  assumes "0 \<le> y" "y \<le> 399"
  shows "365 * y \<le> leap_free (year_start y)" "leap_free (year_end y) < 365 * (y + 1)" "year_end y - year_start y \<le> 365"
  using year_table assms by (auto simp: list_all_iff)

lemma year_start_pos: "0 \<le> y \<Longrightarrow> 0 \<le> year_start y"
  unfolding year_start_def by linarith

lemma year_of_day:
  assumes "0 \<le> doe" "doe \<le> 146096"
  shows "leap_free doe div 365 \<in> {0..399} \<and> doe - year_start (leap_free doe div 365) \<in> {0..365}"
proof -
  let ?Y = "{y \<in> {0..399}. year_start y \<le> doe}"
  define y where "y = Max ?Y"
  have fin: "finite ?Y" by (rule finite_subset [of _ "{0..399}"]) auto
  have "0 \<in> ?Y" using assms by (simp add: year_start_def)
  then have y: "y \<in> ?Y" unfolding y_def using Max_in [OF fin] by blast
  have "doe \<le> year_end y"
  proof (cases "y = 399")
    case False
    then have "\<not> year_start (y + 1) \<le> doe" using y Max_ge [OF fin, of "y + 1", folded y_def] by auto
    then show ?thesis using False by (simp add: year_end_def)
  qed (simp add: year_end_def assms)
  then have "leap_free (year_start y) \<le> leap_free doe" "leap_free doe \<le> leap_free (year_end y)"
    using y assms year_start_pos [of y] by (auto intro: leap_free_mono)
  then have "365 * y \<le> leap_free doe" "leap_free doe < 365 * (y + 1)" using year_table_nth(1,2) [of y] y by auto
  then have "leap_free doe div 365 = y" by (intro int_div_pos_eq [where r = "leap_free doe - 365 * y"]) auto
  then show ?thesis using y \<open>doe \<le> year_end y\<close> year_table_nth(3) [of y] by auto
qed

section \<open>Days and dates\<close>

definition month_start :: "int \<Rightarrow> int" where
  "month_start mp = (153 * mp + 2) div 5"

lemma month_of_day:
  assumes "0 \<le> doy" "doy \<le> (365 :: int)"
  shows "(5 * doy + 2) div 153 \<in> {0..11} \<and> doy - month_start ((5 * doy + 2) div 153) \<in> {0..30}"
proof -
  define mp where "mp = (5 * doy + 2) div 153"
  have b: "153 * mp \<le> 5 * doy + 2" "5 * doy + 2 < 153 * mp + 153"
    unfolding mp_def by linarith+
  have "mp \<in> {0..11}" using assms unfolding mp_def by auto
  moreover have "5 * month_start mp \<le> 153 * mp + 2" "153 * mp - 3 < 5 * month_start mp"
    unfolding month_start_def by linarith+
  ultimately show ?thesis using b unfolding mp_def [symmetric] by auto
qed

lemma as_u32_id: "0 \<le> x \<Longrightarrow> x < 2 ^ 32 \<Longrightarrow> as_u32 x = nat x"
  by (simp add: as_u32_def)

text \<open>The conversion, with the truncating divisions replaced by their values.\<close>

lemma civil_from_days_eq:
  fixes z :: int
  defines "era \<equiv> (z + 719468) div 146097"
  defines "doe \<equiv> z + 719468 - era * 146097"
  defines "yoe \<equiv> leap_free doe div 365"
  defines "doy \<equiv> doe - year_start yoe"
  defines "mp \<equiv> (5 * doy + 2) div 153"
  shows "civil_from_days z =
      (if mp < 10 then yoe + era * 400 else yoe + era * 400 + 1, nat (if mp < 10 then mp + 3 else mp - 9),
       nat (doy - month_start mp + 1))"
    "yoe \<in> {0..399}" "mp \<in> {0..11}" "doy - month_start mp \<in> {0..30}"
proof -
  have doe: "0 \<le> doe" "doe \<le> 146096" unfolding doe_def era_def by (simp_all add: minus_div_mult_eq_mod)
  show yoe: "yoe \<in> {0..399}" and doy: "mp \<in> {0..11}" "doy - month_start mp \<in> {0..30}"
    using year_of_day [OF doe] month_of_day [of doy] unfolding yoe_def doy_def mp_def by auto
  have doy0: "0 \<le> doy" using year_of_day [OF doe] unfolding doy_def yoe_def by simp
  have k: "(146097 :: int) - 1 = 146096" by simp
  have e: "(if z + 719468 \<ge> 0 then z + 719468 else z + 719468 - 146096) sdiv 146097 = era"
    unfolding era_def by (rule era_floor [of 146097 "z + 719468", unfolded k]) simp
  have lf: "doe - doe sdiv 1460 + doe sdiv 36524 - doe sdiv 146096 = leap_free doe"
    using doe by (simp add: leap_free_def sdiv_pos)
  have "0 \<le> leap_free doe" using leap_free_mono [of 0 doe] doe by (simp add: leap_free_def)
  then have y: "leap_free doe sdiv 365 = yoe" by (simp add: sdiv_pos yoe_def)
  have d: "doe - (365 * yoe + yoe sdiv 4 - yoe sdiv 100) = doy"
    using yoe by (simp add: sdiv_pos doy_def year_start_def)
  have m: "(5 * doy + 2) sdiv 153 = mp" "(153 * mp + 2) sdiv 5 = month_start mp"
    using doy0 doy by (simp_all add: sdiv_pos mp_def [symmetric] month_start_def)
  have u: "as_u32 (doy - month_start mp + 1) = nat (doy - month_start mp + 1)"
    "as_u32 (if mp < 10 then mp + 3 else mp - 9) = nat (if mp < 10 then mp + 3 else mp - 9)"
    using doy by (auto intro!: as_u32_id)
  have "nat (if mp < 10 then mp + 3 else mp - 9) \<le> 2 \<longleftrightarrow> \<not> mp < 10" using doy(1) by auto
  then show "civil_from_days z =
      (if mp < 10 then yoe + era * 400 else yoe + era * 400 + 1, nat (if mp < 10 then mp + 3 else mp - 9),
       nat (doy - month_start mp + 1))"
    unfolding civil_from_days_def Let_def e doe_def [symmetric] lf y d m u by simp
qed


lemma days_of_civil:
  assumes "civil_from_days z = (y, m, d)"
  shows "days_from_civil y m d = z \<and> m \<in> {1..12} \<and> d \<in> {1..31}"
proof -
  define era where "era = (z + 719468) div 146097"
  define doe where "doe = z + 719468 - era * 146097"
  define yoe where "yoe = leap_free doe div 365"
  define doy where "doy = doe - year_start yoe"
  define mp where "mp = (5 * doy + 2) div 153"
  note c = civil_from_days_eq [of z, folded era_def, folded doe_def, folded yoe_def, folded doy_def, folded mp_def]
  have md: "m = nat (if mp < 10 then mp + 3 else mp - 9)" "d = nat (doy - month_start mp + 1)"
    and y: "(if m \<le> 2 then y - 1 else y) = yoe + era * 400"
    using assms c(1,3) by (cases "mp < 10"; auto)+
  have mp: "int ((m + 9) mod 12) = mp" using c(3) unfolding md(1) by (auto simp: nat_mod_distrib zmod_int)
  have e: "(if yoe + era * 400 \<ge> 0 then yoe + era * 400 else yoe + era * 400 - 399) sdiv 400 = era"
    using era_floor [of 400 "yoe + era * 400"] c(2) by (simp split: if_splits)
  have "days_from_civil y m d = era * 146097 + (yoe * 365 + yoe sdiv 4 - yoe sdiv 100 + ((153 * mp + 2) sdiv 5 + int d - 1)) - 719468"
    unfolding days_from_civil_def Let_def y mp e by simp
  also have "(153 * mp + 2) sdiv 5 + int d - 1 = doy"
    using c(3,4) by (simp add: sdiv_pos md(2) month_start_def)
  also have "yoe * 365 + yoe sdiv 4 - yoe sdiv 100 + doy = doe"
    using c(2) by (simp add: sdiv_pos doy_def year_start_def)
  finally have "days_from_civil y m d = z" by (simp add: doe_def)
  moreover have "m \<in> {1..12}" "d \<in> {1..31}" using c(3,4) unfolding md by auto
  ultimately show ?thesis by blast
qed

section \<open>The packed fields\<close>

lemma small_word:
  assumes "0 \<le> x" "x < 2 ^ n" "n \<le> 16"
  shows "take_bit n (word_of_int x :: 16 word) = word_of_int x" "uint (word_of_int x :: 16 word) = x"
proof -
  have "x < 2 ^ 16" using assms(2,3) power_increasing [of n 16 "2 :: int"] by linarith
  then show u: "uint (word_of_int x :: 16 word) = x" using assms(1) by (simp add: uint_word_of_int_eq take_bit_int_eq_self)
  show "take_bit n (word_of_int x :: 16 word) = word_of_int x"
    by (rule word_uint_eqI) (use u assms in \<open>simp add: unsigned_take_bit_eq take_bit_int_eq_self\<close>)
qed

lemma field_masks:
  "(w :: 16 word) AND 0x1f = take_bit 5 w" "w AND 0x3f = take_bit 6 w" "w AND 0x0f = take_bit 4 w" "w AND 0x7f = take_bit 7 w"
  by (simp_all add: take_bit_eq_mask mask_eq_exp_minus_1)

lemma time_fields:
  fixes h mi s :: "16 word"
  assumes "take_bit 5 h = h" "take_bit 6 mi = mi" "take_bit 5 s = s"
  defines "w \<equiv> push_bit 11 h OR push_bit 5 mi OR s"
  shows "take_bit 5 (drop_bit 11 w) = h" "take_bit 6 (drop_bit 5 w) = mi" "take_bit 5 w = s"
proof -
  have b: "bit h n \<Longrightarrow> n < 5" "bit mi n \<Longrightarrow> n < 6" "bit s n \<Longrightarrow> n < 5" for n
    using assms(1-3) by (metis bit_take_bit_iff)+
  show "take_bit 5 (drop_bit 11 w) = h" "take_bit 6 (drop_bit 5 w) = mi" "take_bit 5 w = s"
    unfolding w_def by (rule bit_word_eqI, auto simp: bit_simps dest: b)+
qed

lemma date_fields:
  fixes y m d :: "16 word"
  assumes "take_bit 7 y = y" "take_bit 4 m = m" "take_bit 5 d = d"
  defines "w \<equiv> push_bit 9 y OR push_bit 5 m OR d"
  shows "take_bit 7 (drop_bit 9 w) = y" "take_bit 4 (drop_bit 5 w) = m" "take_bit 5 w = d"
proof -
  have b: "bit y n \<Longrightarrow> n < 7" "bit m n \<Longrightarrow> n < 4" "bit d n \<Longrightarrow> n < 5" for n
    using assms(1-3) by (metis bit_take_bit_iff)+
  show "take_bit 7 (drop_bit 9 w) = y" "take_bit 4 (drop_bit 5 w) = m" "take_bit 5 w = d"
    unfolding w_def by (rule bit_word_eqI, auto simp: bit_simps dest: b)+
qed


lemma small_word_nat:
  assumes "x < 2 ^ n" "n \<le> 16"
  shows "take_bit n (word_of_nat x :: 16 word) = word_of_nat x" "unat (word_of_nat x :: 16 word) = x"
proof -
  have "int x < 2 ^ n" using assms(1) by (metis of_nat_less_iff of_nat_numeral of_nat_power)
  note w = small_word [OF of_nat_0_le_iff this assms(2)]
  show "take_bit n (word_of_nat x :: 16 word) = word_of_nat x" using w(1) by (simp only: of_int_of_nat_eq)
  show "unat (word_of_nat x :: 16 word) = x"
    using w(2) unfolding of_int_of_nat_eq uint_nat by (simp only: of_nat_eq_iff)
qed

lemma half_word:
  assumes "0 \<le> x" "x < 64"
  shows "uint (drop_bit 1 (word_of_int x :: 16 word) * 2) = x - x mod 2"
    "take_bit 5 (drop_bit 1 (word_of_int x :: 16 word)) = drop_bit 1 (word_of_int x)"
proof -
  have u: "uint (word_of_int x :: 16 word) = x" using small_word(2) [of x 6] assms by simp
  have d: "uint (drop_bit 1 (word_of_int x :: 16 word)) = x div 2"
    using assms by (simp only: unsigned_drop_bit_eq u) (simp add: drop_bit_eq_div take_bit_int_eq_self)
  have "uint (word_of_int (x div 2) :: 16 word) = x div 2" using small_word(2) [of "x div 2" 5] assms by simp
  then have "drop_bit 1 (word_of_int x :: 16 word) = word_of_int (x div 2)" by (intro word_uint_eqI) (simp only: d)
  moreover have "take_bit 5 (word_of_int (x div 2) :: 16 word) = word_of_int (x div 2)"
    using assms by (intro small_word(1)) auto
  ultimately show "take_bit 5 (drop_bit 1 (word_of_int x :: 16 word)) = drop_bit 1 (word_of_int x)" by simp
  have "uint (drop_bit 1 (word_of_int x :: 16 word) * 2) = (uint (drop_bit 1 (word_of_int x :: 16 word)) * uint (2 :: 16 word)) mod 2 ^ 16"
    by (simp add: uint_word_arith_bintrs take_bit_eq_mod)
  also have "\<dots> = x div 2 * 2" unfolding d using assms by simp
  finally show "uint (drop_bit 1 (word_of_int x :: 16 word) * 2) = x - x mod 2"
    by (simp add: minus_mod_eq_div_mult)
qed

lemma seconds_split:
  fixes s :: int
  shows "s div 86400 * 86400 + (s mod 86400 div 3600) * 3600 + (s mod 86400 mod 3600 div 60) * 60
      + (s mod 86400 mod 60 - s mod 86400 mod 60 mod 2) = s - s mod 2"
proof -
  define q where "q = s mod 86400"
  have "q mod 60 mod 2 = s mod 2" unfolding q_def by (simp add: mod_mod_cancel)
  moreover have "q mod 3600 mod 60 = q mod 60" by (simp add: mod_mod_cancel)
  moreover have "q div 3600 * 3600 + q mod 3600 = q" "q mod 3600 div 60 * 60 + q mod 3600 mod 60 = q mod 3600" by simp_all
  moreover have "s div 86400 * 86400 + q = s" by (simp add: q_def)
  ultimately show ?thesis unfolding q_def [symmetric] by linarith
qed

section \<open>Properties\<close>

text \<open>
  C24. A time stamp between 1980 and 2107 survives the FAT encoding up to its resolution: decoding gives the
  second count rounded down to an even number and the nanoseconds rounded down to ten milliseconds. The date
  part is exact: converting the day number to a date and back gives the day number. The stored fraction is below
  100, so the odd second is lost.
\<close>

theorem fat_time_round_trip:
  assumes "civil_from_days (ts_secs ts div 86400) = (y, m, d)" "1980 \<le> y" "y \<le> 2107" "ts_nsecs ts < 1000000000"
  shows "case timespec_to_fat ts of (time, date, tenths) \<Rightarrow>
      fat_to_timespec time date tenths =
        \<lparr>ts_secs = ts_secs ts - ts_secs ts mod 2, ts_nsecs = ts_nsecs ts - ts_nsecs ts mod 10000000\<rparr>
      \<and> unat tenths < 100 \<and> days_from_civil y m d = ts_secs ts div 86400"
proof -
  define q where "q = ts_secs ts mod 86400"
  define n where "n = ts_nsecs ts div 10000000"
  have q: "0 \<le> q" "q < 86400" by (simp_all add: q_def)
  have n: "n < 100" using assms(4) by (simp add: n_def less_mult_imp_div_less)
  note days = days_of_civil [OF assms(1)]
  have hm: "0 \<le> q div 3600" "q div 3600 < 2 ^ 5" "0 \<le> q mod 3600 div 60" "q mod 3600 div 60 < 2 ^ 6"
    "0 \<le> q mod 60" "q mod 60 < 64" using q by auto
  have le: "(5 :: nat) \<le> 16" "(6 :: nat) \<le> 16" "(7 :: nat) \<le> 16" "(4 :: nat) \<le> 16" by simp_all
  note h = small_word [OF hm(1,2) le(1)] and mi = small_word [OF hm(3,4) le(2)] and s = half_word [OF hm(5,6)]
  have yb: "0 \<le> y - 1980" "y - 1980 < 2 ^ 7" "m < 2 ^ 4" "d < 2 ^ 5" using assms(2,3) days by auto
  note yw = small_word [OF yb(1,2) le(3)] and mw = small_word_nat [OF yb(3) le(4)] and dw = small_word_nat [OF yb(4) le(1)]
  have t: "uint (word_of_nat n :: 8 word) = int n" "unat (word_of_nat n :: 8 word) = n"
    using n by (simp_all add: unsigned_of_nat take_bit_nat_eq_self take_bit_int_eq_self)
  have enc: "timespec_to_fat ts =
      (push_bit 11 (word_of_int (q div 3600)) OR push_bit 5 (word_of_int (q mod 3600 div 60)) OR drop_bit 1 (word_of_int (q mod 60)),
       push_bit 9 (word_of_int (y - 1980)) OR push_bit 5 (word_of_nat m) OR word_of_nat d, word_of_nat n)"
    using assms(1-3) q by (simp add: timespec_to_fat_def Let_def q_def [symmetric] n_def [symmetric] sdiv_pos)
  have frac: "int n sdiv 100 = 0" "nat (int n mod 100 * 10000000) = n * 10000000"
    using n by (simp_all add: sdiv_pos nat_mult_distrib)
  note tf = time_fields [OF h(1) mi(1) s(2)] and df = date_fields [OF yw(1) mw(1) dw(1)]
  have dec: "fat_to_timespec (fst (timespec_to_fat ts)) (fst (snd (timespec_to_fat ts))) (snd (snd (timespec_to_fat ts))) =
      \<lparr>ts_secs = ts_secs ts div 86400 * 86400 + q div 3600 * 3600 + q mod 3600 div 60 * 60 + (q mod 60 - q mod 60 mod 2),
       ts_nsecs = n * 10000000\<rparr>"
    unfolding enc fst_conv snd_conv fat_to_timespec_def Let_def field_masks tf df h(2) mi(2) s(1) yw(2) mw(2) dw(2) t
    by (simp only: diff_add_cancel days [THEN conjunct1] frac add_0_right)
  have nsecs: "n * 10000000 = ts_nsecs ts - ts_nsecs ts mod 10000000" by (simp only: n_def minus_mod_eq_div_mult)
  have "unat (snd (snd (timespec_to_fat ts))) < 100" unfolding enc snd_conv t by (rule n)
  moreover have "fat_to_timespec (fst (timespec_to_fat ts)) (fst (snd (timespec_to_fat ts))) (snd (snd (timespec_to_fat ts))) =
      \<lparr>ts_secs = ts_secs ts - ts_secs ts mod 2, ts_nsecs = ts_nsecs ts - ts_nsecs ts mod 10000000\<rparr>"
    unfolding dec using seconds_split [of "ts_secs ts"] nsecs unfolding q_def by (simp only:)
  ultimately show ?thesis unfolding case_prod_unfold using days [THEN conjunct1] by blast
qed

theorem fat_time_round_trip_witness:
  "case timespec_to_fat \<lparr>ts_secs = 1700000001, ts_nsecs = 123456789\<rparr> of (time, date, tenths) \<Rightarrow>
     fat_to_timespec time date tenths = \<lparr>ts_secs = 1700000000, ts_nsecs = 120000000\<rparr> \<and> unat tenths < 100"
proof -
  have "civil_from_days 19675 = (2023, 11, 14)"
    by code_simp
  then have "civil_from_days (ts_secs \<lparr>ts_secs = 1700000001, ts_nsecs = 123456789\<rparr> div 86400) = (2023, 11, 14)" by simp
  note rt = fat_time_round_trip [OF this]
  show ?thesis using rt by (simp add: case_prod_unfold)
qed

end
