(* ===== verification/Spec2Isabelle.thy ===== *)
theory Spec2Isabelle
  imports VmaProps RecordLockProps Flock CbpfProps NativeHandleProps ReassemblyProps DeadlineProps
    FlowExecutionProps BindProps TimerWheelProps XattrSystem Crc FatTime
begin

text \<open>
  A verification development for the Hitoshizuku kernel. The program is a Rust kernel of some twenty
  libraries with drivers and a system call layer around them; this development models those library
  modules whose behaviour is a data structure or a protocol of its own, and proves what makes each of
  them correct. Paths below are relative to \<open>src/\<close>.

  \<^bold>\<open>Parts and theories.\<close>

  \<^item> Address spaces (\<open>libs/mm/src/flags.rs\<close>, \<open>area.rs\<close>, \<open>set.rs\<close>). \<open>VmArea\<close> has the flags, backings and single
    areas (\<open>split_at\<close>, \<open>clip_to\<close>, merging conditions); \<open>VmaSet\<close> the sorted vector with its lookup cache and
    every operation of \<open>VmaSet\<close>; \<open>VmaRange\<close>, \<open>VmaProtect\<close> and \<open>VmaSearch\<close> the lemmas on unmapping, protection
    and gap search; \<open>VmaProps\<close> the properties C1 to C7 and C11: the areas stay well formed, sorted and disjoint,
    each operation changes exactly the bytes it should, and the gap searches are first fit and complete.
    The locale \<open>address_space\<close> is the contract clients of the set rely on.

  \<^item> Record locks (\<open>libs/vfs/src/record_lock.rs\<close>). \<open>RecordLock\<close> has the lock list, \<open>normalize\<close>, \<open>apply\<close> and the
    blocking protocol of \<open>setlk_inner\<close> cut at its critical sections; \<open>RecordLockRange\<close> the byte-level meaning
    of the list; \<open>RecordLockSystem\<close> the invariants over all interleavings; \<open>RecordLockProps\<close> C12 to C18.

  \<^item> BSD locks (\<open>libs/vfs/src/flock.rs\<close>): \<open>Flock\<close>, with C19 (exclusion over all interleavings) and C20 (a
    downgrade that wakes nobody).

  \<^item> Classic BPF (\<open>libs/net/src/bpf.rs\<close>). \<open>Cbpf\<close> has \<open>compile\<close>, \<open>run\<close> and the user layout; \<open>CbpfProps\<close> C21 and C22:
    validated filters return within as many steps as they have instructions, and in a build with overflow
    checks the shifts by 32 or more are exactly what panics, with lemmas on the round trip of the layout and
    on packet loads.

  \<^item> Native handles (\<open>libs/native-abi/src/handle.rs\<close>). \<open>NativeHandle\<close> has the slot table with generations,
    \<open>NativeHandleProps\<close> C26 to C28: insertion, staleness of closed handles, attenuation.

  \<^item> Internet checksum (\<open>libs/net/src/pipeline/mod.rs\<close>): \<open>NetChecksum\<close>, with C29 and C30.

  \<^item> IP reassembly (\<open>libs/net/src/flow/reassembly.rs\<close>). \<open>Reassembly\<close> has the table and \<open>ingest\<close>, on top of the
    checksum and the address types of \<open>NetAddress\<close> (\<open>libs/net/src/address.rs\<close>); \<open>ReassemblyProps\<close> C31 (the limits,
    exact accounting and disjoint fragments) and C32 (the completed packet).

  \<^item> Deadline admission (\<open>libs/sched/src/deadline_admission.rs\<close>). \<open>DeadlineAdmission\<close> has the ledger;
    \<open>DeadlineProps\<close> an abstract ledger, a partial map from tasks to a CPU and a utilization, and C33 to C35: the
    totals are exact and the operations refine single updates of that map.

  \<^item> Execution lease (\<open>libs/net/src/flow/execution.rs\<close>). \<open>FlowExecution\<close> has the atomic word and the operations
    cut at their atomic accesses; \<open>FlowExecutionProps\<close> C36 and C37: one holder, no failing assertion, no lost work.

  \<^item> Port registry (\<open>libs/net/src/control/bind.rs\<close>). \<open>BindRegistry\<close> has the groups, the conflict rules and the
    ephemeral search; \<open>BindProps\<close> C38 (no conflicting bindings) and C39 (the search is complete).

  \<^item> Timer wheel (\<open>libs/net/src/flow/timer.rs\<close>). \<open>TimerWheel\<close> has the levels, slots, linked nodes and deadline
    caches and every operation; \<open>TimerWheelInv\<close> the invariant that each slot is a doubly linked list of the nodes
    placed there, with exact caches; \<open>TimerWheelTick\<close> one tick with its cascades; \<open>TimerWheelCancel\<close> unlinking,
    scheduling and the next deadline; \<open>TimerWheelProps\<close> the client's view and C40: a wheel behaves like a map from
    owners to deadlines, and every timer fires once, at its millisecond.

  \<^item> File permissions. \<open>Credential\<close> has capabilities, credentials and the check of mode bits
    (\<open>libs/vfs/src/cred.rs\<close>, \<open>stat.rs\<close>, \<open>error.rs\<close>); \<open>Acl\<close> the access control lists (\<open>libs/vfs/src/acl.rs\<close>), with C23
    (parsing and encoding) and C25 (the decision of a list) in \<open>AclProps\<close>; \<open>Xattr\<close> the attribute calls
    (\<open>libs/vfs/src/xattr.rs\<close>), \<open>check_access\<close>, and \<open>chmod_inode\<close>, \<open>chown_inode\<close> and the creation helpers of
    \<open>libs/vfs/src/operation.rs\<close> over the attribute store of \<open>general/src/vfs/tmpfs.rs\<close>; \<open>XattrProps\<close> the
    invariant of one inode, that each call keeps it when nothing interferes, and C9 (what chmod leaves
    unchanged). \<open>XattrSystem\<close> cuts the same calls at their accesses to the metadata lock, the attribute lock and
    the attribute hint, shows that a call run without interference is the one of \<open>Xattr\<close>, and has C8: stored
    lists parse over every interleaving, and lists, hint and mode are consistent when calls that write do not
    overlap. The theorem \<open>removexattr_hides_acl\<close> shows that the latter condition is needed.

  \<^item> Checksums of the ext file system (\<open>libs/extfs/src/crc.rs\<close>): \<open>Crc\<close>, on the byte conversions of \<open>Bytes\<close>, with C10.

  \<^item> FAT time stamps (\<open>libs/fatfs/src/time.rs\<close>): \<open>FatTime\<close>, with C24.

  \<^bold>\<open>The library.\<close> \<open>Prelude\<close> holds the 64-bit arithmetic (\<open>checked_add\<close>, \<open>saturating_sub\<close>, \<open>\<dots>\<close>), the vector
  operations of the standard library (\<open>partition_point\<close>, \<open>swap_remove\<close>, \<open>position\<close>, \<open>min_by_key\<close>) with their lemmas,
  and the interfaces the components share. \<open>inductive_invariant\<close> is a transition system with an invariant
  and is interpreted for the VMA set, both lock tables, the handle table, reassembly, the deadline ledger,
  the execution lease and the permission calls on an inode. \<open>epoch_system\<close> extends it by a counter that never decreases and is interpreted
  for the generations of handle slots. \<open>admission_table\<close> is a table that admits an entry only when it
  clashes with nothing present, and is interpreted for the lock tables and the port registry. The locale
  \<open>timer_service\<close> of \<open>TimerWheelProps\<close> lifts a correct tick to a correct advance and is interpreted for the wheel.

  \<^bold>\<open>Conventions.\<close> A struct is a record and an enum a datatype with the constructors of the source. 64-bit
  sizes and times are natural numbers, with the checked, saturating or wrapping operation of the source
  written out; bit fields and packet bytes are words. A panic is an outer \<open>None\<close> or an outcome of its own. An
  \<open>Arc\<close> is the identity of what it points to. Code that runs under one lock is one step; where a call gives
  up its lock or uses atomics (both kinds of file locks, the execution lease, the permission calls), its parts
  are separate steps of a step relation over any number of tasks. The properties on these parts hold for every
  interleaving, except the second half of C8, which says so, and C9, which is about one call to \<open>chmod\<close> that
  nothing interferes with. Weak memory effects beyond interleaving are not represented. A debug
  assertion is a panic of the model, except in \<open>find_area_index\<close>, where what it asserts is part of the
  invariant of C1.

  \<^bold>\<open>Bounds.\<close> All loops are total functions, by structural recursion or with a measure, except the walks along
  the links of the timer wheel: they take the number of nodes as fuel, and C40 shows that on every reachable
  wheel this is enough, so that each call returns. The BPF interpreter has the step limit of the source, and C21
  shows that a validated filter never reaches it.

  \<^bold>\<open>Hypotheses.\<close> Capacities given to the deadline ledger are below the largest 64-bit value. The payload of
  a parsed IP packet starts at offset 34 or later, behind the Ethernet and IPv4 headers. The sum of the
  internet checksum does not overflow 64 bits, which takes more than \<open>2 ^ 49\<close> bytes, and the fragments of a
  packet chain can be read. A timer wheel is made
  with a time in milliseconds that fits 64 bits in nanoseconds, as its caller does. Allocation failure is a
  parameter where the code handles it and otherwise does not occur.

  \<^bold>\<open>Not modelled.\<close> The allocators, the scheduler proper, signals and processes, path lookup, mounts, descriptors
  and the rest of the VFS, the on-disk formats and journals of the file systems, the network pipeline, TCP and
  UDP, sockets, module loading, firmware and image formats, drivers, architecture code and the system call
  layer: they are I/O, depend on hardware or on raw memory, or are not covered yet. Of the attribute operations
  the time stamps they set are left out, and of the creation of a file the directory entry and the refusals
  of the backend (a name that exists, an exhausted store): it is modelled from the permission check to the
  installed list, and of the FAT time stamps
  reading the clock.
\<close>

end
